(* ===== verification/Golem_Prelude.thy ===== *)
theory Golem_Prelude
  imports Main "HOL-Library.Word"
begin

text \<open>
  Shared vocabulary of the development: the machine types of the golem element
  (\<open>uint8_t\<close> to \<open>uint64_t\<close> and the bit pattern of a \<open>float\<close>), unsigned subtraction on
  counters, ranges of vectors, and the collections of rewrite rules the component theories
  extend.  Cycle counts, statistics counters and container sizes are natural numbers; where
  the source subtracts two of them without a guard the model uses \<open>sub64\<close>, which wraps as
  \<open>uint64_t\<close> does, so that the absence of underflow is a theorem and not an assumption.
\<close>

section \<open>Machine types\<close>

type_synonym u8 = "8 word"
type_synonym u16 = "16 word"
type_synonym u32 = "32 word"
type_synonym u64 = "64 word"

text \<open>A \<open>float\<close> is its 32-bit pattern.\<close>

type_synonym f32 = "32 word"

named_theorems golem_frame \<open>fields an operation leaves alone\<close>
named_theorems golem_inv \<open>invariants kept by an operation\<close>

section \<open>Unsigned 64-bit subtraction on counters\<close>

definition sub64 :: "nat \<Rightarrow> nat \<Rightarrow> nat" where
  "sub64 a b = (if b \<le> a then a - b else 2 ^ 64 + a - b)"

lemma sub64_eq [simp]: "b \<le> a \<Longrightarrow> sub64 a b = a - b"
  by (simp add: sub64_def)

lemma sub64_self [simp]: "sub64 a a = 0"
  by simp

text \<open>The same for \<open>uint32_t\<close> counters.\<close>

definition sub32 :: "nat \<Rightarrow> nat \<Rightarrow> nat" where
  "sub32 a b = (if b \<le> a then a - b else 2 ^ 32 + a - b)"

lemma sub32_eq [simp]: "b \<le> a \<Longrightarrow> sub32 a b = a - b"
  by (simp add: sub32_def)

section \<open>Ordered maps\<close>

text \<open>
  A \<open>std::map\<close> whose key is a field \<open>f\<close> of the stored value is the list of its values in the
  order of the keys; \<open>emplace\<close> keeps an existing entry.
\<close>

definition emplace_by :: "('v \<Rightarrow> 'k::linorder) \<Rightarrow> 'v \<Rightarrow> 'v list \<Rightarrow> 'v list" where
  "emplace_by f v m = (if f v \<in> f ` set m then m else insort_key f v m)"

lemma insort_key_last: "(\<forall>y \<in> set xs. f y < f x) \<Longrightarrow> insort_key f x xs = xs @ [x]"
  by (induction xs) auto

lemma emplace_by_last: "(\<forall>x \<in> set m. f x < f v) \<Longrightarrow> emplace_by f v m = m @ [v]"
  by (auto simp: emplace_by_def insort_key_last)

section \<open>Lists\<close>

lemma length_filter_mono:
  assumes "\<And>x. x \<in> set xs \<Longrightarrow> P x \<Longrightarrow> Q x"
  shows "length (filter P xs) \<le> length (filter Q xs)"
  using assms by (induction xs) (auto intro: le_SucI)

lemma length_filter_cong:
  assumes "\<And>x. x \<in> set xs \<Longrightarrow> P x = Q x"
  shows "length (filter P xs) = length (filter Q xs)"
  using assms by (metis filter_cong)

lemma length_filter_update:
  "i < length xs \<Longrightarrow> length (filter P (xs[i := y])) + (if P (xs ! i) then 1 else 0) =
     length (filter P xs) + (if P y then 1 else 0)"
proof (induction xs arbitrary: i)
  case (Cons x xs)
  then show ?case
  proof (cases i)
    case (Suc j)
    with Cons.prems Cons.IH [of j] show ?thesis by (auto split: if_splits)
  qed simp
qed simp

text \<open>A table whose entries are told apart by a key \<open>f\<close>.\<close>

lemma find_unique: "distinct (map f xs) \<Longrightarrow> x \<in> set xs \<Longrightarrow> find (\<lambda>y. f y = f x) xs = Some x"
  by (induction xs) auto

lemma find_key_None: "k \<notin> f ` set xs \<Longrightarrow> find (\<lambda>y. f y = k) xs = None"
  by (auto simp: find_None_iff)

section \<open>Ranges of a vector\<close>

text \<open>
  \<open>get_range\<close> is the range \<open>[begin + off, begin + off + n)\<close>; \<open>copy_range\<close> is \<open>std::copy\<close> into it,
  and \<open>fill_range\<close> is \<open>std::fill\<close> over it.
\<close>

definition get_range :: "nat \<Rightarrow> nat \<Rightarrow> 'a list \<Rightarrow> 'a list" where
  "get_range off n xs = take n (drop off xs)"

definition copy_range :: "nat \<Rightarrow> 'a list \<Rightarrow> 'a list \<Rightarrow> 'a list" where
  "copy_range off ys xs = take off xs @ ys @ drop (off + length ys) xs"

definition fill_range :: "nat \<Rightarrow> nat \<Rightarrow> 'a \<Rightarrow> 'a list \<Rightarrow> 'a list" where
  "fill_range off n v xs = copy_range off (replicate n v) xs"

lemma length_copy_range [simp]: "off + length ys \<le> length xs \<Longrightarrow> length (copy_range off ys xs) = length xs"
  by (simp add: copy_range_def)

lemma length_fill_range [simp]: "off + n \<le> length xs \<Longrightarrow> length (fill_range off n v xs) = length xs"
  by (simp add: fill_range_def)

lemma nth_copy_range:
  "off + length ys \<le> length xs \<Longrightarrow> i < length xs \<Longrightarrow>
     copy_range off ys xs ! i = (if off \<le> i \<and> i < off + length ys then ys ! (i - off) else xs ! i)"
  by (auto simp: copy_range_def nth_append)

lemma nth_fill_range:
  "off + n \<le> length xs \<Longrightarrow> i < length xs \<Longrightarrow>
     fill_range off n v xs ! i = (if off \<le> i \<and> i < off + n then v else xs ! i)"
  by (auto simp: fill_range_def nth_copy_range)

lemma copy_range_Nil [simp]: "copy_range off [] xs = xs"
  by (simp add: copy_range_def)

lemma copy_range_Cons:
  "off + length (y # ys) \<le> length xs \<Longrightarrow> copy_range (Suc off) ys (xs[off := y]) = copy_range off (y # ys) xs"
  by (rule nth_equalityI) (auto simp: nth_copy_range nth_list_update nth_Cons' Suc_diff_le)

lemma fill_range_Suc:
  "off + Suc n \<le> length xs \<Longrightarrow> fill_range (Suc off) n v (xs[off := v]) = fill_range off (Suc n) v xs"
  unfolding fill_range_def using copy_range_Cons [of off v "replicate n v" xs] by simp

lemma fill_range_same:
  assumes "off + n \<le> length xs" "\<forall>k < n. xs ! (off + k) = v"
  shows "fill_range off n v xs = xs"
  using assms by (intro nth_equalityI) (auto simp: nth_fill_range le_iff_add)

lemma length_get_range [simp]: "off + n \<le> length xs \<Longrightarrow> length (get_range off n xs) = n"
  by (simp add: get_range_def)

lemma nth_get_range [simp]: "off + n \<le> length xs \<Longrightarrow> i < n \<Longrightarrow> get_range off n xs ! i = xs ! (off + i)"
  by (simp add: get_range_def)

lemma ball_get_range_iff:
  "off + n \<le> length xs \<Longrightarrow>
     (\<forall>x \<in> set (get_range off n xs). P x) \<longleftrightarrow> (\<forall>i < n. P (xs ! (off + i)))"
  by (simp add: all_set_conv_all_nth)

lemma get_range_split: "xs = take off xs @ get_range off n xs @ drop (off + n) xs"
  using append_take_drop_id [of n "drop off xs"] append_take_drop_id [of off xs]
  by (simp add: get_range_def add.commute)

lemma filter_get_range_split:
  "length (filter P xs) = length (filter P (take off xs)) +
     length (filter P (get_range off n xs)) + length (filter P (drop (off + n) xs))"
  by (subst get_range_split [of xs off n]) (simp only: filter_append length_append add.assoc)

text \<open>Filling a range that held no match adds exactly the matches of the new content.\<close>

lemma filter_copy_range:
  assumes "\<forall>x \<in> set (get_range off (length ys) xs). \<not> P x"
  shows "length (filter P (copy_range off ys xs)) = length (filter P xs) + length (filter P ys)"
proof -
  have "filter P (get_range off (length ys) xs) = []" using assms by (simp add: filter_empty_conv)
  then show ?thesis
    using filter_get_range_split [of P xs off "length ys"] by (simp add: copy_range_def)
qed

lemma filter_fill_range:
  assumes "\<forall>x \<in> set (get_range off n xs). \<not> P x"
  shows "length (filter P (fill_range off n v xs)) = length (filter P xs) + (if P v then n else 0)"
  using filter_copy_range [of off "replicate n v" xs P] assms by (simp add: fill_range_def)

text \<open>A loop that updates the elements of a range one after the other.\<close>

lemma fold_update_range:
  "off + k \<le> length xs \<Longrightarrow>
     length (fold (\<lambda>i ys. ys[off + i := f i (ys ! (off + i))]) [0..<k] xs) = length xs \<and>
     (\<forall>j < length xs. fold (\<lambda>i ys. ys[off + i := f i (ys ! (off + i))]) [0..<k] xs ! j =
        (if off \<le> j \<and> j < off + k then f (j - off) (xs ! j) else xs ! j))"
proof (induction k)
  case (Suc k)
  then show ?case by (auto simp: nth_list_update)
qed auto

lemma sum_list_update_add:
  "i < length xs \<Longrightarrow> sum_list (map f (xs[i := y])) + f (xs ! i) = sum_list (map f xs) + (f y :: 'b :: comm_monoid_add)"
proof (induction xs arbitrary: i)
  case (Cons x xs)
  then show ?case by (cases i) (auto simp: add.assoc add.left_commute add.commute)
qed simp

lemma exchange_sum:
  fixes a :: "'b :: cancel_comm_monoid_add"
  assumes "a + e = b + u" "u + m' = e + m"
  shows "a + m' = b + m"
proof -
  have "e + (a + m') = (a + e) + m'" by (simp only: ac_simps)
  also have "\<dots> = b + (u + m')" by (simp only: assms(1) add.assoc)
  also have "\<dots> = e + (b + m)" unfolding assms(2) by (simp only: ac_simps)
  finally show ?thesis by simp
qed

lemma map_update_same: "f y = f (xs ! n) \<Longrightarrow> map f (xs[n := y]) = map f xs"
  by (cases "n < length xs") (simp_all add: map_update list_update_same_conv list_update_beyond)

end
