(* ===== verification/Ieee_Formats.thy ===== *)
theory Ieee_Formats
  imports Golem_Prelude "HOL-Library.Log_Nat"
begin

text \<open>
  What the golem sources use of the C++ \<open>float\<close>: binary32 values as bit patterns, their exact
  value as an integer number of units \<open>2^-149\<close>, rounding to nearest with ties to even, and
  \<open>std::fma\<close>, \<open>std::isfinite\<close> and \<open>operator+\<close> defined from them.  A NaN result is the
  quiet NaN \<open>0x7fc00000\<close>; C++ leaves its payload open.
\<close>

unbundle bit_operations_syntax

section \<open>Round to nearest, ties to even\<close>

text \<open>\<open>rne n k\<close> is \<open>n / 2^k\<close> rounded to the nearest integer, an exact half to the even one.\<close>

definition rne :: "nat \<Rightarrow> nat \<Rightarrow> nat" where
  "rne n k = (let q = n div 2 ^ k; r = n mod 2 ^ k
              in if 2 ^ k < 2 * r \<or> (2 * r = 2 ^ k \<and> odd q) then q + 1 else q)"

text \<open>
  \<open>rne_encode p inff u n\<close> is the biased-exponent-and-fraction field of the format with \<open>p\<close>
  fraction bits whose smallest unit is \<open>2^u\<close> times the unit of \<open>n\<close>; the exponent is chosen
  so that \<open>p + 1\<close> significant bits remain, or the subnormal unit, and a carry out of the
  fraction moves into the exponent.  \<open>inff\<close> is the field of infinity.
\<close>

definition rne_encode :: "nat \<Rightarrow> nat \<Rightarrow> nat \<Rightarrow> nat \<Rightarrow> nat" where
  "rne_encode p inff u n =
     (let k = floorlog 2 n - (p + 1) - u in min (k * 2 ^ p + rne n (k + u)) inff)"

lemma rne_0 [simp]: "rne n 0 = n"
  by (simp add: rne_def)

lemma rne_zero [simp]: "rne 0 k = 0"
  by (simp add: rne_def)

lemma rne_shift: "rne (n * 2 ^ a) (k + a) = rne n k"
proof -
  have q: "n * 2 ^ a div 2 ^ (k + a) = n div 2 ^ k" by (simp add: power_add)
  have r: "n * 2 ^ a mod 2 ^ (k + a) = (n mod 2 ^ k) * 2 ^ a"
    by (simp add: power_add mult_mod_left)
  have c: "2 ^ (k + a) < 2 * (n mod 2 ^ k * 2 ^ a) \<longleftrightarrow> 2 ^ k < 2 * (n mod 2 ^ k)"
    "2 * (n mod 2 ^ k * 2 ^ a) = 2 ^ (k + a) \<longleftrightarrow> 2 * (n mod 2 ^ k) = 2 ^ k"
    by (simp_all add: power_add flip: mult.assoc)
  show ?thesis unfolding rne_def q r Let_def c ..
qed

lemma rne_exact [simp]: "rne (n * 2 ^ k) k = n"
  using rne_shift [of n k 0] by simp

lemma rne_add_even: "even q \<Longrightarrow> rne (q * 2 ^ k + n) k = q + rne n k"
  by (simp add: rne_def Let_def)

lemma rne_small: "2 * n < 2 ^ k \<Longrightarrow> rne n k = 0"
proof -
  assume a: "2 * n < 2 ^ k"
  then have "n < 2 ^ k" by linarith
  with a show ?thesis by (simp add: rne_def)
qed

text \<open>The rounded value is within half a unit, and an exact half goes to the even neighbour.\<close>

lemma rne_nearest:
  "2 * n \<le> (2 * rne n k + 1) * 2 ^ k \<and> 2 * rne n k * 2 ^ k \<le> 2 * n + 2 ^ k"
proof -
  define q r where "q = n div 2 ^ k" and "r = n mod 2 ^ k"
  have n: "n = q * 2 ^ k + r" by (simp only: q_def r_def div_mult_mod_eq)
  have "r < 2 ^ k" by (simp add: r_def)
  then show ?thesis
    unfolding rne_def Let_def q_def [symmetric] r_def [symmetric]
    by (auto simp: n algebra_simps)
qed

lemma rne_tie_even:
  assumes "2 * n = (2 * m + 1) * 2 ^ k"
  shows "even (rne n k)"
proof (cases k)
  case 0
  with assms have "2 * n = 2 * m + 1" by simp
  then have False by presburger
  then show ?thesis ..
next
  case (Suc j)
  then have n: "n = m * 2 ^ k + 2 ^ j" using assms by (simp add: algebra_simps)
  have "n div 2 ^ k = m" "n mod 2 ^ k = 2 ^ j" using n Suc by simp_all
  with Suc show ?thesis by (simp add: rne_def)
qed

section \<open>Binary32\<close>

definition f32_sign :: "f32 \<Rightarrow> bool" where
  "f32_sign w \<longleftrightarrow> unat w div 2 ^ 31 = 1"

definition f32_exp :: "f32 \<Rightarrow> nat" where
  "f32_exp w = unat w div 2 ^ 23 mod 256"

definition f32_frac :: "f32 \<Rightarrow> nat" where
  "f32_frac w = unat w mod 2 ^ 23"

definition f32_isfinite :: "f32 \<Rightarrow> bool" where
  "f32_isfinite w \<longleftrightarrow> f32_exp w \<noteq> 255"

definition f32_isinf :: "f32 \<Rightarrow> bool" where
  "f32_isinf w \<longleftrightarrow> f32_exp w = 255 \<and> f32_frac w = 0"

definition f32_isnan :: "f32 \<Rightarrow> bool" where
  "f32_isnan w \<longleftrightarrow> f32_exp w = 255 \<and> f32_frac w \<noteq> 0"

text \<open>Magnitude of a finite value in units of \<open>2^-149\<close>.\<close>

definition f32_mag :: "f32 \<Rightarrow> nat" where
  "f32_mag w = (if f32_exp w = 0 then f32_frac w else (2 ^ 23 + f32_frac w) * 2 ^ (f32_exp w - 1))"

definition f32_val :: "f32 \<Rightarrow> int" where
  "f32_val w = (if f32_sign w then - int (f32_mag w) else int (f32_mag w))"

definition f32_inf :: "bool \<Rightarrow> f32" where
  "f32_inf s = (if s then 0xff800000 else 0x7f800000)"

definition f32_nan :: f32 where
  "f32_nan = 0x7fc00000"

definition f32_round :: "bool \<Rightarrow> nat \<Rightarrow> nat \<Rightarrow> f32" where
  "f32_round s u n = word_of_nat ((if s then 2 ^ 31 else 0) + rne_encode 23 0x7f800000 u n)"

definition f32_fma :: "f32 \<Rightarrow> f32 \<Rightarrow> f32 \<Rightarrow> f32" where
  "f32_fma a b c =
     (if f32_isnan a \<or> f32_isnan b \<or> f32_isnan c then f32_nan
      else if f32_isinf a \<or> f32_isinf b then
        (if (f32_isfinite a \<and> f32_mag a = 0) \<or> (f32_isfinite b \<and> f32_mag b = 0) then f32_nan
         else if f32_isinf c \<and> f32_sign c \<noteq> (f32_sign a \<noteq> f32_sign b) then f32_nan
         else f32_inf (f32_sign a \<noteq> f32_sign b))
      else if f32_isinf c then c
      else
        (let x = f32_val a * f32_val b + f32_val c * 2 ^ 149
         in if x = 0 then (if f32_sign a \<noteq> f32_sign b \<and> f32_sign c then 0x80000000 else 0)
            else f32_round (x < 0) 149 (nat \<bar>x\<bar>)))"

definition f32_add :: "f32 \<Rightarrow> f32 \<Rightarrow> f32" where
  "f32_add a b = f32_fma 0x3f800000 a b"

section \<open>Bit fields as arithmetic\<close>

lemma or_disjoint_nat: "a < 2 ^ n \<Longrightarrow> (b * 2 ^ n) OR a = b * 2 ^ n + (a::nat)"
proof -
  assume a: "a < 2 ^ n"
  have "\<not> bit (b * 2 ^ n) i \<or> \<not> bit a i" for i
  proof (cases "i < n")
    case True
    then show ?thesis by (simp add: bit_push_bit_iff flip: push_bit_eq_mult)
  next
    case False
    then have "(2::nat) ^ n \<le> 2 ^ i" by simp
    with a have "a < 2 ^ i" by linarith
    then show ?thesis by (simp add: bit_iff_odd)
  qed
  then show ?thesis by (simp add: disjunctive_add)
qed

lemma unat_drop: "unat (drop_bit n (w :: 'a::len word)) = unat w div 2 ^ n"
  by (subst unat_drop_bit_eq) (simp only: drop_bit_eq_div)

lemma unat_take: "unat (take_bit n (w :: 'a::len word)) = unat w mod 2 ^ n"
  by (subst unsigned_take_bit_eq) (simp only: take_bit_eq_mod)

lemma f32_fields: "unat w = (if f32_sign w then 2 ^ 31 else 0) + f32_exp w * 2 ^ 23 + f32_frac w"
proof -
  have lt: "unat w < 2 ^ 32" using unsigned_less [of w] by simp
  then have s: "unat w div 2 ^ 31 = 0 \<or> unat w div 2 ^ 31 = 1" by auto
  define q where "q = unat w div 2 ^ 23"
  have "unat w = q * 2 ^ 23 + unat w mod 2 ^ 23"
    unfolding q_def by (simp only: div_mult_mod_eq)
  also have "q = q div 256 * 256 + q mod 256" by (simp only: div_mult_mod_eq)
  also have "q div 256 = unat w div 2 ^ 31" by (simp add: q_def flip: div_mult2_eq)
  finally have "unat w = unat w div 2 ^ 31 * 2 ^ 31 + (unat w div 2 ^ 23 mod 256) * 2 ^ 23 + unat w mod 2 ^ 23"
    by (simp add: q_def algebra_simps)
  with s show ?thesis by (auto simp: f32_sign_def f32_exp_def f32_frac_def)
qed

lemma f32_frac_less: "f32_frac w < 2 ^ 23"
  by (simp add: f32_frac_def)

lemma f32_exp_less: "f32_exp w < 256"
  by (simp add: f32_exp_def)

end
