(* ===== verification/Fp16.thy ===== *)
theory Fp16
  imports Ieee_Formats
begin

text \<open>
  The binary16 storage type of \<open>fp16.h\<close>: widening to \<open>float\<close>, narrowing with rounding, and
  the accumulating assignment of \<open>GolemFp16\<close>.  Both conversions work on bit patterns exactly
  as the source does.  The normalisation loop of the widening is partial, so that its
  termination is a theorem.
\<close>

unbundle bit_operations_syntax

section \<open>The conversions\<close>

partial_function (option) fp16_normalize :: "u32 \<Rightarrow> int \<Rightarrow> (u32 \<times> int) option" where
  "fp16_normalize normalized e =
     (if normalized AND 0x0400 = 0 then fp16_normalize (push_bit 1 normalized) (e - 1)
      else Some (normalized, e))"

definition golem_fp16_to_float :: "u16 \<Rightarrow> f32 option" where
  "golem_fp16_to_float v =
     (let sign = push_bit 16 (ucast (v AND 0x8000) :: u32);
          exponent = ucast (drop_bit 10 v AND 0x1f) :: u32;
          fraction = ucast (v AND 0x03ff) :: u32
      in if exponent = 0 then
           (if fraction = 0 then Some sign
            else map_option (\<lambda>(normalized, e).
                   sign OR push_bit 23 (word_of_int (e + 127)) OR
                   push_bit 13 (normalized AND 0x03ff))
                 (fp16_normalize fraction (-14)))
         else if exponent = 0x1f then Some (sign OR 0x7f800000 OR push_bit 13 fraction)
         else Some (sign OR push_bit 23 (exponent + 112) OR push_bit 13 fraction))"

definition golem_float_to_fp16 :: "f32 \<Rightarrow> u16" where
  "golem_float_to_fp16 bits =
     (let sign = ucast (drop_bit 16 bits AND 0x8000) :: u16;
          exponent = drop_bit 23 bits AND 0xff;
          fraction = bits AND 0x7fffff
      in if exponent = 0xff then
           (if fraction = 0 then sign OR 0x7c00
            else (let payload = ucast (drop_bit 13 fraction) :: u16
                  in sign OR 0x7c00 OR payload OR 0x0200))
         else
           (let unbiased = uint exponent - 127
            in if unbiased > 15 then sign OR 0x7c00
               else if unbiased < -14 then
                 (if unbiased < -24 then sign
                  else
                    (let mantissa = fraction OR 0x00800000;
                         shift = nat (- unbiased - 14);
                         half_fraction = drop_bit (shift + 13) mantissa;
                         remainder_mask = push_bit (shift + 13) 1 - 1;
                         remainder = mantissa AND remainder_mask;
                         halfway = push_bit (shift + 12) 1;
                         half_fraction' =
                           (if remainder > halfway \<or> (remainder = halfway \<and> half_fraction AND 1 \<noteq> 0)
                            then half_fraction + 1 else half_fraction)
                     in ucast (ucast sign OR half_fraction')))
               else
                 (let half_exponent = word_of_int (unbiased + 15) :: u32;
                      half_fraction = drop_bit 13 fraction;
                      remainder = fraction AND 0x1fff
                  in if remainder > 0x1000 \<or> (remainder = 0x1000 \<and> half_fraction AND 1 \<noteq> 0) then
                       (if half_fraction + 1 = 0x400 then
                          (if half_exponent + 1 \<ge> 0x1f then sign OR 0x7c00
                           else ucast (ucast sign OR push_bit 10 (half_exponent + 1) OR 0))
                        else ucast (ucast sign OR push_bit 10 half_exponent OR (half_fraction + 1)))
                     else ucast (ucast sign OR push_bit 10 half_exponent OR half_fraction))))"

definition GolemFp16_plus :: "u16 \<Rightarrow> u16 \<Rightarrow> u16 option" where
  "GolemFp16_plus a b =
     (case (golem_fp16_to_float a, golem_fp16_to_float b) of
        (Some x, Some y) \<Rightarrow> Some (golem_float_to_fp16 (f32_add x y))
      | _ \<Rightarrow> None)"

section \<open>Narrowing as arithmetic on the fields\<close>

lemma and_num_u32:
  "(x::u32) AND 0xff = take_bit 8 x" "(x::u32) AND 0x7fffff = take_bit 23 x"
  "(x::u32) AND 0x1fff = take_bit 13 x" "(x::u32) AND 0x03ff = take_bit 10 x"
  "(x::u32) AND 1 = take_bit 1 x"
  by (simp_all add: take_bit_eq_mask mask_numeral)

lemma and_num_u16:
  "(x::u16) AND 0x03ff = take_bit 10 x" "(x::u16) AND 0x1f = take_bit 5 x"
  by (simp_all add: take_bit_eq_mask mask_numeral)

lemma f32_exp_word: "unat (drop_bit 23 w AND 0xff :: u32) = f32_exp w"
  by (simp only: and_num_u32 unat_take unat_drop f32_exp_def) simp

lemma f32_frac_word: "unat (w AND 0x7fffff :: u32) = f32_frac w"
  by (simp only: and_num_u32 unat_take f32_frac_def)

lemma bit_0x8000: "bit (0x8000 :: u32) n \<longleftrightarrow> n = 15" "bit (0x8000 :: u16) n \<longleftrightarrow> n = 15"
proof -
  have "(0x8000 :: u32) = 2 ^ 15" "(0x8000 :: u16) = 2 ^ 15" by simp_all
  then show "bit (0x8000 :: u32) n \<longleftrightarrow> n = 15" "bit (0x8000 :: u16) n \<longleftrightarrow> n = 15"
    by (auto simp only: bit_exp_iff) auto
qed

lemma f32_sign_bit: "f32_sign w = bit w 31"
proof -
  have "unat w < 2 ^ 32" using unsigned_less [of w] by simp
  then have "unat w div 2 ^ 31 < 2" by simp
  then have "f32_sign w = odd (unat w div 2 ^ 31)" by (auto simp: f32_sign_def less_2_cases_iff)
  also have "odd (unat w div 2 ^ 31) = bit (unat w) 31" by (simp only: bit_iff_odd)
  also have "\<dots> = bit w 31" by (simp only: bit_unsigned_iff) simp
  finally show ?thesis .
qed

lemma f32_sign_word:
  "unat (ucast (drop_bit 16 w AND 0x8000 :: u32) :: u16) = (if f32_sign w then 2 ^ 15 else 0)"
proof -
  have "(drop_bit 16 w AND 0x8000 :: u32) = (if bit w 31 then 0x8000 else 0)"
    by (rule bit_word_eqI) (auto simp: bit_and_iff bit_drop_bit_eq bit_0x8000 simp del: bit_numeral_word_iff)
  then show ?thesis by (simp add: f32_sign_bit)
qed

lemma or_sign_u16:
  assumes "unat (s :: u16) = 0 \<or> unat s = 2 ^ 15" "unat x < 2 ^ 15"
  shows "unat (s OR x) = unat s + unat x"
  using assms or_disjoint_nat [of "unat x" 15 0] or_disjoint_nat [of "unat x" 15 1]
  by (auto simp: unsigned_or_eq)

lemma or_sign_u32:
  assumes "unat (s :: u16) = 0 \<or> unat s = 2 ^ 15" "unat (x :: u32) < 2 ^ 15"
  shows "unat (ucast (ucast s OR x) :: u16) = unat s + unat x"
proof -
  have "unat s < 2 ^ 32" by (rule order.strict_trans2 [OF unsigned_less]) simp
  then have "unat (ucast s OR x :: u32) = unat s OR unat x"
    by (simp add: unsigned_or_eq unsigned_ucast_eq take_bit_nat_eq_self)
  also have "\<dots> = unat s + unat x"
    using assms or_disjoint_nat [of "unat x" 15 0] or_disjoint_nat [of "unat x" 15 1] by auto
  finally show ?thesis using assms by (auto simp: unsigned_ucast_eq take_bit_nat_eq_self_iff)
qed

lemma and_1_odd: "(x::u32) AND 1 \<noteq> 0 \<longleftrightarrow> odd (unat x)"
proof -
  have "x AND 1 \<noteq> 0 \<longleftrightarrow> bit x 0" by (simp add: and_one_eq mod_2_eq_odd bit_0)
  also have "\<dots> = bit (unat x) 0" by (simp only: bit_unsigned_iff) simp
  finally show ?thesis by (simp only: bit_0)
qed

lemma unat_push_1: "k < 32 \<Longrightarrow> unat (push_bit k 1 :: u32) = 2 ^ k"
  by (subst unsigned_push_bit_eq) (simp add: push_bit_eq_mult take_bit_nat_eq_self_iff)

lemma unat_mod_mask:
  assumes "k < 32"
  shows "unat (x AND (push_bit k 1 - 1) :: u32) = unat x mod 2 ^ k"
proof -
  have "push_bit k 1 - 1 = (mask k :: u32)" by (simp add: mask_eq_exp_minus_1 push_bit_eq_mult)
  then have "x AND (push_bit k 1 - 1) = take_bit k x" by (simp add: take_bit_eq_mask)
  then show ?thesis by (simp only: unat_take)
qed

lemma rne_le_Suc: "rne n k \<le> Suc (n div 2 ^ k)"
  by (simp add: rne_def Let_def)

text \<open>The rounding test of the source is the one of \<open>rne\<close>.\<close>

lemma rne_source_test:
  "rne n (Suc k) = (if n mod 2 ^ Suc k > 2 ^ k \<or> (n mod 2 ^ Suc k = 2 ^ k \<and> odd (n div 2 ^ Suc k))
                    then n div 2 ^ Suc k + 1 else n div 2 ^ Suc k)"
  by (auto simp: rne_def Let_def)

lemma unat_add_1: "unat (x :: u32) < 2 ^ 31 \<Longrightarrow> unat (x + 1) = unat x + 1"
  by (simp add: unat_word_ariths)

lemma narrow_subnormal:
  fixes f :: u32 and s :: u16
  assumes f: "unat f < 2 ^ 23" and sh: "1 \<le> sh" "sh \<le> 10" and s: "unat s = 0 \<or> unat s = 2 ^ 15"
  shows "unat (let mantissa = f OR 0x00800000;
                   half_fraction = drop_bit (sh + 13) mantissa;
                   remainder_mask = push_bit (sh + 13) 1 - 1;
                   remainder = mantissa AND remainder_mask;
                   halfway = push_bit (sh + 12) 1;
                   half_fraction' =
                     (if remainder > halfway \<or> (remainder = halfway \<and> half_fraction AND 1 \<noteq> 0)
                      then half_fraction + 1 else half_fraction)
               in ucast (ucast s OR half_fraction') :: u16)
       = unat s + rne (2 ^ 23 + unat f) (sh + 13)"
proof -
  define m where "m = f OR (0x00800000 :: u32)"
  have um: "unat m = 2 ^ 23 + unat f"
    using or_disjoint_nat [OF f, of 1] by (simp add: m_def unsigned_or_eq or.commute)
  define h where "h = drop_bit (sh + 13) m"
  define r where "r = m AND (push_bit (sh + 13) 1 - 1)"
  have sh13: "sh + 13 = Suc (sh + 12)" by simp
  have uh: "unat h = unat m div 2 ^ (sh + 13)" by (simp only: h_def unat_drop)
  have ur: "unat r = unat m mod 2 ^ (sh + 13)" using sh by (simp only: r_def unat_mod_mask)
  have hw: "unat (push_bit (sh + 12) 1 :: u32) = 2 ^ (sh + 12)" using sh by (intro unat_push_1) simp
  have "unat m < 2 ^ 24" using um f by simp
  moreover have "(2::nat) ^ 14 \<le> 2 ^ (sh + 13)" using sh by (intro power_increasing) auto
  ultimately have hlt: "unat h < 2 ^ 10"
    unfolding uh by (subst div_less_iff_less_mult) (simp_all add: order.strict_trans2)
  have cmp: "r > push_bit (sh + 12) 1 \<longleftrightarrow> unat r > 2 ^ (sh + 12)"
    "r = push_bit (sh + 12) 1 \<longleftrightarrow> unat r = 2 ^ (sh + 12)"
    by (simp_all only: word_less_nat_alt hw word_unat_eq_iff)
  let ?h' = "if r > push_bit (sh + 12) 1 \<or> (r = push_bit (sh + 12) 1 \<and> h AND 1 \<noteq> 0) then h + 1 else h"
  have "unat ?h' = rne (unat m) (Suc (sh + 12))"
    unfolding rne_source_test cmp and_1_odd
    using hlt uh ur unfolding sh13 by (simp add: unat_add_1 del: power_Suc)
  moreover have "unat ?h' < 2 ^ 15" using hlt by (auto simp: unat_add_1)
  ultimately show ?thesis
    unfolding Let_def m_def [symmetric] h_def [symmetric] r_def [symmetric]
    using or_sign_u32 [OF s, of ?h'] um unfolding sh13 by simp
qed

lemma narrow_normal:
  fixes f g :: u32 and s :: u16
  assumes f: "unat f < 2 ^ 23" and g: "1 \<le> unat g" "unat g \<le> 30"
    and s: "unat s = 0 \<or> unat s = 2 ^ 15"
  shows "unat (let half_fraction = drop_bit 13 f; remainder = f AND 0x1fff
               in if remainder > 0x1000 \<or> (remainder = 0x1000 \<and> half_fraction AND 1 \<noteq> 0) then
                    (if half_fraction + 1 = 0x400 then
                       (if g + 1 \<ge> 0x1f then s OR 0x7c00
                        else ucast (ucast s OR push_bit 10 (g + 1) OR 0))
                     else ucast (ucast s OR push_bit 10 g OR (half_fraction + 1)))
                  else ucast (ucast s OR push_bit 10 g OR half_fraction) :: u16)
       = unat s + (unat g * 2 ^ 10 + rne (unat f) 13)"
proof -
  define h where "h = drop_bit 13 f"
  define r where "r = f AND (0x1fff :: u32)"
  have uh: "unat h = unat f div 2 ^ 13" by (simp only: h_def unat_drop)
  have ur: "unat r = unat f mod 2 ^ 13" by (simp only: r_def and_num_u32 unat_take)
  have hlt: "unat h < 2 ^ 10" using f by (simp add: uh div_less_iff_less_mult)
  have cmp: "r > 0x1000 \<longleftrightarrow> unat r > 2 ^ 12" "r = 0x1000 \<longleftrightarrow> unat r = 2 ^ 12"
    by (simp_all add: word_less_nat_alt word_unat_eq_iff)
  let ?up = "r > 0x1000 \<or> (r = 0x1000 \<and> h AND 1 \<noteq> 0)"
  have rne: "rne (unat f) 13 = (if ?up then unat h + 1 else unat h)"
    using rne_source_test [of "unat f" 12] unfolding cmp and_1_odd uh ur by simp
  have push: "unat (push_bit 10 g' :: u32) = unat g' * 2 ^ 10" if "unat g' < 2 ^ 6" for g'
    using that by (subst unsigned_push_bit_eq) (simp add: push_bit_eq_mult take_bit_nat_eq_self_iff)
  have g1: "unat (g + 1) = unat g + 1" using g by (simp add: unat_add_1)
  have pack: "unat (ucast (ucast s OR push_bit 10 g' OR x) :: u16) = unat s + (unat g' * 2 ^ 10 + unat x)"
    if "unat g' < 31" "unat x < 2 ^ 10" for g' x :: u32
  proof -
    have "unat (push_bit 10 g' OR x) = unat g' * 2 ^ 10 + unat x"
      using that push [of g'] or_disjoint_nat [OF that(2), of "unat g'"] by (simp add: unsigned_or_eq)
    moreover from this that have "unat (push_bit 10 g' OR x) < 2 ^ 15" by simp
    ultimately show ?thesis using or_sign_u32 [OF s, of "push_bit 10 g' OR x"] by (simp add: or.assoc)
  qed
  show ?thesis
  proof (cases ?up)
    case False
    show ?thesis
      unfolding Let_def h_def [symmetric] r_def [symmetric] rne if_not_P [OF False]
      using pack [of g h] g hlt by simp
  next
    case up: True
    have h1: "unat (h + 1) = unat h + 1" using hlt by (simp add: unat_add_1)
    have full: "h + 1 = 0x400 \<longleftrightarrow> unat h + 1 = 2 ^ 10" by (simp add: word_unat_eq_iff h1)
    show ?thesis
    proof (cases "unat h + 1 = 2 ^ 10")
      case False
      show ?thesis
        unfolding Let_def h_def [symmetric] r_def [symmetric] rne if_P [OF up] full if_not_P [OF False]
        using pack [of g "h + 1"] g hlt h1 False by simp
    next
      case carry: True
      have ge: "g + 1 \<ge> 0x1f \<longleftrightarrow> unat g = 30" using g by (auto simp: word_le_nat_alt g1)
      have "unat (s OR 0x7c00) = unat s + 31 * 2 ^ 10" using or_sign_u16 [OF s, of "0x7c00"] by simp
      with pack [of "g + 1" 0] g g1 carry show ?thesis
        unfolding Let_def h_def [symmetric] r_def [symmetric] rne if_P [OF up] full if_P [OF carry] ge
        by (cases "unat g = 30") auto
    qed
  qed
qed

lemma golem_float_to_fp16_finite:
  assumes "f32_isfinite w"
  shows "unat (golem_float_to_fp16 w) = (if f32_sign w then 2 ^ 15 else 0) +
     (if f32_exp w < 103 then 0
      else if f32_exp w < 113 then rne (2 ^ 23 + f32_frac w) (126 - f32_exp w)
      else if f32_exp w < 143 then (f32_exp w - 112) * 2 ^ 10 + rne (f32_frac w) 13
      else 0x7c00)"
proof -
  define s e f where "s = (ucast (drop_bit 16 w AND 0x8000 :: u32) :: u16)"
    and "e = (drop_bit 23 w AND 0xff :: u32)" and "f = (w AND 0x7fffff :: u32)"
  have us: "unat s = (if f32_sign w then 2 ^ 15 else 0)" by (simp only: s_def f32_sign_word)
  have ue: "unat e = f32_exp w" by (simp only: e_def f32_exp_word)
  have uf: "unat f = f32_frac w" by (simp only: f_def f32_frac_word)
  have uint: "uint e = int (f32_exp w)" unfolding ue [symmetric] by simp
  have e255: "e \<noteq> 0xff" using assms ue by (auto simp: f32_isfinite_def)
  have s': "unat s = 0 \<or> unat s = 2 ^ 15" by (simp add: us)
  have f': "unat f < 2 ^ 23" unfolding uf by (rule f32_frac_less)
  note def = golem_float_to_fp16_def [of w, unfolded s_def [symmetric] e_def [symmetric] f_def [symmetric]]
  consider "f32_exp w < 103" | "103 \<le> f32_exp w" "f32_exp w < 113"
    | "113 \<le> f32_exp w" "f32_exp w < 143" | "143 \<le> f32_exp w" by linarith
  then show ?thesis
  proof cases
    case 1
    with e255 show ?thesis unfolding def Let_def uint by (simp add: us)
  next
    case 2
    define sh where "sh = 113 - f32_exp w"
    have nat: "nat (- (int (f32_exp w) - 127) - 14) = sh" using 2 by (simp add: sh_def)
    have "1 \<le> sh" "sh \<le> 10" "sh + 13 = 126 - f32_exp w" using 2 by (auto simp: sh_def)
    with narrow_subnormal [OF f' _ _ s', of sh] 2 e255 show ?thesis
      unfolding def uint Let_def nat by (simp add: us uf)
  next
    case 3
    define g where "g = (word_of_int (int (f32_exp w) - 127 + 15) :: u32)"
    have "g = word_of_nat (f32_exp w - 112)" using 3 by (simp add: g_def of_nat_diff)
    then have ug: "unat g = f32_exp w - 112" 
      using 3 by (simp add: unsigned_of_nat take_bit_nat_eq_self_iff del: of_nat_diff)
    with narrow_normal [OF f' _ _ s', of g] 3 e255 show ?thesis
      unfolding def uint Let_def g_def [symmetric] by (simp add: us uf)
  next
    case 4
    with e255 or_sign_u16 [OF s', of "0x7c00"] show ?thesis unfolding def Let_def uint by (simp add: us)
  qed
qed

section \<open>The reference: nearest binary16 value, ties to even\<close>

text \<open>
  A binary16 unit \<open>2^-24\<close> is \<open>2^125\<close> binary32 units, so the correctly rounded encoding of a
  finite \<open>float\<close> is \<open>rne_encode\<close> with ten fraction bits.
\<close>

definition fp16_nearest :: "f32 \<Rightarrow> nat" where
  "fp16_nearest w = (if f32_sign w then 2 ^ 15 else 0) + rne_encode 10 0x7c00 125 (f32_mag w)"

lemma floorlog_significand: "F < 2 ^ 23 \<Longrightarrow> floorlog 2 (2 ^ 23 + F) = 24"
  by (intro antisym floorlog_leI floorlog_geI) auto

lemma rne_significand: "rne (2 ^ 23 + F) 13 = 2 ^ 10 + rne F 13"
  using rne_add_even [of "2 ^ 10" 13 F] by simp

lemma fp16_nearest_field:
  assumes "F < 2 ^ 23" "E < 255"
  defines "M \<equiv> (if E = 0 then F else (2 ^ 23 + F) * 2 ^ (E - 1))"
  shows "rne_encode 10 0x7c00 125 M =
     (if E < 102 then 0
      else if E < 113 then rne (2 ^ 23 + F) (126 - E)
      else if E < 143 then (E - 112) * 2 ^ 10 + rne F 13
      else 0x7c00)"
proof (cases "E = 0")
  case True
  have "floorlog 2 F \<le> 23" using assms(1) by (intro floorlog_leI) auto
  moreover have "rne F 125 = 0" using assms(1) by (intro rne_small) simp
  ultimately show ?thesis using True by (simp add: M_def rne_encode_def)
next
  case False
  then have M: "M = (2 ^ 23 + F) * 2 ^ (E - 1)" by (simp add: M_def)
  have fl: "floorlog 2 M = 23 + E"
    unfolding M using floorlog_power [of "2 ^ 23 + F" 2 "E - 1"] floorlog_significand [OF assms(1)] False
    by simp
  show ?thesis
  proof (cases "E < 113")
    case True
    have "125 = (126 - E) + (E - 1)" using True False by simp
    then have eq: "rne M 125 = rne (2 ^ 23 + F) (126 - E)" unfolding M by (metis rne_shift)
    have le: "rne (2 ^ 23 + F) (126 - E) \<le> 0x7c00"
    proof -
      have "(2::nat) ^ 14 \<le> 2 ^ (126 - E)" using True by (intro power_increasing) auto
      then have "(2 ^ 23 + F) div 2 ^ (126 - E) \<le> (2 ^ 23 + F) div 2 ^ 14" by (rule div_le_mono2 [rotated]) simp
      also have "\<dots> < 2 ^ 10" using assms(1) by (simp add: div_less_iff_less_mult)
      finally show ?thesis using rne_le_Suc [of "2 ^ 23 + F" "126 - E"] by simp
    qed
    have "rne (2 ^ 23 + F) (126 - E) = 0" if "E < 102"
    proof -
      have "(2::nat) ^ 25 \<le> 2 ^ (126 - E)" using that by (intro power_increasing) auto
      with assms(1) show ?thesis by (intro rne_small) simp
    qed
    with True eq le fl show ?thesis by (simp add: rne_encode_def)
  next
    case False
    then have "E - 113 + 125 = 13 + (E - 1)" by simp
    then have eq: "rne M (E - 113 + 125) = 2 ^ 10 + rne F 13"
      unfolding M by (simp only: rne_shift rne_significand)
    have "rne F 13 \<le> 2 ^ 10"
      using rne_le_Suc [of F 13] assms(1) by (simp add: div_less_iff_less_mult less_eq_Suc_le flip: Suc_le_eq)
    moreover have "floorlog 2 M - (10 + 1) - 125 = E - 113" using fl by simp
    ultimately show ?thesis
      using False eq by (auto simp: rne_encode_def Let_def algebra_simps diff_mult_distrib)
  qed
qed

section \<open>Widening\<close>

definition fp16_sign :: "u16 \<Rightarrow> bool" where
  "fp16_sign h \<longleftrightarrow> bit h 15"

definition fp16_exp :: "u16 \<Rightarrow> nat" where
  "fp16_exp h = unat h div 2 ^ 10 mod 32"

definition fp16_frac :: "u16 \<Rightarrow> nat" where
  "fp16_frac h = unat h mod 2 ^ 10"

text \<open>Magnitude of a finite binary16 value in units of \<open>2^-24\<close>.\<close>

definition fp16_mag :: "u16 \<Rightarrow> nat" where
  "fp16_mag h = (if fp16_exp h = 0 then fp16_frac h else (2 ^ 10 + fp16_frac h) * 2 ^ (fp16_exp h - 1))"

lemma f32_fields_unique:
  assumes "unat w = (if sg then 2 ^ 31 else 0) + E * 2 ^ 23 + F" "E < 256" "F < 2 ^ 23"
  shows "f32_sign w = sg" and "f32_exp w = E" and "f32_frac w = F"
proof -
  have F: "(X * 2 ^ 23 + F) mod 2 ^ 23 = F" "(X * 2 ^ 23 + F) div 2 ^ 23 = X" for X
    using assms(3) by simp_all
  define b :: nat where "b = (if sg then 1 else 0)"
  have w: "unat w = (b * 256 + E) * 2 ^ 23 + F" using assms(1) by (simp add: b_def)
  show "f32_frac w = F" unfolding f32_frac_def w by (rule F)
  have q: "unat w div 2 ^ 23 = b * 256 + E" unfolding w by (rule F)
  then show "f32_exp w = E" using assms(2) by (simp add: f32_exp_def)
  have "unat w div 2 ^ 31 = unat w div 2 ^ 23 div 256" by (simp flip: div_mult2_eq)
  then have "unat w div 2 ^ 31 = b" using q assms(2) by simp
  then show "f32_sign w = sg" by (simp add: f32_sign_def b_def)
qed

lemma and_0x400: "(x::u32) AND 0x400 = 0 \<longleftrightarrow> even (unat x div 2 ^ 10)"
proof -
  have "(0x400 :: u32) = 2 ^ 10" by simp
  then have "x AND 0x400 = 0 \<longleftrightarrow> \<not> bit x 10" by (simp only: and_exp_eq_0_iff_not_bit)
  also have "bit x 10 = bit (unat x) 10" by (simp only: bit_unsigned_iff) simp
  finally show ?thesis by (simp only: bit_iff_odd) simp
qed

lemma fp16_normalize_returns:
  assumes "j \<le> 10" "2 ^ 10 \<le> unat n * 2 ^ j" "unat n * 2 ^ j < 2 ^ 11"
  shows "\<exists>n'. fp16_normalize n e = Some (n', e - int j) \<and> unat n' = unat n * 2 ^ j"
  using assms
proof (induction j arbitrary: n e)
  case 0
  then have "unat n div 2 ^ 10 = 1" by simp
  then have "n AND 0x400 \<noteq> 0" by (simp only: and_0x400) simp
  then show ?case by (simp add: fp16_normalize.simps [of n])
next
  case (Suc j)
  have "unat n * 1 \<le> unat n * 2 ^ j" by (intro mult_le_mono2) simp
  moreover have "unat n * 2 ^ j < 2 ^ 10" using Suc.prems(3) by simp
  ultimately have lt: "unat n < 2 ^ 10" by linarith
  then have "unat n div 2 ^ 10 = 0" by simp
  then have loop: "n AND 0x400 = 0" by (simp only: and_0x400) simp
  have u: "unat (push_bit 1 n) = unat n * 2"
    using lt by (subst unsigned_push_bit_eq) (simp add: push_bit_eq_mult take_bit_nat_eq_self_iff)
  have "\<exists>n'. fp16_normalize (push_bit 1 n) (e - 1) = Some (n', (e - 1) - int j) \<and>
       unat n' = unat (push_bit 1 n) * 2 ^ j"
    using Suc.prems by (intro Suc.IH) (simp_all only: u, simp_all)
  with loop u show ?case by (simp add: fp16_normalize.simps [of n] algebra_simps)
qed

lemma normalize_shift_exists:
  assumes "0 < m" "m < (2::nat) ^ 10"
  obtains j where "1 \<le> j" "j \<le> 10" "2 ^ 10 \<le> m * 2 ^ j" "m * 2 ^ j < 2 ^ 11"
proof -
  define L where "L = floorlog 2 m"
  have "floorlog 2 m \<noteq> 0" using assms(1) by (simp add: floorlog_eq_zero_iff)
  then have L: "2 ^ (L - 1) \<le> m" "m < 2 ^ L" "0 < L"
    using floorlog_bounds [of m 2] assms(1) by (auto simp: L_def)
  have "L \<le> 10" unfolding L_def using assms(2) by (intro floorlog_leI) auto
  show ?thesis
  proof (rule that [of "11 - L"])
    show "1 \<le> 11 - L" "11 - L \<le> 10" using \<open>L \<le> 10\<close> L(3) by auto
    have "(2::nat) ^ 10 = 2 ^ (L - 1) * 2 ^ (11 - L)" using \<open>L \<le> 10\<close> L(3) by (simp flip: power_add)
    also have "\<dots> \<le> m * 2 ^ (11 - L)" using L(1) by (rule mult_le_mono1)
    finally show "2 ^ 10 \<le> m * 2 ^ (11 - L)" .
    have "m * 2 ^ (11 - L) < 2 ^ L * 2 ^ (11 - L)" using L(2) by simp
    also have "2 ^ L * 2 ^ (11 - L) = (2::nat) ^ 11" using \<open>L \<le> 10\<close> by (simp flip: power_add)
    finally show "m * 2 ^ (11 - L) < 2 ^ 11" .
  qed
qed

lemma fp16_sign_word:
  "unat (push_bit 16 (ucast (h AND 0x8000 :: u16)) :: u32) = (if fp16_sign h then 2 ^ 31 else 0)"
proof -
  have "(h AND 0x8000 :: u16) = (if bit h 15 then 0x8000 else 0)"
    by (rule bit_word_eqI) (auto simp: bit_and_iff bit_0x8000 simp del: bit_numeral_word_iff)
  then show ?thesis by (simp add: fp16_sign_def)
qed

lemma unat_ucast_u32: "unat (ucast (x :: u16) :: u32) = unat x"
proof -
  have "unat x < 2 ^ 32" by (rule order.strict_trans2 [OF unsigned_less]) simp
  then show ?thesis by (simp add: unsigned_ucast_eq take_bit_nat_eq_self)
qed

lemma fp16_exp_word: "unat (ucast (drop_bit 10 h AND 0x1f :: u16) :: u32) = fp16_exp h"
  by (simp only: unat_ucast_u32 and_num_u16 unat_take unat_drop fp16_exp_def) simp

lemma fp16_frac_word: "unat (ucast (h AND 0x03ff :: u16) :: u32) = fp16_frac h"
  by (simp only: unat_ucast_u32 and_num_u16 unat_take fp16_frac_def)

lemma pack_f32:
  fixes s :: u32
  assumes s: "unat s = (if sg then 2 ^ 31 else 0)" and e: "unat e < 256" and f: "unat f < 2 ^ 10"
  shows "unat (s OR push_bit 23 e OR push_bit 13 f) = (if sg then 2 ^ 31 else 0) + unat e * 2 ^ 23 + unat f * 2 ^ 13"
proof -
  have pf: "unat (push_bit 13 f) = unat f * 2 ^ 13"
    using f by (subst unsigned_push_bit_eq) (simp add: push_bit_eq_mult take_bit_nat_eq_self_iff)
  have pe: "unat (push_bit 23 e) = unat e * 2 ^ 23"
    using e by (subst unsigned_push_bit_eq) (simp add: push_bit_eq_mult take_bit_nat_eq_self_iff)
  have "unat f * 2 ^ 13 < 2 ^ 23" using f by simp
  from or_disjoint_nat [OF this, of "unat e"]
  have ef: "unat (push_bit 23 e OR push_bit 13 f) = unat e * 2 ^ 23 + unat f * 2 ^ 13"
    by (simp only: unsigned_or_eq pe pf)
  have "unat e * 2 ^ 23 + unat f * 2 ^ 13 < 2 ^ 31" using e f by simp
  from or_disjoint_nat [OF this, of "if sg then 1 else 0"] ef show ?thesis
    unfolding or.assoc unsigned_or_eq [of s] s by (cases sg) simp_all
qed

text \<open>
  Widening always returns, keeps the sign, and the widened value is exactly the binary16
  value: \<open>2^125\<close> binary32 units per binary16 unit.  Infinities and NaN payloads are carried
  over.
\<close>

lemma golem_fp16_to_float_finite:
  assumes "fp16_exp h \<noteq> 31"
  obtains w where "golem_fp16_to_float h = Some w" "f32_sign w = fp16_sign h" "f32_isfinite w"
    "f32_mag w = fp16_mag h * 2 ^ 125"
    "f32_exp w \<noteq> 0 \<longrightarrow> 103 \<le> f32_exp w" "f32_exp w < 143"
proof -
  define s e f where "s = (push_bit 16 (ucast (h AND 0x8000 :: u16)) :: u32)"
    and "e = (ucast (drop_bit 10 h AND 0x1f :: u16) :: u32)" and "f = (ucast (h AND 0x03ff :: u16) :: u32)"
  have us: "unat s = (if fp16_sign h then 2 ^ 31 else 0)" by (simp only: s_def fp16_sign_word)
  have ue: "unat e = fp16_exp h" by (simp only: e_def fp16_exp_word)
  have uf: "unat f = fp16_frac h" by (simp only: f_def fp16_frac_word)
  have flt: "unat f < 2 ^ 10" unfolding uf fp16_frac_def by simp
  have elt: "unat e < 32" unfolding ue fp16_exp_def by simp
  note def = golem_fp16_to_float_def [of h, unfolded s_def [symmetric] e_def [symmetric] f_def [symmetric]]
  consider (zero) "fp16_exp h = 0" "fp16_frac h = 0" | (sub) "fp16_exp h = 0" "fp16_frac h \<noteq> 0"
    | (normal) "fp16_exp h \<noteq> 0" by blast
  then show ?thesis
  proof cases
    case zero
    then have "e = 0" "f = 0" using ue uf by (simp_all add: unat_eq_0)
    then have "golem_fp16_to_float h = Some s" by (simp add: def)
    moreover have "unat s = (if fp16_sign h then 2 ^ 31 else 0) + 0 * 2 ^ 23 + 0" using us by simp
    note f32_fields_unique [OF this]
    ultimately show ?thesis using zero by (intro that) (auto simp: f32_isfinite_def f32_mag_def fp16_mag_def)
  next
    case normal
    have "e \<noteq> 0" "e \<noteq> 0x1f" using normal assms ue by (auto simp: unat_eq_0)
    then have r: "golem_fp16_to_float h = Some (s OR push_bit 23 (e + 112) OR push_bit 13 f)" (is "_ = Some ?w")
      by (simp add: def)
    have e112: "unat (e + 112) = fp16_exp h + 112" using elt ue by (simp add: unat_word_ariths)
    have "unat ?w = (if fp16_sign h then 2 ^ 31 else 0) + (fp16_exp h + 112) * 2 ^ 23 + fp16_frac h * 2 ^ 13"
      using pack_f32 [OF us, of "e + 112" f] elt flt ue uf e112 by simp
    note fields = f32_fields_unique [OF this]
    have "13 + (fp16_exp h + 111) = (fp16_exp h - 1) + 125" using normal by simp
    then have pw: "(2::nat) ^ 13 * 2 ^ (fp16_exp h + 111) = 2 ^ (fp16_exp h - 1) * 2 ^ 125"
      by (metis power_add)
    have "(2 ^ 23 + fp16_frac h * 2 ^ 13) * 2 ^ (fp16_exp h + 112 - 1)
        = (2 ^ 10 + fp16_frac h) * 2 ^ 13 * 2 ^ (fp16_exp h + 111)" by (simp add: algebra_simps)
    also have "\<dots> = (2 ^ 10 + fp16_frac h) * 2 ^ (fp16_exp h - 1) * 2 ^ 125"
      by (simp only: mult.assoc pw)
    finally have "f32_mag ?w = fp16_mag h * 2 ^ 125"
      using fields elt flt ue uf normal by (simp add: f32_mag_def fp16_mag_def)
    moreover have "fp16_exp h < 31" using elt ue assms by simp
    ultimately show ?thesis using r fields elt flt ue uf
      by (intro that [OF r]) (auto simp: f32_isfinite_def)
  next
    case sub
    then have e0: "e = 0" "f \<noteq> 0" using ue uf by (auto simp: unat_eq_0)
    obtain j where j: "1 \<le> j" "j \<le> 10" "2 ^ 10 \<le> unat f * 2 ^ j" "unat f * 2 ^ j < 2 ^ 11"
      using normalize_shift_exists [of "unat f"] flt sub uf by auto
    obtain n where n: "fp16_normalize f (-14) = Some (n, -14 - int j)" "unat n = unat f * 2 ^ j"
      using fp16_normalize_returns [OF j(2-4)] by blast
    define x where "x = (word_of_int (-14 - int j + 127) :: u32)"
    have "x = word_of_nat (113 - j)" using j by (simp add: x_def of_nat_diff)
    then have ux: "unat x = 113 - j"
      using j by (simp add: unsigned_of_nat take_bit_nat_eq_self_iff del: of_nat_diff)
    have r: "golem_fp16_to_float h = Some (s OR push_bit 23 x OR push_bit 13 (n AND 0x03ff))" (is "_ = Some ?w")
      using e0 n by (simp add: def x_def)
    define g where "g = fp16_frac h * 2 ^ j - 2 ^ 10"
    have "unat (n AND 0x03ff) = unat n mod 2 ^ 10" by (simp only: and_num_u32 unat_take)
    also have "\<dots> = g" using j n uf by (simp add: g_def le_mod_geq)
    finally have ug: "unat (n AND 0x03ff) = g" .
    have glt: "g < 2 ^ 10" using j uf by (simp add: g_def)
    have "unat ?w = (if fp16_sign h then 2 ^ 31 else 0) + (113 - j) * 2 ^ 23 + g * 2 ^ 13"
      using pack_f32 [OF us, of x "n AND 0x03ff"] ug glt ux by simp
    note fields = f32_fields_unique [OF this]
    have fg: "2 ^ 23 + g * 2 ^ 13 = fp16_frac h * 2 ^ j * 2 ^ 13"
      using j uf by (simp add: g_def algebra_simps diff_mult_distrib)
    have "(2 ^ 23 + g * 2 ^ 13) * 2 ^ (113 - j - 1) = fp16_frac h * 2 ^ 125"
      unfolding fg using j by (simp add: mult.assoc flip: power_add)
    then have "f32_mag ?w = fp16_mag h * 2 ^ 125"
      using fields glt j sub by (simp add: f32_mag_def fp16_mag_def)
    then show ?thesis using r fields glt j
      by (intro that [OF r]) (auto simp: f32_isfinite_def)
  qed
qed

lemma fp16_fields: "unat h = (if fp16_sign h then 2 ^ 15 else 0) + (fp16_exp h * 2 ^ 10 + fp16_frac h)"
proof -
  define q where "q = unat h div 2 ^ 10"
  have "unat h = q * 2 ^ 10 + unat h mod 2 ^ 10" unfolding q_def by (simp only: div_mult_mod_eq)
  moreover have "q = q div 32 * 32 + q mod 32" by (simp only: div_mult_mod_eq)
  moreover have q: "q div 32 = unat h div 2 ^ 15" by (simp add: q_def flip: div_mult2_eq)
  moreover have "unat h div 2 ^ 15 = (if fp16_sign h then 1 else 0)"
  proof -
    have "unat h < 2 ^ 16" by (rule order.strict_trans2 [OF unsigned_less]) simp
    then have "unat h div 2 ^ 15 < 2" by simp
    moreover have "bit h 15 = bit (unat h) 15" by (simp only: bit_unsigned_iff) simp
    ultimately show ?thesis by (auto simp: fp16_sign_def bit_iff_odd less_2_cases_iff)
  qed
  ultimately have "unat h = ((if fp16_sign h then 1 else 0) * 32 + q mod 32) * 2 ^ 10 + unat h mod 2 ^ 10"
    by simp
  then show ?thesis by (simp add: fp16_exp_def fp16_frac_def q_def algebra_simps split: if_splits)
qed

lemma fp16_nearest_exact:
  assumes "fp16_exp h \<noteq> 31"
  shows "rne_encode 10 0x7c00 125 (fp16_mag h * 2 ^ 125) = fp16_exp h * 2 ^ 10 + fp16_frac h"
proof -
  have lt: "fp16_exp h < 32" "fp16_frac h < 2 ^ 10" by (simp_all add: fp16_exp_def fp16_frac_def)
  have bound: "fp16_exp h * 2 ^ 10 + fp16_frac h \<le> 0x7c00" using lt assms by auto
  show ?thesis
  proof (cases "fp16_exp h = 0")
    case True
    have "floorlog 2 (fp16_frac h * 2 ^ 125) \<le> 135" using lt by (intro floorlog_leI) auto
    with True bound rne_exact [of "fp16_frac h" 125] show ?thesis
      by (simp add: rne_encode_def fp16_mag_def)
  next
    case False
    have fl: "floorlog 2 (fp16_mag h * 2 ^ 125) = 10 + fp16_exp h + 125"
    proof -
      have "floorlog 2 (2 ^ 10 + fp16_frac h) = 11"
        using lt by (intro antisym floorlog_leI floorlog_geI) auto
      then have "floorlog 2 (fp16_mag h) = 10 + fp16_exp h"
        using floorlog_power [of "2 ^ 10 + fp16_frac h" 2 "fp16_exp h - 1"] False by (simp add: fp16_mag_def)
      moreover have "0 < fp16_mag h" using False by (simp add: fp16_mag_def)
      ultimately show ?thesis using floorlog_power [of "fp16_mag h" 2 125] by simp
    qed
    have "rne (fp16_mag h * 2 ^ 125) (fp16_exp h - 1 + 125) = 2 ^ 10 + fp16_frac h"
      unfolding rne_shift using False rne_exact [of "2 ^ 10 + fp16_frac h" "fp16_exp h - 1"]
      by (simp add: fp16_mag_def)
    moreover have "(fp16_exp h - 1) * 2 ^ 10 + (2 ^ 10 + fp16_frac h) = fp16_exp h * 2 ^ 10 + fp16_frac h"
      using False by (cases "fp16_exp h") simp_all
    moreover have "floorlog 2 (fp16_mag h * 2 ^ 125) - (10 + 1) - 125 = fp16_exp h - 1"
      unfolding fl by simp
    ultimately show ?thesis using bound unfolding rne_encode_def Let_def by simp
  qed
qed

lemma golem_float_to_fp16_nearest:
  assumes "f32_isfinite w" "\<not> (f32_exp w = 102 \<and> f32_frac w \<noteq> 0)"
  shows "unat (golem_float_to_fp16 w) = fp16_nearest w"
proof -
  have e: "f32_exp w < 255" using assms(1) f32_exp_less [of w] by (simp add: f32_isfinite_def)
  have "rne (2 ^ 23) 24 = 0" by (simp add: rne_def)
  with assms e fp16_nearest_field [OF f32_frac_less [of w] e] show ?thesis
    unfolding golem_float_to_fp16_finite [OF assms(1)] fp16_nearest_def f32_mag_def
    by (cases "f32_exp w = 102") (auto simp del: One_nat_def)
qed

lemma golem_fp16_to_float_special:
  assumes "fp16_exp h = 31"
  obtains w where "golem_fp16_to_float h = Some w" "f32_sign w = fp16_sign h" "f32_exp w = 255"
    "f32_frac w = fp16_frac h * 2 ^ 13"
proof -
  define s e f where "s = (push_bit 16 (ucast (h AND 0x8000 :: u16)) :: u32)"
    and "e = (ucast (drop_bit 10 h AND 0x1f :: u16) :: u32)" and "f = (ucast (h AND 0x03ff :: u16) :: u32)"
  have us: "unat s = (if fp16_sign h then 2 ^ 31 else 0)" by (simp only: s_def fp16_sign_word)
  have "unat e = 31" using assms by (simp only: e_def fp16_exp_word)
  then have e: "e = 0x1f" by (simp add: word_unat_eq_iff)
  have uf: "unat f = fp16_frac h" by (simp only: f_def fp16_frac_word)
  have flt: "unat f < 2 ^ 10" unfolding uf fp16_frac_def by simp
  have "golem_fp16_to_float h = Some (s OR push_bit 23 255 OR push_bit 13 f)" (is "_ = Some ?w")
    unfolding golem_fp16_to_float_def [of h, folded s_def e_def f_def] Let_def e by simp
  moreover have "unat ?w = (if fp16_sign h then 2 ^ 31 else 0) + 255 * 2 ^ 23 + fp16_frac h * 2 ^ 13"
    using pack_f32 [OF us, of 255 f] flt uf by simp
  note f32_fields_unique [OF this]
  ultimately show ?thesis using flt uf by (intro that) auto
qed

lemma golem_float_to_fp16_special:
  assumes "f32_sign w = fp16_sign h" "f32_exp w = 255" "f32_frac w = fp16_frac h * 2 ^ 13" "fp16_exp h = 31"
  shows "golem_float_to_fp16 w = (if fp16_frac h = 0 then h else h OR 0x0200)"
proof -
  define s e f where "s = (ucast (drop_bit 16 w AND 0x8000 :: u32) :: u16)"
    and "e = (drop_bit 23 w AND 0xff :: u32)" and "f = (w AND 0x7fffff :: u32)"
  have us: "unat s = (if fp16_sign h then 2 ^ 15 else 0)" by (simp only: s_def f32_sign_word assms(1))
  have "unat e = 255" using assms(2) by (simp only: e_def f32_exp_word)
  then have e: "e = 0xff" by (simp add: word_unat_eq_iff)
  have uf: "unat f = fp16_frac h * 2 ^ 13" using assms(3) by (simp only: f_def f32_frac_word)
  have flt: "fp16_frac h < 2 ^ 10" by (simp add: fp16_frac_def)
  have f0: "f = 0 \<longleftrightarrow> fp16_frac h = 0" using uf by (auto simp: unat_eq_0 [symmetric])
  define p where "p = (ucast (drop_bit 13 f) :: u16)"
  have "unat (drop_bit 13 f) = fp16_frac h" by (simp only: unat_drop uf) simp
  then have up: "unat p = fp16_frac h" using flt
    by (simp add: p_def unsigned_ucast_eq take_bit_nat_eq_self_iff)
  have "unat (0x7c00 OR p) = 31 * 2 ^ 10 + fp16_frac h"
    using or_disjoint_nat [OF flt, of 31] up by (simp add: unsigned_or_eq)
  then have "unat (s OR 0x7c00 OR p) = unat h"
    using or_sign_u16 [of s "0x7c00 OR p"] us flt fp16_fields [of h] assms(4) by (simp add: or.assoc)
  then have h: "s OR 0x7c00 OR p = h" by (simp only: word_unat_eq_iff)
  have "p = 0" if "fp16_frac h = 0" using up that by (simp add: unat_eq_0)
  with h show ?thesis
    unfolding golem_float_to_fp16_def [of w, folded s_def e_def f_def] Let_def e p_def [symmetric] f0
    by (auto simp: or.assoc)
qed

section \<open>Properties\<close>

text \<open>
  (C3) Narrowing is IEEE round-to-nearest-even: for every finite \<open>float\<close> whose magnitude is
  not strictly between \<open>2^-25\<close> and \<open>2^-24\<close> the 16-bit pattern returned is the correctly
  rounded binary16 encoding, overflow to infinity and gradual underflow included.
\<close>

theorem float_to_fp16_correctly_rounded:
  assumes "f32_isfinite w" "\<not> (f32_exp w = 102 \<and> f32_frac w \<noteq> 0)"
  shows "unat (golem_float_to_fp16 w) = fp16_nearest w"
  using assms by (rule golem_float_to_fp16_nearest)

theorem float_to_fp16_correctly_rounded_witness:
  "unat (golem_float_to_fp16 0x477fefff) = fp16_nearest 0x477fefff"
  by (rule float_to_fp16_correctly_rounded) (simp_all add: f32_isfinite_def f32_exp_def f32_frac_def)

text \<open>
  (C29) The excluded interval is a defect of the source: every \<open>float\<close> of magnitude strictly
  between \<open>2^-25\<close> and \<open>2^-24\<close> lies above the midpoint between zero and the smallest
  binary16 subnormal, so its correctly rounded encoding is that subnormal, while the code
  returns a signed zero.
\<close>

theorem float_to_fp16_flushes_above_midpoint:
  assumes "f32_exp w = 102" "f32_frac w \<noteq> 0"
  shows "unat (golem_float_to_fp16 w) + 1 = fp16_nearest w"
proof -
  have fin: "f32_isfinite w" using assms by (simp add: f32_isfinite_def)
  have "rne (2 ^ 23 + f32_frac w) 24 = 1"
    using assms f32_frac_less [of w] by (simp add: rne_def)
  with assms fp16_nearest_field [OF f32_frac_less, of "f32_exp w" w] show ?thesis
    unfolding golem_float_to_fp16_finite [OF fin] fp16_nearest_def f32_mag_def by simp
qed

theorem float_to_fp16_flushes_above_midpoint_witness:
  "f32_exp 0x33000001 = 102 \<and> unat (golem_float_to_fp16 0x33000001) + 1 = fp16_nearest 0x33000001"
proof
  show e: "f32_exp 0x33000001 = 102" by (simp add: f32_exp_def)
  show "unat (golem_float_to_fp16 0x33000001) + 1 = fp16_nearest 0x33000001"
    by (rule float_to_fp16_flushes_above_midpoint) (simp_all add: f32_exp_def f32_frac_def)
qed

text \<open>
  (C4) Widening always returns and is exact, and narrowing inverts it: every binary16
  pattern, subnormals, infinities and signed zeros included, survives the trip through
  \<open>float\<close>, except that a NaN comes back quiet.
\<close>

theorem fp16_float_roundtrip:
  "\<exists>w. golem_fp16_to_float h = Some w \<and> f32_sign w = fp16_sign h \<and>
       (if fp16_exp h \<noteq> 31 then f32_isfinite w \<and> f32_mag w = fp16_mag h * 2 ^ 125
        else f32_exp w = 255 \<and> f32_frac w = fp16_frac h * 2 ^ 13) \<and>
       golem_float_to_fp16 w =
         (if fp16_exp h = 31 \<and> fp16_frac h \<noteq> 0 then h OR 0x0200 else h)"
proof (cases "fp16_exp h = 31")
  case True
  then obtain w where "golem_fp16_to_float h = Some w" "f32_sign w = fp16_sign h" "f32_exp w = 255"
    "f32_frac w = fp16_frac h * 2 ^ 13" by (rule golem_fp16_to_float_special)
  with True golem_float_to_fp16_special [of w h] show ?thesis by auto
next
  case False
  then obtain w where w: "golem_fp16_to_float h = Some w" "f32_sign w = fp16_sign h" "f32_isfinite w"
    "f32_mag w = fp16_mag h * 2 ^ 125" "f32_exp w \<noteq> 0 \<longrightarrow> 103 \<le> f32_exp w" "f32_exp w < 143"
    by (rule golem_fp16_to_float_finite)
  then have "unat (golem_float_to_fp16 w) = fp16_nearest w"
    by (intro golem_float_to_fp16_nearest) auto
  also have "\<dots> = unat h"
    using w(2,4) fp16_nearest_exact [OF False] fp16_fields [of h] by (simp add: fp16_nearest_def)
  finally have "golem_float_to_fp16 w = h" by (simp only: word_unat_eq_iff)
  with w False show ?thesis by auto
qed

end
