(* ===== verification/Cluster_Config.thy ===== *)
theory Cluster_Config
  imports Golem_Prelude
begin

text \<open>
  The small building blocks of \<open>attention/attentionCluster.h\<close> that the other components
  share: the registry of cancelled generations, the traffic classes, the cluster configuration
  with its validation and its FNV fingerprint, the tag every in-flight operation carries, and
  the generation fence.  The locale at the end is the contract of a pool of tagged slots; the
  score FIFO, the O accumulator and the cluster contexts implement it.
\<close>

unbundle bit_operations_syntax

section \<open>AttentionClusterTag\<close>

record AttentionClusterTag =
  tag_generation :: u64
  tag_jobId :: u64
  tag_group :: u32
  tag_queryContext :: u32
  tag_queryTileIndex :: u32
  tag_kvTileIndex :: u32
  tag_sequence :: u32

definition tag_init :: AttentionClusterTag where
  "tag_init = \<lparr>tag_generation = 0, tag_jobId = 0, tag_group = 0, tag_queryContext = 0,
     tag_queryTileIndex = 0, tag_kvTileIndex = 0, tag_sequence = 0\<rparr>"

definition tag_eq :: "AttentionClusterTag \<Rightarrow> AttentionClusterTag \<Rightarrow> bool" where
  "tag_eq a b \<longleftrightarrow>
     tag_generation a = tag_generation b \<and> tag_jobId a = tag_jobId b \<and>
     tag_group a = tag_group b \<and> tag_queryContext a = tag_queryContext b \<and>
     tag_queryTileIndex a = tag_queryTileIndex b \<and> tag_kvTileIndex a = tag_kvTileIndex b \<and>
     tag_sequence a = tag_sequence b"

lemma tag_eq_iff [simp]: "tag_eq a b \<longleftrightarrow> a = b"
  by (cases a; cases b) (auto simp: tag_eq_def)

text \<open>A concrete tag for the examples.\<close>

definition tag_example :: AttentionClusterTag where
  "tag_example = tag_init\<lparr>tag_generation := 7, tag_jobId := 3\<rparr>"

section \<open>AttentionGenerationCancelRegistry\<close>

type_synonym cancel_registry = "u64 \<rightharpoonup> nat"

definition acr_token :: "u64 \<Rightarrow> u64 \<Rightarrow> u64" where
  "acr_token owner generation = push_bit 32 owner XOR generation"

definition acr_cancel :: "u64 \<Rightarrow> u64 \<Rightarrow> nat \<Rightarrow> cancel_registry \<Rightarrow> cancel_registry" where
  "acr_cancel owner generation pendingWrites r =
     (if pendingWrites \<noteq> 0 then
        (let t = acr_token owner generation
         in r(t \<mapsto> (case r t of None \<Rightarrow> 0 | Some n \<Rightarrow> n) + pendingWrites))
      else r)"

definition acr_consume :: "u64 \<Rightarrow> cancel_registry \<Rightarrow> bool \<times> cancel_registry" where
  "acr_consume t r =
     (case r t of
        None \<Rightarrow> (False, r)
      | Some n \<Rightarrow>
          if t = 0 then (False, r)
          else if n \<le> 1 then (True, r(t := None))
          else (True, r(t \<mapsto> n - 1)))"

definition acr_cancelledToken :: "u64 \<Rightarrow> cancel_registry \<Rightarrow> bool \<times> cancel_registry" where
  "acr_cancelledToken t r = acr_consume t r"

definition acr_discardToken :: "u64 \<Rightarrow> cancel_registry \<Rightarrow> bool \<times> cancel_registry" where
  "acr_discardToken t r = acr_consume t r"

text \<open>
  What a client sees: cancellations deposit pending writes under a token, and each write-back
  that arrives asks whether to drop itself.
\<close>

datatype acr_op = AcrCancel u64 u64 nat | AcrCancelled u64 | AcrDiscard u64

fun acr_step :: "acr_op \<Rightarrow> cancel_registry \<Rightarrow> bool \<times> cancel_registry" where
  "acr_step (AcrCancel ow g n) r = (False, acr_cancel ow g n r)"
| "acr_step (AcrCancelled t) r = acr_cancelledToken t r"
| "acr_step (AcrDiscard t) r = acr_discardToken t r"

fun acr_run :: "acr_op list \<Rightarrow> cancel_registry \<Rightarrow> bool list \<times> cancel_registry" where
  "acr_run [] r = ([], r)"
| "acr_run (x # xs) r =
     (case acr_step x r of (b, r') \<Rightarrow> case acr_run xs r' of (bs, r'') \<Rightarrow> (b # bs, r''))"

definition acr_left :: "cancel_registry \<Rightarrow> u64 \<Rightarrow> nat" where
  "acr_left r t = (case r t of None \<Rightarrow> 0 | Some n \<Rightarrow> n)"

fun acr_deposits :: "acr_op list \<Rightarrow> u64 \<Rightarrow> nat" where
  "acr_deposits [] t = 0"
| "acr_deposits (AcrCancel ow g n # xs) t =
     (if acr_token ow g = t then n else 0) + acr_deposits xs t"
| "acr_deposits (_ # xs) t = acr_deposits xs t"

fun acr_asks :: "u64 \<Rightarrow> acr_op \<Rightarrow> bool" where
  "acr_asks t (AcrCancel ow g n) = False"
| "acr_asks t (AcrCancelled t') = (t' = t)"
| "acr_asks t (AcrDiscard t') = (t' = t)"

definition acr_drops :: "acr_op list \<Rightarrow> bool list \<Rightarrow> u64 \<Rightarrow> nat" where
  "acr_drops xs bs t = length (filter (\<lambda>(x, b). acr_asks t x \<and> b) (zip xs bs))"

definition acr_pos :: "cancel_registry \<Rightarrow> bool" where
  "acr_pos r \<longleftrightarrow> (\<forall>t n. r t = Some n \<longrightarrow> 0 < n)"

lemma acr_consume_left:
  assumes "acr_pos r" "acr_consume t r = (b, r')"
  shows "b = (t \<noteq> 0 \<and> 0 < acr_left r t)" "acr_pos r'"
    "acr_left r' u + (if b \<and> u = t then 1 else 0) = acr_left r u"
proof (atomize (full), cases "r t")
  case (Some n)
  then have "0 < n" using assms(1) by (simp add: acr_pos_def)
  with Some assms show "b = (t \<noteq> 0 \<and> 0 < acr_left r t) \<and> acr_pos r' \<and>
      acr_left r' u + (if b \<and> u = t then 1 else 0) = acr_left r u"
    by (cases n) (auto simp: acr_consume_def acr_left_def acr_pos_def split: if_splits)
qed (use assms in \<open>auto simp: acr_consume_def acr_left_def\<close>)

lemma acr_cancel_left:
  assumes "acr_pos r"
  shows "acr_pos (acr_cancel ow g n r)"
    "acr_left (acr_cancel ow g n r) u = acr_left r u + (if acr_token ow g = u then n else 0)"
  using assms by (auto simp: acr_cancel_def acr_left_def acr_pos_def Let_def split: option.splits)

lemma acr_step_left:
  assumes "acr_pos r" "acr_step x r = (b, r')"
  shows "acr_pos r' \<and> acr_left r' t + (if acr_asks t x \<and> b then 1 else 0)
           = acr_left r t + acr_deposits [x] t"
proof (cases x)
  case (AcrCancel ow g n)
  with assms acr_cancel_left [OF assms(1), of ow g n] show ?thesis by auto
next
  case (AcrCancelled u)
  with assms(2) acr_consume_left(1,2) [OF assms(1), of u b r'] acr_consume_left(3) [OF assms(1), of u b r' t] show ?thesis
    by (auto simp: acr_cancelledToken_def split: if_splits)
next
  case (AcrDiscard u)
  with assms(2) acr_consume_left(1,2) [OF assms(1), of u b r'] acr_consume_left(3) [OF assms(1), of u b r' t] show ?thesis
    by (auto simp: acr_discardToken_def split: if_splits)
qed

lemma acr_deposits_Cons: "acr_deposits (x # xs) t = acr_deposits [x] t + acr_deposits xs t"
  by (cases x) auto

lemma acr_run_left:
  "acr_pos r \<Longrightarrow> acr_run xs r = (bs, r') \<Longrightarrow>
     acr_pos r' \<and> acr_left r' t + acr_drops xs bs t = acr_left r t + acr_deposits xs t"
proof (induction xs arbitrary: r bs)
  case Nil
  then show ?case by (simp add: acr_drops_def)
next
  case (Cons x xs)
  from Cons.prems(2) obtain b r1 cs where step: "acr_step x r = (b, r1)"
    and run: "acr_run xs r1 = (cs, r')" and bs: "bs = b # cs"
    by (auto split: prod.splits)
  from acr_step_left [OF Cons.prems(1) step, of t] Cons.IH [OF _ run] bs show ?case
    by (auto simp: acr_deposits_Cons [of x xs] acr_drops_def)
qed

text \<open>Tokens of distinct (owner, generation) pairs differ while both stay below \<open>2^32\<close>.\<close>

lemma acr_token_inj:
  assumes "acr_token ow g = acr_token ow' g'"
    and "take_bit 32 ow = ow" "take_bit 32 ow' = ow'" "take_bit 32 g = g" "take_bit 32 g' = g'"
  shows "ow = ow' \<and> g = g'"
proof -
  have tok: "take_bit 32 (acr_token a b) = take_bit 32 b" "drop_bit 32 (acr_token a b) = take_bit 32 a XOR drop_bit 32 b"
    for a b
    by (rule bit_word_eqI; auto simp: acr_token_def bit_simps)+
  have hi: "drop_bit 32 b = 0" if "take_bit 32 b = b" for b :: u64
    by (metis drop_bit_take_bit diff_self_eq_0 take_bit_0 that)
  have "g = g'" using assms(1,4,5) tok(1) by metis
  moreover have "ow = ow'"
    using assms(1-3) hi [OF assms(4)] hi [OF assms(5)] tok(2) [of ow g] tok(2) [of ow' g'] by simp
  ultimately show ?thesis by simp
qed

section \<open>AttentionClusterTrafficClass\<close>

datatype AttentionClusterTrafficClass =
  Legacy | QkKMatrix | QkQPair | QkScoreOut | SequentialQkScoreOut | SequentialQkInputScatter
  | PvVMatrix | PvPInput | SequentialPvInput | SequentialPvInputScatter | SequentialPvORestore
  | SequentialPvOOutput | PvOFinalDrain | ScoreSfuRead | SfuPWrite | OScale | OAccumulate
  | TrafficCount

fun attentionClusterTrafficClassName :: "AttentionClusterTrafficClass \<Rightarrow> string" where
  "attentionClusterTrafficClassName Legacy = ''legacy''"
| "attentionClusterTrafficClassName QkKMatrix = ''qk_k_matrix''"
| "attentionClusterTrafficClassName QkQPair = ''qk_q_pair''"
| "attentionClusterTrafficClassName QkScoreOut = ''qk_score_out''"
| "attentionClusterTrafficClassName SequentialQkScoreOut = ''sequential_qk_score_out''"
| "attentionClusterTrafficClassName SequentialQkInputScatter = ''sequential_qk_input_scatter''"
| "attentionClusterTrafficClassName PvVMatrix = ''pv_v_matrix''"
| "attentionClusterTrafficClassName PvPInput = ''pv_p_input''"
| "attentionClusterTrafficClassName SequentialPvInput = ''sequential_pv_input''"
| "attentionClusterTrafficClassName SequentialPvInputScatter = ''sequential_pv_input_scatter''"
| "attentionClusterTrafficClassName SequentialPvORestore = ''sequential_pv_o_restore''"
| "attentionClusterTrafficClassName SequentialPvOOutput = ''sequential_pv_o_output''"
| "attentionClusterTrafficClassName PvOFinalDrain = ''pv_o_final_drain''"
| "attentionClusterTrafficClassName ScoreSfuRead = ''score_sfu_read''"
| "attentionClusterTrafficClassName SfuPWrite = ''sfu_p_write''"
| "attentionClusterTrafficClassName OScale = ''o_scale''"
| "attentionClusterTrafficClassName OAccumulate = ''o_accumulate''"
| "attentionClusterTrafficClassName TrafficCount = ''invalid''"

section \<open>AttentionClusterConfig\<close>

record AttentionClusterConfig =
  cfg_arrays :: u32
  cfg_qkArrays :: u32
  cfg_pvArrays :: u32
  cfg_arrayInputs :: u32
  cfg_arrayOutputs :: u32
  cfg_operandBanks :: u32
  cfg_scoreSlots :: u32
  cfg_pSlots :: u32
  cfg_oContexts :: u32
  cfg_headDim :: u32
  cfg_queryTileRows :: u32
  cfg_kvTileRows :: u32
  cfg_groupSize :: u32
  cfg_elemBytes :: u32
  cfg_oFmaLanes :: u32
  cfg_oFmaLatencyCycles :: u32
  cfg_oFp32Fused :: bool
  cfg_causal :: bool

definition cfg_default :: AttentionClusterConfig where
  "cfg_default = \<lparr>cfg_arrays = 64, cfg_qkArrays = 16, cfg_pvArrays = 48, cfg_arrayInputs = 64,
     cfg_arrayOutputs = 64, cfg_operandBanks = 2, cfg_scoreSlots = 4, cfg_pSlots = 4,
     cfg_oContexts = 4, cfg_headDim = 128, cfg_queryTileRows = 16, cfg_kvTileRows = 64,
     cfg_groupSize = 4, cfg_elemBytes = 4, cfg_oFmaLanes = 16, cfg_oFmaLatencyCycles = 2,
     cfg_oFp32Fused = True, cfg_causal = False\<rparr>"

text \<open>The error message, empty when the configuration is accepted.\<close>

definition cfg_validate :: "AttentionClusterConfig \<Rightarrow> string" where
  "cfg_validate c =
     (if cfg_arrays c \<noteq> 64 \<or> cfg_qkArrays c + cfg_pvArrays c \<noteq> cfg_arrays c \<or>
         (cfg_qkArrays c \<noteq> 16 \<and> cfg_qkArrays c \<noteq> 24 \<and> cfg_qkArrays c \<noteq> 32 \<and> cfg_qkArrays c \<noteq> 40)
      then ''cluster requires 64 arrays with QK ownership 16, 24, 32, or 40''
      else if cfg_qkArrays c mod 2 \<noteq> 0 \<or> cfg_pvArrays c mod 2 \<noteq> 0
      then ''cluster D128 ownership must contain complete D64 array pairs''
      else if cfg_arrayInputs c \<noteq> 64 \<or> cfg_arrayOutputs c \<noteq> 64
      then ''cluster requires 64x64 arrays''
      else if cfg_operandBanks c \<noteq> 2 then ''cluster requires two operand banks''
      else if cfg_scoreSlots c \<noteq> 4 \<or> cfg_pSlots c \<noteq> 4 \<or> cfg_oContexts c \<noteq> 4
      then ''cluster requires four score/P/O contexts''
      else if cfg_headDim c \<noteq> 128 \<or> cfg_queryTileRows c \<noteq> 16 \<or>
              (cfg_kvTileRows c \<noteq> 32 \<and> cfg_kvTileRows c \<noteq> 64)
      then ''cluster requires D128 Br16 and Bc32 or Bc64''
      else if cfg_groupSize c \<noteq> 4 then ''cluster requires query group size four''
      else if cfg_elemBytes c \<noteq> 4 then ''cluster requires FP32 operands''
      else if cfg_oFmaLanes c \<noteq> 16 \<or> cfg_oFmaLatencyCycles c \<noteq> 2 \<or> \<not> cfg_oFp32Fused c
      then ''cluster requires a 16-lane two-cycle fused FP32 O engine''
      else if cfg_causal c then ''cluster phase L2-L4 supports non-causal attention only''
      else [])"

definition cfg_values :: "AttentionClusterConfig \<Rightarrow> u64 list" where
  "cfg_values c =
     [ucast (cfg_arrays c), ucast (cfg_qkArrays c), ucast (cfg_pvArrays c),
      ucast (cfg_arrayInputs c), ucast (cfg_arrayOutputs c), ucast (cfg_operandBanks c),
      ucast (cfg_scoreSlots c), ucast (cfg_pSlots c), ucast (cfg_oContexts c),
      ucast (cfg_headDim c), ucast (cfg_queryTileRows c), ucast (cfg_kvTileRows c),
      ucast (cfg_groupSize c), ucast (cfg_elemBytes c), ucast (cfg_oFmaLanes c),
      ucast (cfg_oFmaLatencyCycles c), (if cfg_oFp32Fused c then 1 else 0),
      (if cfg_causal c then 1 else 0)]"

definition fnv_byte :: "u64 \<Rightarrow> nat \<Rightarrow> u64 \<Rightarrow> u64" where
  "fnv_byte value byte hash = (hash XOR (drop_bit (byte * 8) value AND 0xff)) * 1099511628211"

definition cfg_fingerprint :: "AttentionClusterConfig \<Rightarrow> u64" where
  "cfg_fingerprint c =
     fold (\<lambda>value hash. fold (fnv_byte value) [0..<8] hash) (cfg_values c) 1469598103934665603"

definition cfg_variant :: "u32 \<Rightarrow> u32 \<Rightarrow> AttentionClusterConfig" where
  "cfg_variant qk kv = cfg_default\<lparr>cfg_qkArrays := qk, cfg_pvArrays := 64 - qk, cfg_kvTileRows := kv\<rparr>"

definition cfg_accepted :: "AttentionClusterConfig list" where
  "cfg_accepted = [cfg_variant qk kv. qk \<leftarrow> [16, 24, 32, 40], kv \<leftarrow> [32, 64]]"

lemma cfg_validate_variant: "qk \<in> {16, 24, 32, 40} \<Longrightarrow> kv \<in> {32, 64} \<Longrightarrow> cfg_validate (cfg_variant qk kv) = []"
  by (auto simp: cfg_validate_def cfg_variant_def cfg_default_def)

lemma cfg_validate_empty:
  assumes "cfg_validate c = []"
  shows "\<exists>qk \<in> {16, 24, 32, 40}. \<exists>kv \<in> {32, 64}. c = cfg_variant qk kv"
proof -
  from assms have sum: "cfg_qkArrays c + cfg_pvArrays c = 64"
    and qk: "cfg_qkArrays c \<in> {16, 24, 32, 40}" and kv: "cfg_kvTileRows c \<in> {32, 64}"
    by (auto simp: cfg_validate_def split: if_splits)
  from sum have "cfg_pvArrays c = 64 - cfg_qkArrays c" by (simp add: eq_diff_eq add.commute)
  with assms have "c = cfg_variant (cfg_qkArrays c) (cfg_kvTileRows c)"
    by (cases c) (auto simp: cfg_validate_def cfg_variant_def cfg_default_def split: if_splits)
  with qk kv show ?thesis by blast
qed

section \<open>AttentionGenerationFence\<close>

definition fence_matches :: "u64 \<Rightarrow> u64 \<Rightarrow> bool" where
  "fence_matches generation active \<longleftrightarrow> generation \<noteq> 0 \<and> generation = active"

definition fence_begin :: "u64 \<Rightarrow> u64 \<Rightarrow> bool \<times> u64" where
  "fence_begin generation active =
     (if generation = 0 \<or> active \<noteq> 0 then (False, active) else (True, generation))"

definition fence_retire :: "u64 \<Rightarrow> u64 \<Rightarrow> bool \<times> u64" where
  "fence_retire generation active =
     (if \<not> fence_matches generation active then (False, active) else (True, 0))"

definition fence_cancel :: "u64 \<Rightarrow> u64 \<Rightarrow> bool \<times> u64" where
  "fence_cancel generation active = fence_retire generation active"

datatype fence_op = FBegin u64 | FRetire u64 | FCancel u64

fun fence_step :: "fence_op \<Rightarrow> u64 \<Rightarrow> bool \<times> u64" where
  "fence_step (FBegin g) a = fence_begin g a"
| "fence_step (FRetire g) a = fence_retire g a"
| "fence_step (FCancel g) a = fence_cancel g a"

text \<open>The accepted calls of a run, starting from \<open>activeGeneration_ = a\<close>.\<close>

fun fence_run :: "fence_op list \<Rightarrow> u64 \<Rightarrow> fence_op list \<times> u64" where
  "fence_run [] a = ([], a)"
| "fence_run (x # xs) a =
     (case fence_step x a of (ok, a') \<Rightarrow>
        (case fence_run xs a' of (acc, z) \<Rightarrow> (if ok then x # acc else acc, z)))"

text \<open>The protocol: a generation is opened, then closed by itself, before the next one opens.\<close>

fun fence_protocol :: "u64 \<Rightarrow> fence_op list \<Rightarrow> u64 \<Rightarrow> bool" where
  "fence_protocol a [] z = (a = z)"
| "fence_protocol a (FBegin g # xs) z = (a = 0 \<and> g \<noteq> 0 \<and> fence_protocol g xs z)"
| "fence_protocol a (FRetire g # xs) z = (g \<noteq> 0 \<and> g = a \<and> fence_protocol 0 xs z)"
| "fence_protocol a (FCancel g # xs) z = (g \<noteq> 0 \<and> g = a \<and> fence_protocol 0 xs z)"

lemmas fence_defs = fence_begin_def fence_retire_def fence_cancel_def fence_matches_def

lemma fence_run_protocol: "fence_run xs a = (acc, z) \<Longrightarrow> fence_protocol a acc z"
proof (induction xs arbitrary: a acc)
  case (Cons x xs)
  then show ?case
    by (cases x) (auto simp: fence_defs split: prod.splits if_splits)
qed simp

section \<open>The contract of a pool of tagged slots\<close>

text \<open>
  The abstract state of a pool is the partial function from slots to the tag that owns them.
  An operation either leases a free slot to a tag, or ends leases, or leaves ownership alone; a
  rejected call leaves it alone as well.
\<close>

datatype pool_event = Lease nat AttentionClusterTag | Vacate nat AttentionClusterTag
  | Purge u64 | Keep

fun pool_apply :: "pool_event \<Rightarrow> (nat \<rightharpoonup> AttentionClusterTag) \<Rightarrow> (nat \<rightharpoonup> AttentionClusterTag)" where
  "pool_apply (Lease i t) m = m(i \<mapsto> t)"
| "pool_apply (Vacate i t) m = m(i := None)"
| "pool_apply (Purge g) m = (\<lambda>i. case m i of None \<Rightarrow> None
     | Some t \<Rightarrow> if tag_generation t = g then None else Some t)"
| "pool_apply Keep m = m"

fun pool_legal :: "pool_event \<Rightarrow> (nat \<rightharpoonup> AttentionClusterTag) \<Rightarrow> bool" where
  "pool_legal (Lease i t) m = (m i = None)"
| "pool_legal (Vacate i t) m = (m i = Some t)"
| "pool_legal _ m = True"

text \<open>The owner of a slot according to the history alone, most recent event first.\<close>

fun pool_owner :: "pool_event list \<Rightarrow> nat \<Rightarrow> AttentionClusterTag option" where
  "pool_owner [] i = None"
| "pool_owner (Lease j t # es) i = (if i = j then Some t else pool_owner es i)"
| "pool_owner (Vacate j t # es) i = (if i = j then None else pool_owner es i)"
| "pool_owner (Purge g # es) i =
     (case pool_owner es i of None \<Rightarrow> None
      | Some t \<Rightarrow> if tag_generation t = g then None else Some t)"
| "pool_owner (Keep # es) i = pool_owner es i"

lemma pool_owner_apply: "pool_owner (e # es) = pool_apply e (pool_owner es)"
  by (cases e) (auto split: option.splits)

locale tagged_pool =
  fixes owner :: "'s \<Rightarrow> nat \<Rightarrow> AttentionClusterTag option"
    and inv :: "'s \<Rightarrow> bool"
    and init :: 's
    and step :: "'op \<Rightarrow> 's \<Rightarrow> 's"
    and event :: "'op \<Rightarrow> 's \<Rightarrow> pool_event"
  assumes init_inv: "inv init"
    and init_free: "owner init i = None"
    and step_inv: "inv s \<Longrightarrow> inv (step x s)"
    and step_legal: "inv s \<Longrightarrow> pool_legal (event x s) (owner s)"
    and step_owner: "inv s \<Longrightarrow> owner (step x s) = pool_apply (event x s) (owner s)"
begin

fun run :: "'op list \<Rightarrow> 's \<Rightarrow> 's" where
  "run [] s = s"
| "run (x # xs) s = run xs (step x s)"

fun events :: "'op list \<Rightarrow> 's \<Rightarrow> pool_event list \<Rightarrow> pool_event list" where
  "events [] s es = es"
| "events (x # xs) s es = events xs (step x s) (event x s # es)"

lemma run_inv: "inv s \<Longrightarrow> inv (run xs s)"
  by (induction xs arbitrary: s) (auto intro: step_inv)

lemma run_owner:
  "inv s \<Longrightarrow> owner s = pool_owner es \<Longrightarrow> owner (run xs s) = pool_owner (events xs s es)"
proof (induction xs arbitrary: s es)
  case (Cons x xs)
  then show ?case
    by (simp add: step_inv step_owner pool_owner_apply)
qed simp

text \<open>Ownership is a function of the history of accepted calls.\<close>

lemma owner_history: "owner (run xs init) = pool_owner (events xs init [])"
  by (rule run_owner) (auto simp: init_inv init_free)

text \<open>A cancelled generation owns nothing until it leases again.\<close>

lemma purge_clears:
  "inv s \<Longrightarrow> event x s = Purge g \<Longrightarrow> owner (step x s) i = Some t \<Longrightarrow> tag_generation t \<noteq> g"
  by (auto simp: step_owner split: option.splits if_splits)

text \<open>A lease lasts until its own tag vacates the slot or its generation is purged.\<close>

lemma lease_kept:
  assumes "inv s" "owner s i = Some t" "event x s \<noteq> Vacate i t" "event x s \<noteq> Purge (tag_generation t)"
  shows "owner (step x s) i = Some t"
  using assms step_legal [OF assms(1), of x] step_owner [OF assms(1), of x]
  by (cases "event x s") auto

end

section \<open>Properties\<close>

text \<open>
  The cancel registry loses and invents nothing: over any sequence of calls, the number
  of write-backs told to drop themselves under a token plus the number still pending equals the
  number deposited by cancellations under that token.
\<close>

theorem cancel_registry_conserves:
  "case acr_run xs Map.empty of (bs, r) \<Rightarrow> acr_left r t + acr_drops xs bs t = acr_deposits xs t"
  using acr_run_left [of Map.empty xs _ _ t]
  by (simp add: acr_pos_def acr_left_def split: prod.splits)

text \<open>
  (C30) The configurations the cluster accepts are exactly the eight that split the 64 arrays
  into 16, 24, 32 or 40 QK arrays with the rest PV and use key/value tiles of 32 or 64 rows;
  every other field must have its default.
\<close>

theorem config_validate_exact: "cfg_validate c = [] \<longleftrightarrow> c \<in> set cfg_accepted"
proof
  assume "cfg_validate c = []"
  from cfg_validate_empty [OF this] show "c \<in> set cfg_accepted" by (auto simp: cfg_accepted_def)
next
  assume "c \<in> set cfg_accepted"
  then show "cfg_validate c = []" by (auto simp: cfg_accepted_def intro!: cfg_validate_variant)
qed

text \<open>
  The generation fence admits one generation at a time: the accepted calls of any run
  alternate between opening a non-zero generation and closing that same generation, and the
  final active generation is the one still open.
\<close>

theorem generation_fence_alternates:
  "case fence_run xs 0 of (acc, z) \<Rightarrow> fence_protocol 0 acc z"
  using fence_run_protocol by (auto split: prod.splits)

end
