(* ===== verification/Score_Fifo.thy ===== *)
theory Score_Fifo
  imports Cluster_Config
begin

text \<open>
  \<open>AttentionScoreFifo\<close> of \<open>attention/attentionCluster.h\<close>: sixteen slots that buffer the score
  tile of a query context, each leased to a tag and filled element by element.  The
  specification views a slot as a list of cells that are empty, booked by a reserved write, or
  full; every call refines the corresponding step on cells.
\<close>

section \<open>State\<close>

definition kSlots :: nat where "kSlots = 16"

definition kElementsPerSlot :: nat where "kElementsPerSlot = 16 * 64"

text \<open>The \<open>uint8_t\<close> flags of the source only ever hold 0 and 1; they are booleans here.\<close>

record ScoreSlot =
  ss_valid :: bool
  ss_tag :: AttentionClusterTag
  ss_elements :: "f32 list"
  ss_elementValid :: "bool list"
  ss_elementReserved :: "bool list"
  ss_validElements :: nat

definition ss_init :: ScoreSlot where
  "ss_init = \<lparr>ss_valid = False, ss_tag = tag_init, ss_elements = [], ss_elementValid = [],
     ss_elementReserved = [], ss_validElements = 0\<rparr>"

type_synonym score_fifo = "ScoreSlot list"

definition sf_init :: score_fifo where
  "sf_init = replicate kSlots ss_init"

section \<open>Operations\<close>

definition sf_matches :: "score_fifo \<Rightarrow> nat \<Rightarrow> AttentionClusterTag \<Rightarrow> bool" where
  "sf_matches f slot tag \<longleftrightarrow> slot < kSlots \<and> ss_valid (f ! slot) \<and> tag_eq (ss_tag (f ! slot)) tag"

definition ss_rangeInBounds :: "ScoreSlot \<Rightarrow> nat \<Rightarrow> nat \<Rightarrow> bool" where
  "ss_rangeInBounds s offset count \<longleftrightarrow>
     count \<noteq> 0 \<and> offset \<le> length (ss_elements s) \<and> count \<le> length (ss_elements s) - offset"

definition sf_rangeAvailable ::
  "score_fifo \<Rightarrow> nat \<Rightarrow> AttentionClusterTag \<Rightarrow> nat \<Rightarrow> nat \<Rightarrow> bool" where
  "sf_rangeAvailable f slot tag offset count \<longleftrightarrow>
     sf_matches f slot tag \<and> ss_rangeInBounds (f ! slot) offset count \<and>
     True \<notin> set (get_range offset count (ss_elementValid (f ! slot))) \<and>
     True \<notin> set (get_range offset count (ss_elementReserved (f ! slot)))"

definition sf_reserve ::
  "nat \<Rightarrow> AttentionClusterTag \<Rightarrow> nat \<Rightarrow> score_fifo \<Rightarrow> bool \<times> score_fifo" where
  "sf_reserve slot tag elements f =
     (if slot \<ge> kSlots \<or> elements = 0 \<or> elements > kElementsPerSlot \<or> ss_valid (f ! slot)
      then (False, f)
      else (True, f[slot := \<lparr>ss_valid = True, ss_tag = tag, ss_elements = replicate elements 0,
                             ss_elementValid = replicate elements False,
                             ss_elementReserved = replicate elements False,
                             ss_validElements = 0\<rparr>]))"

fun ss_writeLoop :: "nat \<Rightarrow> f32 list \<Rightarrow> ScoreSlot \<Rightarrow> ScoreSlot" where
  "ss_writeLoop i [] s = s"
| "ss_writeLoop i (v # vs) s =
     ss_writeLoop (Suc i) vs
       (s\<lparr>ss_elementValid := (ss_elementValid s)[i := True],
          ss_validElements := ss_validElements s + 1,
          ss_elements := (ss_elements s)[i := v]\<rparr>)"

definition sf_write ::
  "nat \<Rightarrow> AttentionClusterTag \<Rightarrow> nat \<Rightarrow> f32 list \<Rightarrow> score_fifo \<Rightarrow> bool \<times> score_fifo" where
  "sf_write slot tag offset values f =
     (if \<not> sf_rangeAvailable f slot tag offset (length values) then (False, f)
      else (True, f[slot := ss_writeLoop offset values (f ! slot)]))"

definition sf_reserveWrite ::
  "nat \<Rightarrow> AttentionClusterTag \<Rightarrow> nat \<Rightarrow> nat \<Rightarrow> score_fifo \<Rightarrow> bool \<times> score_fifo" where
  "sf_reserveWrite slot tag offset count f =
     (if \<not> sf_rangeAvailable f slot tag offset count then (False, f)
      else (True, f[slot := (f ! slot)\<lparr>ss_elementReserved :=
                       fill_range offset count True (ss_elementReserved (f ! slot))\<rparr>]))"

fun ss_commitLoop :: "nat \<Rightarrow> f32 list \<Rightarrow> ScoreSlot \<Rightarrow> ScoreSlot" where
  "ss_commitLoop i [] s = s"
| "ss_commitLoop i (v # vs) s =
     ss_commitLoop (Suc i) vs
       (s\<lparr>ss_elementReserved := (ss_elementReserved s)[i := False],
          ss_elementValid := (ss_elementValid s)[i := True],
          ss_elements := (ss_elements s)[i := v],
          ss_validElements := ss_validElements s + 1\<rparr>)"

definition sf_commitWrite ::
  "nat \<Rightarrow> AttentionClusterTag \<Rightarrow> nat \<Rightarrow> f32 list \<Rightarrow> score_fifo \<Rightarrow> bool \<times> score_fifo" where
  "sf_commitWrite slot tag offset values f =
     (if \<not> sf_matches f slot tag \<or> values = [] then (False, f)
      else if \<not> ss_rangeInBounds (f ! slot) offset (length values) \<or>
              False \<in> set (get_range offset (length values) (ss_elementReserved (f ! slot))) \<or>
              True \<in> set (get_range offset (length values) (ss_elementValid (f ! slot)))
      then (False, f)
      else (True, f[slot := ss_commitLoop offset values (f ! slot)]))"

definition sf_canRead :: "score_fifo \<Rightarrow> nat \<Rightarrow> AttentionClusterTag \<Rightarrow> nat \<Rightarrow> nat \<Rightarrow> bool" where
  "sf_canRead f slot tag offset count \<longleftrightarrow>
     sf_matches f slot tag \<and> count \<noteq> 0 \<and>
     offset \<le> length (ss_elements (f ! slot)) \<and>
     count \<le> length (ss_elements (f ! slot)) - offset \<and>
     False \<notin> set (get_range offset count (ss_elementValid (f ! slot)))"

definition sf_overwrite ::
  "nat \<Rightarrow> AttentionClusterTag \<Rightarrow> nat \<Rightarrow> f32 list \<Rightarrow> score_fifo \<Rightarrow> bool \<times> score_fifo" where
  "sf_overwrite slot tag offset values f =
     (if \<not> sf_canRead f slot tag offset (length values) then (False, f)
      else (True, f[slot := (f ! slot)\<lparr>ss_elements :=
                       copy_range offset values (ss_elements (f ! slot))\<rparr>]))"

definition sf_read ::
  "score_fifo \<Rightarrow> nat \<Rightarrow> AttentionClusterTag \<Rightarrow> nat \<Rightarrow> nat \<Rightarrow> f32 list option" where
  "sf_read f slot tag offset count =
     (if \<not> sf_canRead f slot tag offset count then None
      else Some (get_range offset count (ss_elements (f ! slot))))"

definition sf_ready :: "score_fifo \<Rightarrow> nat \<Rightarrow> AttentionClusterTag \<Rightarrow> bool" where
  "sf_ready f slot tag \<longleftrightarrow>
     sf_matches f slot tag \<and> ss_validElements (f ! slot) = length (ss_elements (f ! slot))"

definition sf_reserved :: "score_fifo \<Rightarrow> nat \<Rightarrow> AttentionClusterTag \<Rightarrow> bool" where
  "sf_reserved f slot tag \<longleftrightarrow> sf_matches f slot tag"

definition sf_occupiedSlot :: "score_fifo \<Rightarrow> nat \<Rightarrow> bool" where
  "sf_occupiedSlot f slot \<longleftrightarrow> slot < kSlots \<and> ss_valid (f ! slot)"

definition sf_release :: "nat \<Rightarrow> AttentionClusterTag \<Rightarrow> score_fifo \<Rightarrow> bool \<times> score_fifo" where
  "sf_release slot tag f =
     (if \<not> sf_matches f slot tag then (False, f) else (True, f[slot := ss_init]))"

fun sf_cancelGeneration :: "u64 \<Rightarrow> score_fifo \<Rightarrow> nat \<times> score_fifo" where
  "sf_cancelGeneration generation [] = (0, [])"
| "sf_cancelGeneration generation (s # f) =
     (case sf_cancelGeneration generation f of (n, f') \<Rightarrow>
        if ss_valid s \<and> tag_generation (ss_tag s) = generation then (Suc n, ss_init # f')
        else (n, s # f'))"

definition sf_occupied :: "score_fifo \<Rightarrow> nat" where
  "sf_occupied f = length (filter ss_valid f)"

section \<open>Specification: slots of cells\<close>

datatype cell = Empty | Booked | Full f32

type_synonym cell_pool = "nat \<rightharpoonup> AttentionClusterTag \<times> cell list"

fun is_full :: "cell \<Rightarrow> bool" where
  "is_full (Full v) = True"
| "is_full _ = False"

fun cell_value :: "cell \<Rightarrow> f32" where
  "cell_value (Full v) = v"
| "cell_value _ = 0"

text \<open>A range of a leased slot all of whose cells satisfy \<open>P\<close>.\<close>

definition cp_range :: "(cell \<Rightarrow> bool) \<Rightarrow> nat \<Rightarrow> AttentionClusterTag \<Rightarrow> nat \<Rightarrow> nat \<Rightarrow> cell_pool \<Rightarrow> bool" where
  "cp_range P slot tag offset count m =
     (case m slot of None \<Rightarrow> False
      | Some (t, cs) \<Rightarrow> t = tag \<and> count \<noteq> 0 \<and> offset + count \<le> length cs \<and>
          (\<forall>c \<in> set (get_range offset count cs). P c))"

text \<open>Replace a range whose cells all satisfy \<open>P\<close>; otherwise refuse.\<close>

definition cp_put ::
  "(cell \<Rightarrow> bool) \<Rightarrow> nat \<Rightarrow> AttentionClusterTag \<Rightarrow> nat \<Rightarrow> cell list \<Rightarrow> cell_pool \<Rightarrow> bool \<times> cell_pool" where
  "cp_put P slot tag offset cs' m =
     (if cp_range P slot tag offset (length cs') m
      then (True, m(slot := map_option (\<lambda>(t, cs). (t, copy_range offset cs' cs)) (m slot)))
      else (False, m))"

definition cp_leases :: "cell_pool \<Rightarrow> (nat \<rightharpoonup> AttentionClusterTag)" where
  "cp_leases m = (\<lambda>i. map_option fst (m i))"

datatype sf_op =
    SfReserve nat AttentionClusterTag nat
  | SfWrite nat AttentionClusterTag nat "f32 list"
  | SfReserveWrite nat AttentionClusterTag nat nat
  | SfCommitWrite nat AttentionClusterTag nat "f32 list"
  | SfOverwrite nat AttentionClusterTag nat "f32 list"
  | SfRead nat AttentionClusterTag nat nat
  | SfReady nat AttentionClusterTag
  | SfReserved nat AttentionClusterTag
  | SfOccupiedSlot nat
  | SfRelease nat AttentionClusterTag
  | SfCancelGeneration u64
  | SfOccupied

datatype sf_result = SfBool bool | SfValues "f32 list option" | SfCount nat

fun sf_step :: "sf_op \<Rightarrow> score_fifo \<Rightarrow> sf_result \<times> score_fifo" where
  "sf_step (SfReserve i t n) f = apfst SfBool (sf_reserve i t n f)"
| "sf_step (SfWrite i t off vs) f = apfst SfBool (sf_write i t off vs f)"
| "sf_step (SfReserveWrite i t off n) f = apfst SfBool (sf_reserveWrite i t off n f)"
| "sf_step (SfCommitWrite i t off vs) f = apfst SfBool (sf_commitWrite i t off vs f)"
| "sf_step (SfOverwrite i t off vs) f = apfst SfBool (sf_overwrite i t off vs f)"
| "sf_step (SfRead i t off n) f = (SfValues (sf_read f i t off n), f)"
| "sf_step (SfReady i t) f = (SfBool (sf_ready f i t), f)"
| "sf_step (SfReserved i t) f = (SfBool (sf_reserved f i t), f)"
| "sf_step (SfOccupiedSlot i) f = (SfBool (sf_occupiedSlot f i), f)"
| "sf_step (SfRelease i t) f = apfst SfBool (sf_release i t f)"
| "sf_step (SfCancelGeneration g) f = apfst SfCount (sf_cancelGeneration g f)"
| "sf_step SfOccupied f = (SfCount (sf_occupied f), f)"

fun cp_step :: "sf_op \<Rightarrow> cell_pool \<Rightarrow> sf_result \<times> cell_pool" where
  "cp_step (SfReserve i t n) m =
     (if i < 16 \<and> 0 < n \<and> n \<le> 1024 \<and> m i = None
      then (SfBool True, m(i \<mapsto> (t, replicate n Empty))) else (SfBool False, m))"
| "cp_step (SfWrite i t off vs) m = apfst SfBool (cp_put ((=) Empty) i t off (map Full vs) m)"
| "cp_step (SfReserveWrite i t off n) m =
     apfst SfBool (cp_put ((=) Empty) i t off (replicate n Booked) m)"
| "cp_step (SfCommitWrite i t off vs) m =
     apfst SfBool (cp_put ((=) Booked) i t off (map Full vs) m)"
| "cp_step (SfOverwrite i t off vs) m = apfst SfBool (cp_put is_full i t off (map Full vs) m)"
| "cp_step (SfRead i t off n) m =
     (SfValues (if cp_range is_full i t off n m
                then map_option (\<lambda>(t, cs). map cell_value (get_range off n cs)) (m i)
                else None), m)"
| "cp_step (SfReady i t) m =
     (SfBool (case m i of None \<Rightarrow> False | Some (t', cs) \<Rightarrow> t' = t \<and> list_all is_full cs), m)"
| "cp_step (SfReserved i t) m = (SfBool (cp_leases m i = Some t), m)"
| "cp_step (SfOccupiedSlot i) m = (SfBool (m i \<noteq> None), m)"
| "cp_step (SfRelease i t) m =
     (if cp_leases m i = Some t then (SfBool True, m(i := None)) else (SfBool False, m))"
| "cp_step (SfCancelGeneration g) m =
     (SfCount (length (filter (\<lambda>i. \<exists>t cs. m i = Some (t, cs) \<and> tag_generation t = g) [0..<16])),
      (\<lambda>i. case m i of None \<Rightarrow> None
         | Some (t, cs) \<Rightarrow> if tag_generation t = g then None else Some (t, cs)))"
| "cp_step SfOccupied m = (SfCount (length (filter (\<lambda>i. m i \<noteq> None) [0..<16])), m)"

section \<open>Invariant and abstraction\<close>

definition ss_ok :: "ScoreSlot \<Rightarrow> bool" where
  "ss_ok s \<longleftrightarrow>
     (ss_valid s \<longrightarrow> 0 < length (ss_elements s) \<and> length (ss_elements s) \<le> kElementsPerSlot) \<and>
     length (ss_elementValid s) = length (ss_elements s) \<and>
     length (ss_elementReserved s) = length (ss_elements s) \<and>
     ss_validElements s = length (filter id (ss_elementValid s)) \<and>
     (\<forall>i < length (ss_elements s). \<not> (ss_elementValid s ! i \<and> ss_elementReserved s ! i))"

definition sf_inv :: "score_fifo \<Rightarrow> bool" where
  "sf_inv f \<longleftrightarrow> length f = kSlots \<and> (\<forall>s \<in> set f. ss_ok s)"

definition ss_cell :: "ScoreSlot \<Rightarrow> nat \<Rightarrow> cell" where
  "ss_cell s i = (if ss_elementValid s ! i then Full (ss_elements s ! i)
                  else if ss_elementReserved s ! i then Booked else Empty)"

definition ss_cells :: "ScoreSlot \<Rightarrow> cell list" where
  "ss_cells s = map (ss_cell s) [0..<length (ss_elements s)]"

definition ss_abs :: "ScoreSlot \<Rightarrow> (AttentionClusterTag \<times> cell list) option" where
  "ss_abs s = (if ss_valid s then Some (ss_tag s, ss_cells s) else None)"

definition sf_abs :: "score_fifo \<Rightarrow> cell_pool" where
  "sf_abs f i = (if i < kSlots then ss_abs (f ! i) else None)"

lemma length_ss_cells [simp]: "length (ss_cells s) = length (ss_elements s)"
  by (simp add: ss_cells_def)

lemma nth_ss_cells [simp]: "i < length (ss_elements s) \<Longrightarrow> ss_cells s ! i = ss_cell s i"
  by (simp add: ss_cells_def)

lemma ss_ok_init [simp]: "ss_ok ss_init"
  by (simp add: ss_ok_def ss_init_def)

lemma ss_abs_init [simp]: "ss_abs ss_init = None"
  by (simp add: ss_abs_def ss_init_def)

lemma sf_inv_init: "sf_inv sf_init"
  by (simp add: sf_inv_def sf_init_def)

lemma sf_abs_init: "sf_abs sf_init = Map.empty"
  by (auto simp: sf_abs_def sf_init_def)

lemma sf_inv_slot: "sf_inv f \<Longrightarrow> i < kSlots \<Longrightarrow> ss_ok (f ! i)"
  by (simp add: sf_inv_def)

lemma sf_abs_update:
  "sf_inv f \<Longrightarrow> i < kSlots \<Longrightarrow> sf_abs (f[i := s]) = (sf_abs f)(i := ss_abs s)"
  by (auto simp: sf_abs_def sf_inv_def nth_list_update)

lemma sf_inv_update: "sf_inv f \<Longrightarrow> ss_ok s \<Longrightarrow> sf_inv (f[i := s])"
  by (auto simp: sf_inv_def dest!: set_update_subset_insert [THEN subsetD])

lemma sf_matches_abs: "sf_matches f i t \<longleftrightarrow> (\<exists>cs. sf_abs f i = Some (t, cs))"
  by (auto simp: sf_matches_def sf_abs_def ss_abs_def)

lemma sf_abs_lt: "sf_abs f i = Some x \<Longrightarrow> i < kSlots"
  by (simp add: sf_abs_def split: if_splits)

lemma sf_occupiedSlot_abs: "sf_occupiedSlot f i \<longleftrightarrow> sf_abs f i \<noteq> None"
  by (simp add: sf_occupiedSlot_def sf_abs_def ss_abs_def)

lemma sf_matchesD:
  assumes "sf_matches f i t"
  shows "i < kSlots" "ss_valid (f ! i)" "ss_tag (f ! i) = t" "sf_abs f i = Some (t, ss_cells (f ! i))"
  using assms by (auto simp: sf_matches_def sf_abs_def ss_abs_def)

section \<open>Ranges of cells\<close>

lemma ss_rangeInBounds_iff:
  "ss_rangeInBounds s off n \<longleftrightarrow> n \<noteq> 0 \<and> off + n \<le> length (ss_elements s)"
  by (auto simp: ss_rangeInBounds_def)

lemma range_flag_iff:
  "off + n \<le> length bs \<Longrightarrow> b \<notin> set (get_range off n bs) \<longleftrightarrow> (\<forall>i < n. bs ! (off + i) = (\<not> b))"
  using ball_get_range_iff [of off n bs "\<lambda>x. x = (\<not> b)"] by (cases b) auto

lemma cp_range_abs:
  assumes "sf_matches f i t"
  shows "cp_range P i t off n (sf_abs f) \<longleftrightarrow>
    ss_rangeInBounds (f ! i) off n \<and> (\<forall>k < n. P (ss_cell (f ! i) (off + k)))"
proof (cases "off + n \<le> length (ss_elements (f ! i))")
  case True
  with sf_matchesD(4) [OF assms] show ?thesis
    by (simp add: cp_range_def ss_rangeInBounds_iff ball_get_range_iff)
qed (use sf_matchesD(4) [OF assms] in \<open>simp add: cp_range_def ss_rangeInBounds_iff\<close>)

lemma cp_range_unmatched: "\<not> sf_matches f i t \<Longrightarrow> \<not> cp_range P i t off n (sf_abs f)"
  by (auto simp: sf_matches_abs cp_range_def split: option.splits)

lemma cp_rangeD:
  "cp_range P i t off n (sf_abs f) \<Longrightarrow> sf_matches f i t \<and> ss_rangeInBounds (f ! i) off n"
  by (meson cp_range_abs cp_range_unmatched)

lemma ss_cell_iff:
  assumes "ss_ok s" "i < length (ss_elements s)"
  shows "Empty = ss_cell s i \<longleftrightarrow> \<not> ss_elementValid s ! i \<and> \<not> ss_elementReserved s ! i"
    "Booked = ss_cell s i \<longleftrightarrow> \<not> ss_elementValid s ! i \<and> ss_elementReserved s ! i"
    "is_full (ss_cell s i) \<longleftrightarrow> ss_elementValid s ! i"
  using assms by (auto simp: ss_cell_def)

lemma ss_range_flags:
  assumes "ss_ok s" "off + n \<le> length (ss_elements s)"
  shows "(\<forall>k < n. Empty = ss_cell s (off + k)) \<longleftrightarrow>
      True \<notin> set (get_range off n (ss_elementValid s)) \<and> True \<notin> set (get_range off n (ss_elementReserved s))"
    "(\<forall>k < n. Booked = ss_cell s (off + k)) \<longleftrightarrow>
      True \<notin> set (get_range off n (ss_elementValid s)) \<and> False \<notin> set (get_range off n (ss_elementReserved s))"
    "(\<forall>k < n. is_full (ss_cell s (off + k))) \<longleftrightarrow> False \<notin> set (get_range off n (ss_elementValid s))"
proof -
  have len: "off + n \<le> length (ss_elementValid s)" "off + n \<le> length (ss_elementReserved s)"
    using assms by (simp_all add: ss_ok_def)
  have lt: "k < n \<Longrightarrow> off + k < length (ss_elements s)" for k using assms(2) by simp
  note cell = ss_cell_iff [OF assms(1) lt]
  show "(\<forall>k < n. Empty = ss_cell s (off + k)) \<longleftrightarrow>
      True \<notin> set (get_range off n (ss_elementValid s)) \<and> True \<notin> set (get_range off n (ss_elementReserved s))"
    using cell(1) by (simp only: range_flag_iff len) blast
  show "(\<forall>k < n. Booked = ss_cell s (off + k)) \<longleftrightarrow>
      True \<notin> set (get_range off n (ss_elementValid s)) \<and> False \<notin> set (get_range off n (ss_elementReserved s))"
    using cell(2) by (simp only: range_flag_iff len) blast
  show "(\<forall>k < n. is_full (ss_cell s (off + k))) \<longleftrightarrow> False \<notin> set (get_range off n (ss_elementValid s))"
    using cell(3) by (simp only: range_flag_iff len) blast
qed

lemma sf_guards_abs:
  assumes "sf_inv f"
  shows "sf_rangeAvailable f i t off n \<longleftrightarrow> cp_range ((=) Empty) i t off n (sf_abs f)"
    "sf_canRead f i t off n \<longleftrightarrow> cp_range is_full i t off n (sf_abs f)"
    "cp_range ((=) Booked) i t off n (sf_abs f) \<longleftrightarrow>
       sf_matches f i t \<and> ss_rangeInBounds (f ! i) off n \<and>
       False \<notin> set (get_range off n (ss_elementReserved (f ! i))) \<and>
       True \<notin> set (get_range off n (ss_elementValid (f ! i)))"
proof (atomize (full), cases "sf_matches f i t \<and> off + n \<le> length (ss_elements (f ! i))")
  case True
  then have m: "sf_matches f i t" by simp
  note flags = ss_range_flags [OF sf_inv_slot [OF assms sf_matchesD(1) [OF m]] conjunct2 [OF True]]
  show "(sf_rangeAvailable f i t off n \<longleftrightarrow> cp_range ((=) Empty) i t off n (sf_abs f)) \<and>
    (sf_canRead f i t off n \<longleftrightarrow> cp_range is_full i t off n (sf_abs f)) \<and>
    (cp_range ((=) Booked) i t off n (sf_abs f) \<longleftrightarrow>
       sf_matches f i t \<and> ss_rangeInBounds (f ! i) off n \<and>
       False \<notin> set (get_range off n (ss_elementReserved (f ! i))) \<and>
       True \<notin> set (get_range off n (ss_elementValid (f ! i))))"
    using True unfolding sf_rangeAvailable_def sf_canRead_def cp_range_abs [OF m] flags
    by (auto simp: ss_rangeInBounds_iff)
next
  case False
  then have "\<not> cp_range P i t off n (sf_abs f)" for P
    using cp_rangeD [of P i t off n f] by (auto simp: ss_rangeInBounds_iff)
  with False show "(sf_rangeAvailable f i t off n \<longleftrightarrow> cp_range ((=) Empty) i t off n (sf_abs f)) \<and>
    (sf_canRead f i t off n \<longleftrightarrow> cp_range is_full i t off n (sf_abs f)) \<and>
    (cp_range ((=) Booked) i t off n (sf_abs f) \<longleftrightarrow>
       sf_matches f i t \<and> ss_rangeInBounds (f ! i) off n \<and>
       False \<notin> set (get_range off n (ss_elementReserved (f ! i))) \<and>
       True \<notin> set (get_range off n (ss_elementValid (f ! i))))"
    by (auto simp: sf_rangeAvailable_def sf_canRead_def ss_rangeInBounds_iff)
qed

section \<open>The write loops\<close>

lemma ss_writeLoop_eq:
  "length (ss_elementValid s) = length (ss_elements s) \<Longrightarrow> off + length vs \<le> length (ss_elements s) \<Longrightarrow>
   ss_writeLoop off vs s = s\<lparr>ss_elements := copy_range off vs (ss_elements s),
     ss_elementValid := fill_range off (length vs) True (ss_elementValid s),
     ss_validElements := ss_validElements s + length vs\<rparr>"
proof (induction off vs s rule: ss_writeLoop.induct)
  case (2 i v vs s)
  then show ?case
    using copy_range_Cons [of i v vs "ss_elements s"]
      fill_range_Suc [of i "length vs" "ss_elementValid s" True] by simp
qed (simp add: fill_range_def)

lemma ss_commitLoop_eq:
  "length (ss_elementValid s) = length (ss_elements s) \<Longrightarrow>
   length (ss_elementReserved s) = length (ss_elements s) \<Longrightarrow>
   off + length vs \<le> length (ss_elements s) \<Longrightarrow>
   ss_commitLoop off vs s = s\<lparr>ss_elements := copy_range off vs (ss_elements s),
     ss_elementReserved := fill_range off (length vs) False (ss_elementReserved s),
     ss_elementValid := fill_range off (length vs) True (ss_elementValid s),
     ss_validElements := ss_validElements s + length vs\<rparr>"
proof (induction off vs s rule: ss_commitLoop.induct)
  case (2 i v vs s)
  then show ?case
    using copy_range_Cons [of i v vs "ss_elements s"]
      fill_range_Suc [of i "length vs" "ss_elementValid s" True]
      fill_range_Suc [of i "length vs" "ss_elementReserved s" False] by simp
qed (simp add: fill_range_def)

section \<open>Refinement\<close>

text \<open>An update of one slot that rewrites a range of its cells.\<close>

lemma cp_put_refine:
  assumes inv: "sf_inv f" and g: "cp_range P i t off (length cs) (sf_abs f)" and ok: "ss_ok s"
    and kept: "ss_valid s = ss_valid (f ! i)" "ss_tag s = ss_tag (f ! i)"
      "length (ss_elements s) = length (ss_elements (f ! i))"
    and cells: "\<And>k. k < length (ss_elements s) \<Longrightarrow> ss_cell s k =
      (if off \<le> k \<and> k < off + length cs then cs ! (k - off) else ss_cell (f ! i) k)"
  shows "sf_inv (f[i := s]) \<and> cp_put P i t off cs (sf_abs f) = (True, sf_abs (f[i := s]))"
proof -
  from cp_rangeD [OF g] have m: "sf_matches f i t" and b: "ss_rangeInBounds (f ! i) off (length cs)"
    by auto
  note mD = sf_matchesD [OF m]
  have "ss_cells s = copy_range off cs (ss_cells (f ! i))"
    using b kept by (intro nth_equalityI) (auto simp: nth_copy_range cells ss_rangeInBounds_iff)
  with kept mD have "ss_abs s = map_option (\<lambda>(t, c). (t, copy_range off cs c)) (sf_abs f i)"
    by (simp add: ss_abs_def)
  with g ok inv mD show ?thesis by (simp add: cp_put_def sf_inv_update sf_abs_update)
qed

lemma ss_ok_overlay:
  assumes ok: "ss_ok s" and b: "ss_rangeInBounds s off n"
    and "length el = length (ss_elements s)"
    and "\<forall>k < n. \<not> ss_elementValid s ! (off + k)"
  shows "ss_ok (s\<lparr>ss_elements := el,
       ss_elementReserved := fill_range off n False (ss_elementReserved s),
       ss_elementValid := fill_range off n True (ss_elementValid s),
       ss_validElements := ss_validElements s + n\<rparr>)"
proof -
  have len: "off + n \<le> length (ss_elementValid s)" using ok b by (simp add: ss_ok_def ss_rangeInBounds_iff)
  have "length (filter id (fill_range off n True (ss_elementValid s)))
      = length (filter id (ss_elementValid s)) + n"
    using assms(4) len by (subst filter_fill_range) (auto simp: ball_get_range_iff)
  with assms len show ?thesis by (auto simp: ss_ok_def nth_fill_range)
qed

lemma sf_write_refine:
  assumes "sf_inv f" "sf_write i t off vs f = (r, f')"
  shows "sf_inv f' \<and> cp_put ((=) Empty) i t off (map Full vs) (sf_abs f) = (r, sf_abs f')"
proof (cases "cp_range ((=) Empty) i t off (length vs) (sf_abs f)")
  case True
  then have m: "sf_matches f i t" and b: "ss_rangeInBounds (f ! i) off (length vs)"
    and e: "\<forall>k < length vs. Empty = ss_cell (f ! i) (off + k)"
    using cp_rangeD [OF True] by (auto simp: cp_range_abs)
  have ok: "ss_ok (f ! i)" by (rule sf_inv_slot [OF assms(1) sf_matchesD(1) [OF m]])
  have flags: "\<forall>k < length vs. \<not> ss_elementValid (f ! i) ! (off + k)"
    "\<forall>k < length vs. \<not> ss_elementReserved (f ! i) ! (off + k)"
    using e b ss_cell_iff(1) [OF ok] by (auto simp: ss_rangeInBounds_iff)
  have len: "off + length vs \<le> length (ss_elements (f ! i))"
    "length (ss_elementValid (f ! i)) = length (ss_elements (f ! i))"
    "length (ss_elementReserved (f ! i)) = length (ss_elements (f ! i))"
    using b ok by (auto simp: ss_rangeInBounds_iff ss_ok_def)
  have res: "fill_range off (length vs) False (ss_elementReserved (f ! i)) = ss_elementReserved (f ! i)"
    using flags(2) len by (intro fill_range_same) auto
  let ?s = "(f ! i)\<lparr>ss_elements := copy_range off vs (ss_elements (f ! i)),
     ss_elementValid := fill_range off (length vs) True (ss_elementValid (f ! i)),
     ss_validElements := ss_validElements (f ! i) + length vs\<rparr>"
  have s: "ss_ok ?s" using ss_ok_overlay [OF ok b, of "copy_range off vs (ss_elements (f ! i))"] flags(1) len res
    by (simp add: ss_ok_def)
  have f': "r = True" "f' = f[i := ?s]"
    using assms(2) True sf_guards_abs(1) [OF assms(1)] ss_writeLoop_eq [OF len(2,1)]
    by (simp_all add: sf_write_def)
  show ?thesis unfolding f' using assms(1) True s len
    by (intro cp_put_refine) (auto simp: ss_cell_def nth_copy_range nth_fill_range)
qed (use assms sf_guards_abs(1) [OF assms(1)] in \<open>simp add: sf_write_def cp_put_def\<close>)

lemma sf_commitWrite_refine:
  assumes "sf_inv f" "sf_commitWrite i t off vs f = (r, f')"
  shows "sf_inv f' \<and> cp_put ((=) Booked) i t off (map Full vs) (sf_abs f) = (r, sf_abs f')"
proof (cases "cp_range ((=) Booked) i t off (length vs) (sf_abs f)")
  case True
  then have m: "sf_matches f i t" and b: "ss_rangeInBounds (f ! i) off (length vs)"
    and e: "\<forall>k < length vs. Booked = ss_cell (f ! i) (off + k)"
    using cp_rangeD [OF True] by (auto simp: cp_range_abs)
  have ok: "ss_ok (f ! i)" by (rule sf_inv_slot [OF assms(1) sf_matchesD(1) [OF m]])
  have flags: "\<forall>k < length vs. \<not> ss_elementValid (f ! i) ! (off + k)"
    using e b ss_cell_iff(2) [OF ok] by (auto simp: ss_rangeInBounds_iff)
  have len: "off + length vs \<le> length (ss_elements (f ! i))" "vs \<noteq> []"
    "length (ss_elementValid (f ! i)) = length (ss_elements (f ! i))"
    "length (ss_elementReserved (f ! i)) = length (ss_elements (f ! i))"
    using b ok by (auto simp: ss_rangeInBounds_iff ss_ok_def)
  have f': "r = True" "f' = f[i := ss_commitLoop off vs (f ! i)]"
    using assms(2) True len(2) unfolding sf_guards_abs(3) [OF assms(1)]
    by (simp_all add: sf_commitWrite_def)
  show ?thesis
    unfolding f' ss_commitLoop_eq [OF len(3,4,1)] using assms(1) True len
    by (intro cp_put_refine ss_ok_overlay [OF ok b _ flags])
       (auto simp: ss_cell_def nth_copy_range nth_fill_range)
qed (use assms sf_guards_abs(3) [OF assms(1), of i t off "length vs"] in
      \<open>auto simp: sf_commitWrite_def cp_put_def split: if_splits\<close>)

lemma sf_reserveWrite_refine:
  assumes "sf_inv f" "sf_reserveWrite i t off n f = (r, f')"
  shows "sf_inv f' \<and> cp_put ((=) Empty) i t off (replicate n Booked) (sf_abs f) = (r, sf_abs f')"
proof (cases "cp_range ((=) Empty) i t off n (sf_abs f)")
  case True
  then have m: "sf_matches f i t" and b: "ss_rangeInBounds (f ! i) off n"
    and e: "\<forall>k < n. Empty = ss_cell (f ! i) (off + k)"
    using cp_rangeD [OF True] by (auto simp: cp_range_abs)
  have ok: "ss_ok (f ! i)" by (rule sf_inv_slot [OF assms(1) sf_matchesD(1) [OF m]])
  have len: "off + n \<le> length (ss_elements (f ! i))" using b by (simp add: ss_rangeInBounds_iff)
  have clear: "\<not> ss_elementValid (f ! i) ! k" if "off \<le> k" "k < off + n" for k
    using e ss_cell_iff(1) [OF ok, of k] len that by (auto simp: le_iff_add)
  have f': "r = True" "f' = f[i := (f ! i)\<lparr>ss_elementReserved :=
                       fill_range off n True (ss_elementReserved (f ! i))\<rparr>]"
    using assms(2) True sf_guards_abs(1) [OF assms(1)] by (simp_all add: sf_reserveWrite_def)
  show ?thesis unfolding f' using assms(1) True ok len clear
    by (intro cp_put_refine) (auto simp: ss_cell_def ss_ok_def nth_fill_range)
qed (use assms sf_guards_abs(1) [OF assms(1)] in \<open>simp add: sf_reserveWrite_def cp_put_def\<close>)

lemma sf_overwrite_refine:
  assumes "sf_inv f" "sf_overwrite i t off vs f = (r, f')"
  shows "sf_inv f' \<and> cp_put is_full i t off (map Full vs) (sf_abs f) = (r, sf_abs f')"
proof (cases "cp_range is_full i t off (length vs) (sf_abs f)")
  case True
  then have m: "sf_matches f i t" and b: "ss_rangeInBounds (f ! i) off (length vs)"
    and e: "\<forall>k < length vs. is_full (ss_cell (f ! i) (off + k))"
    using cp_rangeD [OF True] by (auto simp: cp_range_abs)
  have ok: "ss_ok (f ! i)" by (rule sf_inv_slot [OF assms(1) sf_matchesD(1) [OF m]])
  have len: "off + length vs \<le> length (ss_elements (f ! i))" using b by (simp add: ss_rangeInBounds_iff)
  have full: "ss_elementValid (f ! i) ! k" if "off \<le> k" "k < off + length vs" for k
    using e ss_cell_iff(3) [OF ok, of k] len that by (auto simp: le_iff_add)
  have f': "r = True" "f' = f[i := (f ! i)\<lparr>ss_elements := copy_range off vs (ss_elements (f ! i))\<rparr>]"
    using assms(2) True sf_guards_abs(2) [OF assms(1)] by (simp_all add: sf_overwrite_def)
  show ?thesis unfolding f' using assms(1) True ok len full
    by (intro cp_put_refine) (auto simp: ss_cell_def ss_ok_def nth_copy_range)
qed (use assms sf_guards_abs(2) [OF assms(1)] in \<open>simp add: sf_overwrite_def cp_put_def\<close>)

lemma sf_reserve_refine:
  assumes "sf_inv f" "sf_reserve i t n f = (r, f')"
  shows "sf_inv f' \<and> cp_step (SfReserve i t n) (sf_abs f) = (SfBool r, sf_abs f')"
proof (cases "i \<ge> kSlots \<or> n = 0 \<or> n > kElementsPerSlot \<or> ss_valid (f ! i)")
  case True
  with assms show ?thesis
    by (auto simp: sf_reserve_def sf_abs_def ss_abs_def kSlots_def kElementsPerSlot_def)
next
  case False
  let ?s = "\<lparr>ss_valid = True, ss_tag = t, ss_elements = replicate n 0,
     ss_elementValid = replicate n False, ss_elementReserved = replicate n False,
     ss_validElements = 0\<rparr>"
  from False assms(2) have f': "r = True" "f' = f[i := ?s]"
    by (simp_all add: sf_reserve_def)
  have "ss_ok ?s" using False by (simp add: ss_ok_def)
  moreover have "ss_cells ?s = replicate n Empty"
    by (rule nth_equalityI) (simp_all add: ss_cell_def)
  ultimately show ?thesis unfolding f' using False assms(1)
    by (auto simp: sf_inv_update sf_abs_update ss_abs_def sf_abs_def [of f] kSlots_def kElementsPerSlot_def)
qed

lemma sf_cancel_map:
  "sf_cancelGeneration g f =
     (length (filter (\<lambda>s. ss_valid s \<and> tag_generation (ss_tag s) = g) f),
      map (\<lambda>s. if ss_valid s \<and> tag_generation (ss_tag s) = g then ss_init else s) f)"
  by (induction f) auto

lemma length_filter_nth: "length (filter P xs) = length (filter (\<lambda>i. P (xs ! i)) [0..<length xs])"
  by (metis (no_types, lifting) filter_map length_map map_nth comp_def filter_cong)

lemma sf_cancel_refine:
  assumes "sf_inv f"
  shows "sf_inv (snd (sf_cancelGeneration g f)) \<and>
    cp_step (SfCancelGeneration g) (sf_abs f) = apfst SfCount (apsnd sf_abs (sf_cancelGeneration g f))"
proof -
  have len: "length f = 16" using assms by (simp add: sf_inv_def kSlots_def)
  have n: "length (filter (\<lambda>s. ss_valid s \<and> tag_generation (ss_tag s) = g) f) =
     length (filter (\<lambda>i. \<exists>t cs. sf_abs f i = Some (t, cs) \<and> tag_generation t = g) [0..<16])"
    unfolding length_filter_nth [of _ f] len
    by (rule length_filter_cong) (auto simp: sf_abs_def ss_abs_def kSlots_def)
  have "sf_abs (map (\<lambda>s. if ss_valid s \<and> tag_generation (ss_tag s) = g then ss_init else s) f) i =
    (case sf_abs f i of None \<Rightarrow> None
         | Some (t, cs) \<Rightarrow> if tag_generation t = g then None else Some (t, cs))" for i
    using len by (simp add: sf_abs_def ss_abs_def kSlots_def ss_init_def)
  with n assms show ?thesis by (auto simp: sf_cancel_map sf_inv_def)
qed

lemma sf_occupied_abs:
  assumes "sf_inv f"
  shows "sf_occupied f = length (filter (\<lambda>i. sf_abs f i \<noteq> None) [0..<16])"
proof -
  have len: "length f = 16" using assms by (simp add: sf_inv_def kSlots_def)
  show ?thesis unfolding sf_occupied_def length_filter_nth [of _ f] len
    by (rule length_filter_cong) (auto simp: sf_abs_def ss_abs_def kSlots_def)
qed

lemma sf_release_refine:
  assumes "sf_inv f" "sf_release i t f = (r, f')"
  shows "sf_inv f' \<and> cp_step (SfRelease i t) (sf_abs f) = (SfBool r, sf_abs f')"
  using assms
  by (auto simp: sf_release_def sf_inv_update sf_abs_update sf_matches_abs cp_leases_def
      sf_abs_lt split: if_splits)

lemma sf_ready_abs:
  assumes "sf_inv f"
  shows "sf_ready f i t \<longleftrightarrow>
    (case sf_abs f i of None \<Rightarrow> False | Some (t', cs) \<Rightarrow> t' = t \<and> list_all is_full cs)"
proof (cases "sf_matches f i t")
  case True
  note mD = sf_matchesD [OF True]
  have ok: "ss_ok (f ! i)" by (rule sf_inv_slot [OF assms mD(1)])
  have "length (filter id (ss_elementValid (f ! i))) = length (ss_elementValid (f ! i)) \<longleftrightarrow>
      (\<forall>k < length (ss_elementValid (f ! i)). ss_elementValid (f ! i) ! k)"
    by (metis (no_types, lifting) all_set_conv_all_nth filter_True id_apply length_filter_less
        less_irrefl)
  with True mD ok show ?thesis
    by (auto simp: sf_ready_def ss_ok_def list_all_length ss_cell_def split: if_splits)
qed (auto simp: sf_ready_def sf_matches_abs split: option.splits)

lemma sf_read_abs:
  assumes "sf_inv f"
  shows "sf_read f i t off n =
    (if cp_range is_full i t off n (sf_abs f)
     then map_option (\<lambda>(t, cs). map cell_value (get_range off n cs)) (sf_abs f i) else None)"
proof (cases "cp_range is_full i t off n (sf_abs f)")
  case True
  then have m: "sf_matches f i t" and b: "ss_rangeInBounds (f ! i) off n"
    and e: "\<forall>k < n. is_full (ss_cell (f ! i) (off + k))"
    using cp_rangeD [OF True] by (auto simp: cp_range_abs)
  have "get_range off n (ss_elements (f ! i)) = map cell_value (get_range off n (ss_cells (f ! i)))"
    using b e by (intro nth_equalityI) (auto simp: ss_rangeInBounds_iff ss_cell_def split: if_splits)
  with True sf_matchesD(4) [OF m] sf_guards_abs(2) [OF assms] show ?thesis by (simp add: sf_read_def)
qed (simp add: sf_read_def sf_guards_abs(2) [OF assms])

lemma sf_step_refine:
  assumes "sf_inv f" "sf_step x f = (r, f')"
  shows "sf_inv f' \<and> cp_step x (sf_abs f) = (r, sf_abs f')"
proof (cases x)
  case (SfCancelGeneration g)
  with assms sf_cancel_refine [of f g] show ?thesis
    by (cases "sf_cancelGeneration g f") (auto simp del: cp_step.simps)
next
  case (SfReady i t)
  with assms sf_ready_abs [OF assms(1), of i t] show ?thesis by auto
qed (use assms in \<open>auto simp: apfst_def map_prod_def sf_read_abs sf_occupied_abs sf_reserved_def
      sf_matches_abs cp_leases_def sf_occupiedSlot_abs
      simp del: cp_step.simps(1,10)
      split: prod.splits
      dest: sf_reserve_refine sf_write_refine sf_reserveWrite_refine sf_commitWrite_refine
        sf_overwrite_refine sf_release_refine\<close>)

fun sf_run :: "sf_op list \<Rightarrow> score_fifo \<Rightarrow> sf_result list \<times> score_fifo" where
  "sf_run [] f = ([], f)"
| "sf_run (x # xs) f =
     (case sf_step x f of (r, f') \<Rightarrow> case sf_run xs f' of (rs, f'') \<Rightarrow> (r # rs, f''))"

fun cp_run :: "sf_op list \<Rightarrow> cell_pool \<Rightarrow> sf_result list \<times> cell_pool" where
  "cp_run [] m = ([], m)"
| "cp_run (x # xs) m =
     (case cp_step x m of (r, m') \<Rightarrow> case cp_run xs m' of (rs, m'') \<Rightarrow> (r # rs, m''))"

lemma sf_run_refine:
  "sf_inv f \<Longrightarrow> sf_run xs f = (rs, f') \<Longrightarrow> sf_inv f' \<and> cp_run xs (sf_abs f) = (rs, sf_abs f')"
proof (induction xs arbitrary: f rs)
  case (Cons x xs)
  from Cons.prems(2) obtain r f1 ss where step: "sf_step x f = (r, f1)"
    and run: "sf_run xs f1 = (ss, f')" and rs: "rs = r # ss" by (auto split: prod.splits)
  from sf_step_refine [OF Cons.prems(1) step] Cons.IH [OF _ run] rs show ?case by simp
qed simp

section \<open>The FIFO is a pool of tagged slots\<close>

definition sf_exec :: "sf_op \<Rightarrow> score_fifo \<Rightarrow> score_fifo" where
  "sf_exec x f = snd (sf_step x f)"

definition sf_owner :: "score_fifo \<Rightarrow> nat \<Rightarrow> AttentionClusterTag option" where
  "sf_owner f = cp_leases (sf_abs f)"

fun sf_event :: "sf_op \<Rightarrow> score_fifo \<Rightarrow> pool_event" where
  "sf_event (SfReserve i t n) f = (if fst (sf_reserve i t n f) then Lease i t else Keep)"
| "sf_event (SfRelease i t) f = (if fst (sf_release i t f) then Vacate i t else Keep)"
| "sf_event (SfCancelGeneration g) f = Purge g"
| "sf_event _ f = Keep"

lemma cp_put_leases: "cp_leases (snd (cp_put P i t off cs m)) = cp_leases m"
  by (auto simp: cp_put_def cp_leases_def cp_range_def split: option.splits)

lemma cp_step_leases:
  "cp_leases (snd (cp_step x m)) =
     (case x of
        SfReserve i t n \<Rightarrow> if fst (cp_step x m) = SfBool True then (cp_leases m)(i \<mapsto> t) else cp_leases m
      | SfRelease i t \<Rightarrow> if fst (cp_step x m) = SfBool True then (cp_leases m)(i := None) else cp_leases m
      | SfCancelGeneration g \<Rightarrow> pool_apply (Purge g) (cp_leases m)
      | _ \<Rightarrow> cp_leases m)"
  by (cases x)
     (auto simp: cp_put_leases [unfolded cp_leases_def, THEN fun_cong] cp_leases_def fun_eq_iff
       split: option.splits prod.splits)

lemma sf_step_abs:
  assumes "sf_inv f"
  shows "sf_inv (snd (sf_step x f))" "fst (cp_step x (sf_abs f)) = fst (sf_step x f)"
    "snd (cp_step x (sf_abs f)) = sf_abs (snd (sf_step x f))"
  using sf_step_refine [OF assms, of x "fst (sf_step x f)" "snd (sf_step x f)"] by auto

lemma sf_event_owner:
  assumes "sf_inv f"
  shows "pool_legal (sf_event x f) (sf_owner f) \<and>
    sf_owner (sf_exec x f) = pool_apply (sf_event x f) (sf_owner f)"
proof -
  have "sf_owner (sf_exec x f) = cp_leases (snd (cp_step x (sf_abs f)))"
    by (simp add: sf_owner_def sf_exec_def sf_step_abs [OF assms])
  also have "\<dots> = pool_apply (sf_event x f) (sf_owner f)"
    unfolding cp_step_leases sf_step_abs(2) [OF assms] sf_owner_def
    by (cases x) (auto simp: apfst_def map_prod_def split: prod.splits)
  moreover have "pool_legal (sf_event x f) (sf_owner f)"
    by (cases x) (auto simp: sf_reserve_def sf_release_def sf_owner_def cp_leases_def sf_matches_abs
        sf_abs_def ss_abs_def)
  ultimately show ?thesis by simp
qed

interpretation score_pool: tagged_pool sf_owner sf_inv sf_init sf_exec sf_event
proof
  show "sf_inv sf_init" by (rule sf_inv_init)
  show "sf_owner sf_init i = None" for i by (simp add: sf_owner_def sf_abs_init cp_leases_def)
  show "sf_inv (sf_exec x f)" if "sf_inv f" for f x
    using sf_step_abs(1) [OF that] by (simp add: sf_exec_def)
  show "pool_legal (sf_event x f) (sf_owner f)" "sf_owner (sf_exec x f) = pool_apply (sf_event x f) (sf_owner f)"
    if "sf_inv f" for f x using sf_event_owner [OF that] by auto
qed

section \<open>Properties\<close>

text \<open>
  (C2) The score FIFO implements its specification on cells: for every sequence of calls from
  the empty FIFO, each call returns what the step on empty, booked and full cells returns, and
  the buffers always represent the specification state.  In particular a read returns exactly
  the values last written to its range, no element is written twice before it is read back, a
  slot is ready exactly when every cell is full, and rejected calls change nothing.
\<close>

theorem score_fifo_refines_cells:
  "cp_run xs Map.empty = apsnd sf_abs (sf_run xs sf_init)"
  using sf_run_refine [OF sf_inv_init, of xs] by (cases "sf_run xs sf_init") (simp add: sf_abs_init)

text \<open>
  A lease of a score slot ends only when its own tag releases it or its generation is
  cancelled: after any sequence of calls, a slot held by a tag is still held by it after one
  more call of any other kind, including attempts of other tags to reserve or release it.
\<close>

theorem score_fifo_lease_stable:
  assumes "sf_matches (snd (sf_run xs sf_init)) i t"
    and "x \<noteq> SfRelease i t" "x \<noteq> SfCancelGeneration (tag_generation t)"
  shows "sf_matches (snd (sf_step x (snd (sf_run xs sf_init)))) i t"
proof -
  let ?f = "snd (sf_run xs sf_init)"
  have inv: "sf_inv ?f" using sf_run_refine [OF sf_inv_init] by (metis prod.collapse)
  have own: "sf_owner f i = Some t \<longleftrightarrow> sf_matches f i t" for f
    by (auto simp: sf_owner_def cp_leases_def sf_matches_abs)
  have "sf_owner (sf_exec x ?f) i = Some t"
    using assms own by (intro score_pool.lease_kept inv) (cases x; auto split: if_splits)+
  then show ?thesis by (simp add: own sf_exec_def)
qed

theorem score_fifo_lease_stable_witness:
  "sf_matches (snd (sf_step (SfRelease 2 tag_init)
     (snd (sf_run [SfReserve 2 tag_example 4] sf_init)))) 2 tag_example"
  by (rule score_fifo_lease_stable)
     (simp_all add: tag_example_def tag_init_def sf_reserve_def sf_init_def ss_init_def sf_matches_def
       kSlots_def kElementsPerSlot_def)

end
