(* ===== verification/Busy_Trackers.thy ===== *)
theory Busy_Trackers
  imports Golem_Prelude "HOL-Library.Multiset"
begin

text \<open>
  The two busy-time meters of \<open>attention/attentionCluster.h\<close>: \<open>BusyIntervalUnion\<close>, which is
  fed closed-open cycle intervals in order of their start, and \<open>BusyActivityTracker\<close>, which
  is fed enter and leave events.  Both report the length of the union of the busy cycles, the
  idle cycles inside the observed span and the peak concurrency; the theorems relate these
  numbers to the set of cycles covered.
\<close>

section \<open>BusyIntervalUnion\<close>

text \<open>
  The binary heap \<open>activeEnds_\<close> (a \<open>priority_queue\<close> with \<open>std::greater\<close>) is the sorted
  list of its elements: the top is the head.
\<close>

record BusyIntervalUnion =
  bi_hasInterval :: bool
  bi_firstStart :: nat
  bi_lastStart :: nat
  bi_mergedEnd :: nat
  bi_lastEnd :: nat
  bi_unionCycles :: nat
  bi_idleCycles :: nat
  bi_maxConcurrency :: nat
  bi_operations :: nat
  bi_activeEnds :: "nat list"

definition bi_init :: BusyIntervalUnion where
  "bi_init = \<lparr>bi_hasInterval = False, bi_firstStart = 0, bi_lastStart = 0, bi_mergedEnd = 0,
     bi_lastEnd = 0, bi_unionCycles = 0, bi_idleCycles = 0, bi_maxConcurrency = 0,
     bi_operations = 0, bi_activeEnds = []\<rparr>"

fun bi_popExpired :: "nat \<Rightarrow> nat list \<Rightarrow> nat list" where
  "bi_popExpired start [] = []"
| "bi_popExpired start (e # es) = (if e \<le> start then bi_popExpired start es else e # es)"

definition bi_merge :: "nat \<Rightarrow> nat \<Rightarrow> BusyIntervalUnion \<Rightarrow> BusyIntervalUnion" where
  "bi_merge start end' s =
     (if \<not> bi_hasInterval s then
        s\<lparr>bi_firstStart := start, bi_mergedEnd := end', bi_unionCycles := end' - start,
          bi_hasInterval := True\<rparr>
      else if start \<le> bi_mergedEnd s then
        (if bi_mergedEnd s < end' then
           s\<lparr>bi_unionCycles := bi_unionCycles s + (end' - bi_mergedEnd s),
             bi_mergedEnd := end'\<rparr>
         else s)
      else
        s\<lparr>bi_idleCycles := bi_idleCycles s + (start - bi_mergedEnd s),
          bi_unionCycles := bi_unionCycles s + (end' - start),
          bi_mergedEnd := end'\<rparr>)"

definition bi_add :: "nat \<Rightarrow> nat \<Rightarrow> BusyIntervalUnion \<Rightarrow> bool \<times> BusyIntervalUnion" where
  "bi_add start end' s =
     (if end' \<le> start \<or> (bi_hasInterval s \<and> start < bi_lastStart s) then (False, s)
      else
        (let active = insort end' (bi_popExpired start (bi_activeEnds s));
             s1 = s\<lparr>bi_activeEnds := active,
                    bi_maxConcurrency := max (bi_maxConcurrency s) (length active)\<rparr>;
             s2 = bi_merge start end' s1
         in (True, s2\<lparr>bi_lastStart := start, bi_lastEnd := max (bi_lastEnd s2) end',
                      bi_operations := bi_operations s2 + 1\<rparr>)))"

definition bi_empty :: "BusyIntervalUnion \<Rightarrow> bool" where
  "bi_empty s \<longleftrightarrow> \<not> bi_hasInterval s"

definition bi_spanCycles :: "BusyIntervalUnion \<Rightarrow> nat" where
  "bi_spanCycles s = (if bi_hasInterval s then sub64 (bi_lastEnd s) (bi_firstStart s) else 0)"

definition bi_reset :: "BusyIntervalUnion \<Rightarrow> BusyIntervalUnion" where
  "bi_reset s = bi_init"

text \<open>A caller feeds a sequence of intervals; rejected ones are dropped.\<close>

fun bi_run :: "(nat \<times> nat) list \<Rightarrow> BusyIntervalUnion \<Rightarrow> (nat \<times> nat) list \<times> BusyIntervalUnion" where
  "bi_run [] s = ([], s)"
| "bi_run ((b, e) # xs) s =
     (case bi_add b e s of (ok, s') \<Rightarrow>
        (case bi_run xs s' of (acc, t) \<Rightarrow> (if ok then (b, e) # acc else acc, t)))"

subsection \<open>What the meter measures\<close>

definition covered :: "(nat \<times> nat) list \<Rightarrow> nat set" where
  "covered xs = (\<Union>(b, e) \<in> set xs. {b..<e})"

definition overlap :: "(nat \<times> nat) list \<Rightarrow> nat \<Rightarrow> nat" where
  "overlap xs t = length (filter (\<lambda>(b, e). b \<le> t \<and> t < e) xs)"

definition live_ends :: "(nat \<times> nat) list \<Rightarrow> nat \<Rightarrow> nat list" where
  "live_ends xs t = sort (map snd (filter (\<lambda>(b, e). t < e) xs))"

definition bi_inv :: "(nat \<times> nat) list \<Rightarrow> BusyIntervalUnion \<Rightarrow> bool" where
  "bi_inv xs s \<longleftrightarrow>
     bi_hasInterval s = (xs \<noteq> []) \<and> (xs = [] \<longrightarrow> bi_mergedEnd s = 0) \<and>
     (\<forall>(b, e) \<in> set xs. b < e \<and> bi_firstStart s \<le> b \<and> b \<le> bi_lastStart s \<and> e \<le> bi_mergedEnd s) \<and>
     (xs \<noteq> [] \<longrightarrow> bi_firstStart s \<le> bi_lastStart s \<and> bi_lastStart s < bi_mergedEnd s) \<and>
     bi_lastEnd s = bi_mergedEnd s \<and>
     card (covered xs) = bi_unionCycles s \<and>
     bi_unionCycles s + bi_idleCycles s = bi_mergedEnd s - bi_firstStart s \<and>
     {bi_lastStart s..<bi_mergedEnd s} \<subseteq> covered xs \<and>
     bi_activeEnds s = live_ends xs (bi_lastStart s) \<and>
     (\<forall>t. overlap xs t \<le> bi_maxConcurrency s) \<and>
     (\<exists>t. overlap xs t = bi_maxConcurrency s) \<and>
     bi_operations s = length xs"

lemma bi_popExpired_filter: "sorted es \<Longrightarrow> bi_popExpired t es = filter (\<lambda>e. t < e) es"
  by (induction es) (auto simp: filter_empty_conv intro!: filter_True [symmetric])

lemma covered_Nil [simp]: "covered [] = {}"
  by (simp add: covered_def)

lemma covered_Cons [simp]: "covered ((b, e) # xs) = {b..<e} \<union> covered xs"
  by (auto simp: covered_def)

lemma covered_snoc [simp]: "covered (xs @ [(b, e)]) = covered xs \<union> {b..<e}"
  by (auto simp: covered_def)

lemma covered_finite [simp]: "finite (covered xs)"
  by (auto simp: covered_def)

lemma overlap_snoc [simp]:
  "overlap (xs @ [(b, e)]) t = overlap xs t + (if b \<le> t \<and> t < e then 1 else 0)"
  by (simp add: overlap_def)

lemma sorted_live_ends [simp]: "sorted (live_ends xs t)"
  by (simp add: live_ends_def)

lemma live_ends_filter:
  assumes "t \<le> u"
  shows "filter (\<lambda>e. u < e) (live_ends xs t) = live_ends xs u"
proof -
  have "filter (\<lambda>e. u < e) (live_ends xs t)
      = sort (filter (\<lambda>e. u < e) (map snd (filter (\<lambda>(b, e). t < e) xs)))"
    by (simp add: live_ends_def filter_sort)
  also have "filter (\<lambda>e. u < e) (map snd (filter (\<lambda>(b, e). t < e) xs))
      = map snd (filter (\<lambda>(b, e). u < e) xs)"
    using assms by (induction xs) auto
  finally show ?thesis by (simp add: live_ends_def)
qed

lemma live_ends_snoc:
  "live_ends (xs @ [(b, e)]) t = (if t < e then insort e (live_ends xs t) else live_ends xs t)"
  by (auto simp: live_ends_def sorted_insort intro!: properties_for_sort)

lemma length_live_ends: "length (live_ends xs t) = length (filter (\<lambda>(b, e). t < e) xs)"
  by (simp add: live_ends_def)

lemma overlap_le_live: "overlap xs t \<le> length (live_ends xs t)"
  by (auto simp: overlap_def length_live_ends intro!: length_filter_mono)

lemma live_ends_antimono: "t \<le> u \<Longrightarrow> length (live_ends xs u) \<le> length (live_ends xs t)"
  by (auto simp: length_live_ends intro!: length_filter_mono)

lemma overlap_eq_live:
  assumes "\<forall>(b, e) \<in> set xs. b \<le> t"
  shows "overlap xs t = length (live_ends xs t)"
  unfolding overlap_def length_live_ends using assms by (auto intro!: length_filter_cong)

lemma card_union_interval:
  assumes "finite A" "\<And>x. x \<in> A \<Longrightarrow> x < m"
  shows "card (A \<union> {m..<(e::nat)}) = card A + (e - m)"
proof -
  have "A \<inter> {m..<e} = {}" using assms(2) by force
  with assms(1) show ?thesis by (simp add: card_Un_disjoint)
qed

subsection \<open>One accepted interval\<close>

text \<open>The peak: the overlap seen at a new start is the size of the heap after the push.\<close>

lemma bi_peak_step:
  assumes starts: "\<forall>(b', e') \<in> set xs. b' \<le> b" and "b < e"
    and bound: "\<forall>t. overlap xs t \<le> m" and hit: "\<exists>t. overlap xs t = m"
  shows "(\<forall>t. overlap (xs @ [(b, e)]) t \<le> max m (Suc (length (live_ends xs b)))) \<and>
         (\<exists>t. overlap (xs @ [(b, e)]) t = max m (Suc (length (live_ends xs b))))"
proof -
  let ?n = "Suc (length (live_ends xs b))"
  have at_b: "overlap (xs @ [(b, e)]) b = ?n"
    using starts \<open>b < e\<close> by (simp add: overlap_eq_live)
  have le: "overlap (xs @ [(b, e)]) t \<le> max m ?n" for t
  proof (cases "b \<le> t \<and> t < e")
    case True
    then have "overlap xs t \<le> length (live_ends xs b)"
      using overlap_le_live [of xs t] live_ends_antimono [of b t xs] by linarith
    with True show ?thesis by simp
  next
    case False
    with bound show ?thesis by (auto simp: le_max_iff_disj)
  qed
  moreover have "\<exists>t. overlap (xs @ [(b, e)]) t = max m ?n"
  proof (cases "m \<le> ?n")
    case True
    with at_b show ?thesis by (metis max.absorb2)
  next
    case False
    from hit obtain t where t: "overlap xs t = m" ..
    with le [of t] False have "overlap (xs @ [(b, e)]) t = max m ?n"
      by (auto split: if_splits)
    then show ?thesis ..
  qed
  ultimately show ?thesis by blast
qed

lemma bi_cover_bound:
  assumes "\<forall>(b, e) \<in> set xs. f \<le> b \<and> e \<le> m" "x \<in> covered xs"
  shows "f \<le> x \<and> x < m"
  using assms by (fastforce simp: covered_def)

text \<open>
  The union: \<open>l\<close> is the last start, \<open>m\<close> the merged end.  An interval that touches the merged
  block extends it by what lies beyond \<open>m\<close>; a later one is disjoint.
\<close>

lemma bi_union_step:
  assumes cov: "\<forall>(b', e') \<in> set xs. f \<le> b' \<and> e' \<le> m" and tail: "{l..<m} \<subseteq> covered xs"
    and "l \<le> b" "b < e"
  shows "b \<le> m \<Longrightarrow> m < e \<Longrightarrow> card (covered xs \<union> {b..<e}) = card (covered xs) + (e - m)"
    and "b \<le> m \<Longrightarrow> e \<le> m \<Longrightarrow> covered xs \<union> {b..<e} = covered xs"
    and "m < b \<Longrightarrow> card (covered xs \<union> {b..<e}) = card (covered xs) + (e - b)"
proof -
  have lt: "x \<in> covered xs \<Longrightarrow> x < m" for x using bi_cover_bound [OF cov] by blast
  show "card (covered xs \<union> {b..<e}) = card (covered xs) + (e - m)" if "b \<le> m" "m < e"
  proof -
    have "covered xs \<union> {b..<e} = covered xs \<union> {m..<e}"
    proof -
      have "{b..<e} = {b..<m} \<union> {m..<e}" using that by auto
      moreover have "{b..<m} \<subseteq> covered xs" using tail \<open>l \<le> b\<close> by fastforce
      ultimately show ?thesis by blast
    qed
    then show ?thesis using lt by (simp add: card_union_interval)
  qed
  show "covered xs \<union> {b..<e} = covered xs" if "b \<le> m" "e \<le> m"
    using tail \<open>l \<le> b\<close> that by fastforce
  show "card (covered xs \<union> {b..<e}) = card (covered xs) + (e - b)" if "m < b"
    using lt that by (intro card_union_interval) force+
qed

lemma bi_add_accept:
  assumes inv: "bi_inv xs s" and ok: "bi_add b e s = (True, s')"
  shows "bi_inv (xs @ [(b, e)]) s'"
proof -
  from ok have s': "s' = snd (bi_add b e s)" by simp
  from ok have be: "b < e" and order: "bi_hasInterval s \<longrightarrow> bi_lastStart s \<le> b"
    by (auto simp: bi_add_def Let_def split: if_splits)
  have starts: "\<forall>(b', e') \<in> set xs. b' \<le> b"
    using inv order by (fastforce simp: bi_inv_def)
  have act: "insort e (bi_popExpired b (bi_activeEnds s)) = live_ends (xs @ [(b, e)]) b"
  proof (cases "xs = []")
    case True
    with inv be show ?thesis by (simp add: bi_inv_def live_ends_def)
  next
    case False
    with inv order have "bi_lastStart s \<le> b" by (simp add: bi_inv_def)
    with inv be show ?thesis
      by (simp add: bi_inv_def bi_popExpired_filter live_ends_filter live_ends_snoc)
  qed
  have len: "length (live_ends (xs @ [(b, e)]) b) = Suc (length (live_ends xs b))"
    using be by (simp add: live_ends_snoc)
  have acc: "\<not> (e \<le> b \<or> (bi_hasInterval s \<and> b < bi_lastStart s))" using be order by auto
  have eqs: "bi_lastStart s' = b" "bi_activeEnds s' = live_ends (xs @ [(b, e)]) b"
    "bi_maxConcurrency s' = max (bi_maxConcurrency s) (Suc (length (live_ends xs b)))"
    unfolding s' bi_add_def if_not_P [OF acc] Let_def act by (simp_all add: bi_merge_def len)
  have peak: "(\<forall>t. overlap (xs @ [(b, e)]) t \<le> bi_maxConcurrency s') \<and>
              (\<exists>t. overlap (xs @ [(b, e)]) t = bi_maxConcurrency s')"
    unfolding eqs using bi_peak_step [OF starts be, of "bi_maxConcurrency s"] inv
    by (simp add: bi_inv_def)
  have active: "bi_activeEnds s' = live_ends (xs @ [(b, e)]) (bi_lastStart s')"
    by (simp add: eqs)
  show ?thesis
  proof (cases "xs = []")
    case True
    then have eq: "bi_hasInterval s'" "bi_firstStart s' = b" "bi_lastStart s' = b"
      "bi_mergedEnd s' = e" "bi_lastEnd s' = e" "bi_operations s' = 1"
      "bi_unionCycles s' = e - b" "bi_idleCycles s' = 0"
      unfolding s' bi_add_def if_not_P [OF acc] Let_def using inv
      by (auto simp: bi_merge_def bi_inv_def)
    from True be active peak show ?thesis by (simp add: bi_inv_def eq)
  next
    case False
    with inv order have l: "bi_lastStart s \<le> b" and has: "bi_hasInterval s"
      by (simp_all add: bi_inv_def)
    have cov: "\<forall>(b', e') \<in> set xs. bi_firstStart s \<le> b' \<and> e' \<le> bi_mergedEnd s"
      and tail: "{bi_lastStart s..<bi_mergedEnd s} \<subseteq> covered xs"
      and rest: "\<forall>(b', e') \<in> set xs. b' < e' \<and> b' \<le> bi_lastStart s"
        "bi_firstStart s \<le> bi_lastStart s" "bi_lastStart s < bi_mergedEnd s"
        "bi_lastEnd s = bi_mergedEnd s" "card (covered xs) = bi_unionCycles s"
        "bi_unionCycles s + bi_idleCycles s = bi_mergedEnd s - bi_firstStart s"
        "bi_operations s = length xs"
      using inv False by (auto simp: bi_inv_def)
    have eq: "bi_hasInterval s'" "bi_firstStart s' = bi_firstStart s" "bi_lastStart s' = b"
      "bi_mergedEnd s' = max (bi_mergedEnd s) e" "bi_lastEnd s' = max (bi_lastEnd s) e"
      "bi_operations s' = Suc (bi_operations s)"
      "bi_unionCycles s' = bi_unionCycles s + (e - max b (bi_mergedEnd s))"
      "bi_idleCycles s' = bi_idleCycles s + (b - bi_mergedEnd s)"
      unfolding s' bi_add_def if_not_P [OF acc] Let_def using has be
      by (simp_all add: bi_merge_def max_def)
    have card: "card (covered xs \<union> {b..<e}) = bi_unionCycles s'"
      using bi_union_step [OF cov tail l be] rest(5) unfolding eq
      by (cases "b \<le> bi_mergedEnd s"; cases "bi_mergedEnd s < e") (simp_all add: max_def)
    have "{b..<bi_mergedEnd s} \<subseteq> covered xs"
      by (rule order_trans [OF _ tail]) (simp add: l)
    then have tail': "{b..<max (bi_mergedEnd s) e} \<subseteq> covered xs \<union> {b..<e}"
      by (auto simp: less_max_iff_disj)
    have ends: "\<forall>(b', e') \<in> set (xs @ [(b, e)]). b' < e' \<and> bi_firstStart s \<le> b' \<and> b' \<le> b \<and>
        e' \<le> max (bi_mergedEnd s) e"
      using cov rest(1,2) l be by (fastforce simp: max_def)
    have "bi_firstStart s \<le> b" "b < max (bi_mergedEnd s) e"
      using rest(2) l be by (simp_all add: less_max_iff_disj)
    moreover have "bi_unionCycles s' + bi_idleCycles s' = max (bi_mergedEnd s) e - bi_firstStart s"
      unfolding eq using rest(2,3,6) l be by arith
    ultimately show ?thesis
      unfolding bi_inv_def using eq card tail' ends active peak rest(4,7) by simp
  qed
qed

lemma bi_init_inv: "bi_inv [] bi_init"
  by (simp add: bi_inv_def bi_init_def live_ends_def overlap_def)

lemma bi_add_reject: "bi_add b e s = (False, s') \<Longrightarrow> s' = s"
  by (auto simp: bi_add_def Let_def split: if_splits)

lemma bi_run_inv:
  assumes "bi_inv xs s" "bi_run ys s = (acc, t)"
  shows "bi_inv (xs @ acc) t"
  using assms
proof (induction ys s arbitrary: xs acc rule: bi_run.induct)
  case (1 s)
  then show ?case by simp
next
  case (2 b e ys s)
  obtain ok s' where add: "bi_add b e s = (ok, s')" by fastforce
  obtain acc' where run: "bi_run ys s' = (acc', t)" and acc: "acc = (if ok then (b, e) # acc' else acc')"
    using "2.prems"(2) add by (auto split: prod.splits)
  show ?case
  proof (cases ok)
    case True
    with add "2.prems"(1) have "bi_inv (xs @ [(b, e)]) s'" by (simp add: bi_add_accept)
    with "2.IH" [OF add [symmetric], of "xs @ [(b, e)]" acc'] run acc True show ?thesis by simp
  next
    case False
    with add have "s' = s" by (simp add: bi_add_reject)
    with "2.IH" [OF add [symmetric], of xs acc'] run acc False "2.prems"(1) show ?thesis by simp
  qed
qed

subsection \<open>The contract a single-issue port relies on\<close>

text \<open>
  A port that serves one request per cycle records its busy cycles in a meter.  The contract:
  when everything recorded so far has ended by cycle \<open>t\<close> (\<open>quiet\<close>), an interval that starts at
  \<open>t\<close> or later is accepted and the peak concurrency does not exceed one because of it.
\<close>

locale interval_recorder =
  fixes add :: "nat \<Rightarrow> nat \<Rightarrow> 'm \<Rightarrow> bool \<times> 'm"
    and quiet :: "'m \<Rightarrow> nat \<Rightarrow> bool"
    and peak :: "'m \<Rightarrow> nat"
    and fresh :: 'm
  assumes fresh_quiet: "quiet fresh t" and fresh_peak: "peak fresh = 0"
    and add_quiet: "quiet m t \<Longrightarrow> t \<le> b \<Longrightarrow> b < e \<Longrightarrow> fst (add b e m) \<and> quiet (snd (add b e m)) e"
    and add_peak: "quiet m t \<Longrightarrow> t \<le> b \<Longrightarrow> b < e \<Longrightarrow> peak (snd (add b e m)) = max (peak m) 1"
begin

text \<open>The port: a cycle counter of the first free cycle, and its meter.\<close>

definition port_ok :: "nat \<Rightarrow> 'm \<Rightarrow> bool" where
  "port_ok nxt m \<longleftrightarrow> quiet m nxt \<and> peak m \<le> 1"

lemma port_fresh: "port_ok t fresh"
  by (simp add: port_ok_def fresh_quiet fresh_peak)

lemma port_issue:
  assumes "port_ok nxt m" "start = max cursor nxt"
  shows "fst (add start (start + 1) m) \<and> port_ok (start + 1) (snd (add start (start + 1) m))"
  using assms add_quiet [of m nxt start "start + 1"] add_peak [of m nxt start "start + 1"]
  by (simp add: port_ok_def)

lemma port_peak: "port_ok nxt m \<Longrightarrow> peak m \<le> 1"
  by (simp add: port_ok_def)

end

definition bi_quiet :: "BusyIntervalUnion \<Rightarrow> nat \<Rightarrow> bool" where
  "bi_quiet s t \<longleftrightarrow> (bi_hasInterval s \<longrightarrow> bi_lastStart s \<le> t) \<and> (\<forall>e \<in> set (bi_activeEnds s). e \<le> t)"

lemma bi_popExpired_all: "\<forall>e \<in> set es. e \<le> b \<Longrightarrow> bi_popExpired b es = []"
  by (induction es) auto

interpretation port: interval_recorder bi_add bi_quiet bi_maxConcurrency bi_init
proof
  fix s t b e assume q: "bi_quiet s t" and "t \<le> b" "b < e"
  then have acc: "\<not> (e \<le> b \<or> (bi_hasInterval s \<and> b < bi_lastStart s))"
    and pop: "bi_popExpired b (bi_activeEnds s) = []"
    by (auto simp: bi_quiet_def intro!: bi_popExpired_all)
  show "fst (bi_add b e s) \<and> bi_quiet (snd (bi_add b e s)) e"
    unfolding bi_add_def if_not_P [OF acc] Let_def pop using \<open>b < e\<close>
    by (simp add: bi_merge_def bi_quiet_def)
  show "bi_maxConcurrency (snd (bi_add b e s)) = max (bi_maxConcurrency s) 1"
    unfolding bi_add_def if_not_P [OF acc] Let_def pop by (simp add: bi_merge_def)
qed (simp_all add: bi_quiet_def bi_init_def)

section \<open>BusyActivityTracker\<close>

record BusyActivityTracker =
  ba_hasEvent :: bool
  ba_hasSpan :: bool
  ba_active :: nat
  ba_maxConcurrency :: nat
  ba_firstCycle :: nat
  ba_openCycle :: nat
  ba_lastCloseCycle :: nat
  ba_lastEventCycle :: nat
  ba_unionCyclesClosed :: nat

definition ba_init :: BusyActivityTracker where
  "ba_init = \<lparr>ba_hasEvent = False, ba_hasSpan = False, ba_active = 0, ba_maxConcurrency = 0,
     ba_firstCycle = 0, ba_openCycle = 0, ba_lastCloseCycle = 0, ba_lastEventCycle = 0,
     ba_unionCyclesClosed = 0\<rparr>"

definition ba_enter :: "nat \<Rightarrow> BusyActivityTracker \<Rightarrow> bool \<times> BusyActivityTracker" where
  "ba_enter cycle s =
     (if ba_hasEvent s \<and> cycle < ba_lastEventCycle s then (False, s)
      else
        (let s1 = s\<lparr>ba_hasEvent := True, ba_lastEventCycle := cycle\<rparr>;
             s2 = (if ba_active s1 = 0 then
                     (let s' = s1\<lparr>ba_openCycle := cycle\<rparr>
                      in if \<not> ba_hasSpan s' then s'\<lparr>ba_firstCycle := cycle, ba_hasSpan := True\<rparr>
                         else s')
                   else s1);
             s3 = s2\<lparr>ba_active := ba_active s2 + 1\<rparr>
         in (True, s3\<lparr>ba_maxConcurrency := max (ba_maxConcurrency s3) (ba_active s3)\<rparr>)))"

definition ba_leave :: "nat \<Rightarrow> BusyActivityTracker \<Rightarrow> bool \<times> BusyActivityTracker" where
  "ba_leave cycle s =
     (if ba_active s = 0 \<or> (ba_hasEvent s \<and> cycle < ba_lastEventCycle s) then (False, s)
      else
        (let s1 = s\<lparr>ba_lastEventCycle := cycle, ba_active := ba_active s - 1\<rparr>
         in (True,
             if ba_active s1 = 0 then
               s1\<lparr>ba_unionCyclesClosed := ba_unionCyclesClosed s1 + sub64 cycle (ba_openCycle s1),
                  ba_lastCloseCycle := cycle\<rparr>
             else s1)))"

definition ba_unionCycles :: "nat \<Rightarrow> BusyActivityTracker \<Rightarrow> nat" where
  "ba_unionCycles now s =
     (if ba_active s = 0 then ba_unionCyclesClosed s
      else sub64 (ba_unionCyclesClosed s + max now (ba_lastEventCycle s)) (ba_openCycle s))"

definition ba_spanCycles :: "nat \<Rightarrow> BusyActivityTracker \<Rightarrow> nat" where
  "ba_spanCycles now s =
     (if \<not> ba_hasSpan s then 0
      else sub64 (if ba_active s = 0 then ba_lastCloseCycle s else max now (ba_lastEventCycle s))
             (ba_firstCycle s))"

definition ba_idleCycles :: "nat \<Rightarrow> BusyActivityTracker \<Rightarrow> nat" where
  "ba_idleCycles now s = sub64 (ba_spanCycles now s) (ba_unionCycles now s)"

datatype activity = Enter nat | Leave nat

fun ba_step :: "activity \<Rightarrow> BusyActivityTracker \<Rightarrow> bool \<times> BusyActivityTracker" where
  "ba_step (Enter c) s = ba_enter c s"
| "ba_step (Leave c) s = ba_leave c s"

fun ba_run :: "activity list \<Rightarrow> BusyActivityTracker \<Rightarrow> activity list \<times> BusyActivityTracker" where
  "ba_run [] s = ([], s)"
| "ba_run (a # as) s =
     (case ba_step a s of (ok, s') \<Rightarrow>
        (case ba_run as s' of (acc, t) \<Rightarrow> (if ok then a # acc else acc, t)))"

subsection \<open>What the tracker measures\<close>

text \<open>\<open>depth log t\<close> is the number of activities entered and not left by cycle \<open>t\<close>.\<close>

fun depth :: "activity list \<Rightarrow> nat \<Rightarrow> int" where
  "depth [] t = 0"
| "depth (Enter c # as) t = depth as t + (if c \<le> t then 1 else 0)"
| "depth (Leave c # as) t = depth as t - (if c \<le> t then 1 else 0)"

fun cycle_of :: "activity \<Rightarrow> nat" where
  "cycle_of (Enter c) = c"
| "cycle_of (Leave c) = c"

definition busy_until :: "activity list \<Rightarrow> nat \<Rightarrow> nat set" where
  "busy_until log n = {t. t < n \<and> 0 < depth log t}"

lemma depth_append [simp]: "depth (as @ bs) t = depth as t + depth bs t"
  by (induction as t rule: depth.induct) auto

definition ba_inv :: "activity list \<Rightarrow> BusyActivityTracker \<Rightarrow> bool" where
  "ba_inv log s \<longleftrightarrow>
     (\<forall>a \<in> set log. cycle_of a \<le> ba_lastEventCycle s) \<and>
     (\<forall>t \<ge> ba_lastEventCycle s. depth log t = int (ba_active s)) \<and>
     (ba_hasEvent s = (log \<noteq> [])) \<and> (ba_hasSpan s = (log \<noteq> [])) \<and>
     (\<not> ba_hasEvent s \<longrightarrow> ba_active s = 0 \<and> ba_unionCyclesClosed s = 0 \<and> ba_lastEventCycle s = 0) \<and>
     card (busy_until log (ba_lastEventCycle s)) =
       ba_unionCyclesClosed s + (if ba_active s = 0 then 0 else ba_lastEventCycle s - ba_openCycle s) \<and>
     (ba_active s \<noteq> 0 \<longrightarrow> ba_openCycle s \<le> ba_lastEventCycle s \<and>
        ba_firstCycle s + ba_unionCyclesClosed s \<le> ba_openCycle s) \<and>
     (ba_active s = 0 \<and> ba_hasSpan s \<longrightarrow> ba_lastCloseCycle s = ba_lastEventCycle s \<and>
        ba_firstCycle s + ba_unionCyclesClosed s \<le> ba_lastCloseCycle s)"

lemma busy_until_extend:
  assumes "\<forall>t \<ge> m. depth log t = int a" "m \<le> n"
  shows "card (busy_until log n) = card (busy_until log m) + (if a = 0 then 0 else n - m)"
proof (cases "a = 0")
  case True
  with assms have "busy_until log n = busy_until log m"
    unfolding busy_until_def by (auto simp: not_less intro: ccontr)
  with True show ?thesis by simp
next
  case False
  with assms have "busy_until log n = busy_until log m \<union> {m..<n}"
    unfolding busy_until_def by (auto simp: not_less)
  moreover have "card (busy_until log m \<union> {m..<n}) = card (busy_until log m) + (n - m)"
    by (rule card_union_interval) (auto simp: busy_until_def)
  ultimately show ?thesis using False by simp
qed

lemma busy_until_snoc:
  assumes "n \<le> cycle_of a"
  shows "busy_until (log @ [a]) n = busy_until log n"
  using assms by (cases a) (auto simp: busy_until_def)

lemma ba_enter_inv:
  assumes inv: "ba_inv log s" and ok: "\<not> (ba_hasEvent s \<and> c < ba_lastEventCycle s)"
  shows "ba_inv (log @ [Enter c]) (snd (ba_enter c s))"
proof -
  from inv ok have mono: "ba_lastEventCycle s \<le> c"
    by (cases "ba_hasEvent s") (simp_all add: ba_inv_def)
  note depth = busy_until_extend [of "ba_lastEventCycle s" log "ba_active s" c]
  have busy: "card (busy_until (log @ [Enter c]) c) =
      ba_unionCyclesClosed s + (if ba_active s = 0 then 0 else c - ba_openCycle s)"
    using depth inv mono by (auto simp: ba_inv_def busy_until_snoc)
  show ?thesis
  proof (cases "ba_active s = 0")
    case True
    with inv ok mono busy show ?thesis
      unfolding ba_enter_def if_not_P [OF ok] Let_def by (fastforce simp: ba_inv_def)
  next
    case False
    with inv ok mono busy show ?thesis
      unfolding ba_enter_def if_not_P [OF ok] Let_def by (fastforce simp: ba_inv_def)
  qed
qed

lemma ba_leave_inv:
  assumes inv: "ba_inv log s"
    and ok: "\<not> (ba_active s = 0 \<or> (ba_hasEvent s \<and> c < ba_lastEventCycle s))"
  shows "ba_inv (log @ [Leave c]) (snd (ba_leave c s))"
proof -
  from inv ok have mono: "ba_lastEventCycle s \<le> c" and has: "ba_hasEvent s" and act: "ba_active s \<noteq> 0"
    by (auto simp: ba_inv_def)
  note depth = busy_until_extend [of "ba_lastEventCycle s" log "ba_active s" c]
  have busy: "card (busy_until (log @ [Leave c]) c) = ba_unionCyclesClosed s + (c - ba_openCycle s)"
    using depth inv mono act by (auto simp: ba_inv_def busy_until_snoc)
  show ?thesis
  proof (cases "ba_active s = 1")
    case True
    with inv ok mono busy has act show ?thesis
      unfolding ba_leave_def if_not_P [OF ok] Let_def by (fastforce simp: ba_inv_def)
  next
    case False
    with inv ok mono busy has act show ?thesis
      unfolding ba_leave_def if_not_P [OF ok] Let_def by (fastforce simp: ba_inv_def)
  qed
qed

lemma ba_step_inv:
  assumes "ba_inv log s" "ba_step a s = (ok, s')"
  shows "ba_inv (if ok then log @ [a] else log) s'"
proof (cases a)
  case (Enter c)
  show ?thesis
  proof (cases "ba_hasEvent s \<and> c < ba_lastEventCycle s")
    case True
    with assms Enter show ?thesis by (auto simp: ba_enter_def)
  next
    case False
    moreover from False have "fst (ba_enter c s)" by (auto simp: ba_enter_def Let_def)
    ultimately show ?thesis using assms Enter ba_enter_inv [OF assms(1), of c] by auto
  qed
next
  case (Leave c)
  show ?thesis
  proof (cases "ba_active s = 0 \<or> (ba_hasEvent s \<and> c < ba_lastEventCycle s)")
    case True
    with assms Leave show ?thesis by (auto simp: ba_leave_def)
  next
    case False
    moreover from False have "fst (ba_leave c s)" by (auto simp: ba_leave_def Let_def)
    ultimately show ?thesis using assms Leave ba_leave_inv [OF assms(1), of c] by auto
  qed
qed

lemma ba_init_inv: "ba_inv [] ba_init"
  by (simp add: ba_inv_def ba_init_def busy_until_def)

lemma ba_run_inv:
  assumes "ba_inv log s" "ba_run as s = (acc, t)"
  shows "ba_inv (log @ acc) t"
  using assms
proof (induction as s arbitrary: log acc rule: ba_run.induct)
  case (1 s)
  then show ?case by simp
next
  case (2 a as s)
  obtain ok s' where st: "ba_step a s = (ok, s')" by fastforce
  obtain acc' where run: "ba_run as s' = (acc', t)" and acc: "acc = (if ok then a # acc' else acc')"
    using "2.prems"(2) st by (auto split: prod.splits)
  have "ba_inv (if ok then log @ [a] else log) s'" by (rule ba_step_inv [OF "2.prems"(1) st])
  from "2.IH" [OF st [symmetric] this run] acc show ?case by (simp split: if_splits)
qed

lemma ba_inv_measures:
  assumes inv: "ba_inv log s"
  shows "ba_unionCycles now s = card (busy_until log (max now (ba_lastEventCycle s)))"
    and "ba_unionCycles now s \<le> ba_spanCycles now s"
proof -
  have "card (busy_until log (max now (ba_lastEventCycle s))) =
      card (busy_until log (ba_lastEventCycle s)) +
      (if ba_active s = 0 then 0 else max now (ba_lastEventCycle s) - ba_lastEventCycle s)"
    using inv by (intro busy_until_extend) (auto simp: ba_inv_def)
  then show "ba_unionCycles now s = card (busy_until log (max now (ba_lastEventCycle s)))"
    using inv by (auto simp: ba_unionCycles_def ba_inv_def)
  show "ba_unionCycles now s \<le> ba_spanCycles now s"
  proof (cases "ba_active s = 0")
    case True
    with inv show ?thesis by (auto simp: ba_unionCycles_def ba_spanCycles_def ba_inv_def)
  next
    case False
    with inv have "ba_hasSpan s" "ba_openCycle s \<le> max now (ba_lastEventCycle s)"
      "ba_firstCycle s + ba_unionCyclesClosed s \<le> ba_openCycle s"
      by (auto simp: ba_inv_def)
    with False show ?thesis by (simp add: ba_unionCycles_def ba_spanCycles_def)
  qed
qed

section \<open>Properties\<close>

text \<open>
  (C19) Whatever intervals a caller feeds to a fresh \<open>BusyIntervalUnion\<close>, the meter reports
  exactly the number of distinct cycles covered by the accepted intervals; busy and idle
  cycles add up to the span; the reported peak concurrency is an upper bound on the number
  of accepted intervals alive at any cycle and is reached at some cycle; and the operation
  count is the number of accepted intervals.
\<close>

theorem busy_interval_union_exact:
  "case bi_run xs bi_init of (acc, s) \<Rightarrow>
     bi_unionCycles s = card (covered acc) \<and>
     bi_spanCycles s = bi_unionCycles s + bi_idleCycles s \<and>
     (\<forall>t. overlap acc t \<le> bi_maxConcurrency s) \<and>
     (\<exists>t. overlap acc t = bi_maxConcurrency s) \<and>
     bi_operations s = length acc"
proof -
  obtain acc s where run: "bi_run xs bi_init = (acc, s)" by fastforce
  from bi_run_inv [OF bi_init_inv run] have inv: "bi_inv acc s" by simp
  have "bi_spanCycles s = bi_unionCycles s + bi_idleCycles s"
    using inv by (cases "acc = []") (auto simp: bi_spanCycles_def bi_inv_def)
  with inv run show ?thesis by (simp add: bi_inv_def)
qed

text \<open>
  (C20) A \<open>BusyActivityTracker\<close> fed any sequence of enter and leave events counts, at every
  query time, exactly the cycles at which more activities had been entered than left, and its
  idle figure never underflows: union and idle cycles add up to the span.
\<close>

theorem busy_activity_tracker_exact:
  "case ba_run as ba_init of (log, s) \<Rightarrow>
     ba_unionCycles now s = card (busy_until log (max now (ba_lastEventCycle s))) \<and>
     ba_unionCycles now s + ba_idleCycles now s = ba_spanCycles now s"
proof -
  obtain log s where run: "ba_run as ba_init = (log, s)" by fastforce
  from ba_run_inv [OF ba_init_inv run] have "ba_inv log s" by simp
  note m = ba_inv_measures [OF this, of now]
  from m(2) have "ba_unionCycles now s + ba_idleCycles now s = ba_spanCycles now s"
    by (simp add: ba_idleCycles_def)
  with m(1) run show ?thesis by simp
qed

end
