(* ===== verification/O_Accumulator.thy ===== *)
theory O_Accumulator
  imports Cluster_Config Busy_Trackers Ieee_Formats
begin

text \<open>
  \<open>AttentionOAccumulator\<close> of \<open>attention/attentionCluster.h\<close>: four contexts, each a
  16 x 8 x 16 block of \<open>float\<close> values that accumulates one product tile after the other
  (\<open>O := alpha * O + value\<close>), a shared read port, ALU port and write port that serve one
  request per cycle, and a map of pending operations that commit when their cycle comes.  The
  theorems show that what a drain returns is the left fold of every accepted contribution, in
  order, that no completion of a live context fails, and that the ports are never
  double-booked.
\<close>

section \<open>State\<close>

definition kContexts :: nat where "kContexts = 4"
definition kRows :: nat where "kRows = 16"
definition kPanels :: nat where "kPanels = 8"
definition kValuesPerSegment :: nat where "kValuesPerSegment = 16"
definition kValuesPerContext :: nat where "kValuesPerContext = kRows * kPanels * kValuesPerSegment"
definition kFmaLanes :: nat where "kFmaLanes = 16"
definition kRowFmaLanes :: nat where "kRowFmaLanes = kPanels * kFmaLanes"
definition fmaLatency :: nat where "fmaLatency = 2"
definition addLatency :: nat where "addLatency = 2"

lemmas oa_consts = kContexts_def kRows_def kPanels_def kValuesPerSegment_def kValuesPerContext_def
  kFmaLanes_def kRowFmaLanes_def

record OCompletion =
  co_id :: nat
  co_ok :: bool
  co_drain :: bool
  co_slot :: nat
  co_tag :: AttentionClusterTag
  co_values :: "f32 list"

record OContext =
  oc_valid :: bool
  oc_draining :: bool
  oc_tag :: AttentionClusterTag
  oc_keyTiles :: u32
  oc_expectedKeyTile :: u32
  oc_committedSegments :: nat
  oc_values :: "f32 list"
  oc_segmentState :: "nat list"

record OPending =
  pe_id :: nat
  pe_readyCycle :: nat
  pe_slot :: nat
  pe_tag :: AttentionClusterTag
  pe_kvTileIndex :: u32
  pe_row :: nat
  pe_panel :: nat
  pe_alpha :: f32
  pe_drain :: bool
  pe_rowFused :: bool
  pe_values :: "f32 list"
  pe_rowValues :: "f32 list"

record OAccumulator =
  oa_nextId :: nat
  oa_nextReadCycle :: nat
  oa_nextWriteCycle :: nat
  oa_nextAluCycle :: nat
  oa_bankReadyCycle :: "nat list"
  oa_contexts :: "OContext list"
  oa_pending :: "OPending list"
  oa_occupied :: nat
  oa_highWater :: nat
  oa_scaleOperations :: nat
  oa_accumulateOperations :: nat
  oa_rowOperations :: nat
  oa_drainOperations :: nat
  oa_readWaitCycles :: nat
  oa_writeWaitCycles :: nat
  oa_aluWaitCycles :: nat
  oa_bankConflictCycles :: nat
  oa_drainWaitCycles :: nat
  oa_readIntervals :: BusyIntervalUnion
  oa_writeIntervals :: BusyIntervalUnion
  oa_aluIntervals :: BusyIntervalUnion
  oa_intervalOrderValid :: bool

definition oc_init :: OContext where
  "oc_init = \<lparr>oc_valid = False, oc_draining = False, oc_tag = tag_init, oc_keyTiles = 0,
     oc_expectedKeyTile = 0, oc_committedSegments = 0,
     oc_values = replicate kValuesPerContext 0,
     oc_segmentState = replicate (kRows * kPanels) 0\<rparr>"

definition pe_init :: OPending where
  "pe_init = \<lparr>pe_id = 0, pe_readyCycle = 0, pe_slot = 0, pe_tag = tag_init, pe_kvTileIndex = 0,
     pe_row = 0, pe_panel = 0, pe_alpha = 0x3f800000, pe_drain = False, pe_rowFused = False,
     pe_values = replicate kValuesPerSegment 0, pe_rowValues = replicate kRowFmaLanes 0\<rparr>"

definition oa_init :: OAccumulator where
  "oa_init = \<lparr>oa_nextId = 1, oa_nextReadCycle = 0, oa_nextWriteCycle = 0, oa_nextAluCycle = 0,
     oa_bankReadyCycle = replicate kRows 0, oa_contexts = replicate kContexts oc_init,
     oa_pending = [], oa_occupied = 0, oa_highWater = 0, oa_scaleOperations = 0,
     oa_accumulateOperations = 0, oa_rowOperations = 0, oa_drainOperations = 0,
     oa_readWaitCycles = 0, oa_writeWaitCycles = 0, oa_aluWaitCycles = 0,
     oa_bankConflictCycles = 0, oa_drainWaitCycles = 0, oa_readIntervals = bi_init,
     oa_writeIntervals = bi_init, oa_aluIntervals = bi_init, oa_intervalOrderValid = True\<rparr>"

section \<open>Operations\<close>

definition oc_matches :: "OContext list \<Rightarrow> nat \<Rightarrow> AttentionClusterTag \<Rightarrow> bool" where
  "oc_matches cs slot tag \<longleftrightarrow> slot < kContexts \<and> oc_valid (cs ! slot) \<and> tag_eq (oc_tag (cs ! slot)) tag"

definition oa_matches :: "OAccumulator \<Rightarrow> nat \<Rightarrow> AttentionClusterTag \<Rightarrow> bool" where
  "oa_matches s slot tag \<longleftrightarrow> oc_matches (oa_contexts s) slot tag"

definition oa_hasPending :: "OAccumulator \<Rightarrow> nat \<Rightarrow> AttentionClusterTag \<Rightarrow> bool" where
  "oa_hasPending s slot tag \<longleftrightarrow> list_ex (\<lambda>p. pe_slot p = slot \<and> tag_eq (pe_tag p) tag) (oa_pending s)"

definition oa_reserve :: "nat \<Rightarrow> AttentionClusterTag \<Rightarrow> u32 \<Rightarrow> OAccumulator \<Rightarrow> bool \<times> OAccumulator" where
  "oa_reserve slot tag keyTiles s =
     (if slot \<ge> kContexts \<or> tag_generation tag = 0 \<or> keyTiles = 0 \<or> oc_valid (oa_contexts s ! slot)
      then (False, s)
      else
        (let c = (oa_contexts s ! slot)\<lparr>oc_valid := True, oc_tag := tag, oc_keyTiles := keyTiles,
                   oc_values := replicate kValuesPerContext 0,
                   oc_segmentState := replicate (kRows * kPanels) 0\<rparr>;
             s1 = s\<lparr>oa_contexts := (oa_contexts s)[slot := c], oa_occupied := oa_occupied s + 1\<rparr>
         in (True, s1\<lparr>oa_highWater := max (oa_highWater s1) (oa_occupied s1)\<rparr>)))"

text \<open>
  The three ports.  Each grants the first cycle that is neither before the request nor taken,
  charges the wait, and records the busy cycle.
\<close>

definition oa_readPort :: "nat \<Rightarrow> OAccumulator \<Rightarrow> nat \<times> OAccumulator" where
  "oa_readPort cursor s =
     (let start = max cursor (oa_nextReadCycle s)
      in case bi_add start (start + 1) (oa_readIntervals s) of (ok, m) \<Rightarrow>
        (start, s\<lparr>oa_readWaitCycles := oa_readWaitCycles s + (start - cursor),
                  oa_nextReadCycle := start + 1, oa_readIntervals := m,
                  oa_intervalOrderValid := (ok \<and> oa_intervalOrderValid s)\<rparr>))"

definition oa_aluPort :: "nat \<Rightarrow> OAccumulator \<Rightarrow> nat \<times> OAccumulator" where
  "oa_aluPort cursor s =
     (let start = max cursor (oa_nextAluCycle s)
      in case bi_add start (start + 1) (oa_aluIntervals s) of (ok, m) \<Rightarrow>
        (start, s\<lparr>oa_aluWaitCycles := oa_aluWaitCycles s + (start - cursor),
                  oa_nextAluCycle := start + 1, oa_aluIntervals := m,
                  oa_intervalOrderValid := (ok \<and> oa_intervalOrderValid s)\<rparr>))"

definition oa_writePort :: "nat \<Rightarrow> OAccumulator \<Rightarrow> nat \<times> OAccumulator" where
  "oa_writePort cursor s =
     (let start = max cursor (oa_nextWriteCycle s)
      in case bi_add start (start + 1) (oa_writeIntervals s) of (ok, m) \<Rightarrow>
        (start, s\<lparr>oa_writeWaitCycles := oa_writeWaitCycles s + (start - cursor),
                  oa_nextWriteCycle := start + 1, oa_writeIntervals := m,
                  oa_intervalOrderValid := (ok \<and> oa_intervalOrderValid s)\<rparr>))"

text \<open>
  The pipeline shared by \<open>submitSegment\<close> and \<open>submitRow\<close> from the bank-free cycle on: read,
  fused multiply-add and write for a later key tile, add and write for the first one.  The
  result is the cycle of the write.
\<close>

definition oa_pipeline :: "u32 \<Rightarrow> nat \<Rightarrow> nat \<Rightarrow> nat \<Rightarrow> OAccumulator \<Rightarrow> nat \<times> OAccumulator" where
  "oa_pipeline kvTileIndex row scaled cursor s =
     (case (if kvTileIndex \<noteq> 0 then
              (case oa_readPort cursor s of (readStart, s1) \<Rightarrow>
                case oa_aluPort (readStart + 1) s1 of (fmaIssue, s2) \<Rightarrow>
                  (fmaIssue + fmaLatency,
                   s2\<lparr>oa_scaleOperations := oa_scaleOperations s2 + scaled\<rparr>))
            else
              (case oa_aluPort cursor s of (accumulateIssue, s1) \<Rightarrow>
                (accumulateIssue + addLatency, s1)))
      of (cursor', s3) \<Rightarrow>
        case oa_writePort cursor' s3 of (writeStart, s4) \<Rightarrow>
          (writeStart,
           s4\<lparr>oa_bankReadyCycle := (oa_bankReadyCycle s4)[row := writeStart + 1]\<rparr>))"

definition oa_setContext :: "nat \<Rightarrow> OContext \<Rightarrow> OAccumulator \<Rightarrow> OAccumulator" where
  "oa_setContext slot c s = s\<lparr>oa_contexts := (oa_contexts s)[slot := c]\<rparr>"

definition oa_enqueue :: "OPending \<Rightarrow> OAccumulator \<Rightarrow> OAccumulator" where
  "oa_enqueue p s = s\<lparr>oa_nextId := oa_nextId s + 1, oa_pending := emplace_by pe_id p (oa_pending s)\<rparr>"

text \<open>
  The result is the pair stored through \<open>id\<close> and \<open>readyCycle\<close>, or \<open>None\<close> for \<open>false\<close>;
  \<open>nullOut\<close> says that one of these two pointers is null.
\<close>

definition oa_submitSegment ::
  "nat \<Rightarrow> AttentionClusterTag \<Rightarrow> u32 \<Rightarrow> nat \<Rightarrow> nat \<Rightarrow> f32 \<Rightarrow> f32 list \<Rightarrow> nat \<Rightarrow> bool \<Rightarrow>
   OAccumulator \<Rightarrow> (nat \<times> nat) option \<times> OAccumulator" where
  "oa_submitSegment slot tag kvTileIndex row panel alpha values now nullOut s =
     (if \<not> oa_matches s slot tag \<or> row \<ge> kRows \<or> panel \<ge> kPanels \<or>
         length values \<noteq> kValuesPerSegment \<or> \<not> f32_isfinite alpha \<or> nullOut then (None, s)
      else
        (let context = oa_contexts s ! slot;
             segment = row * kPanels + panel
         in if oc_draining context \<or> kvTileIndex \<noteq> oc_expectedKeyTile context \<or>
               oc_segmentState context ! segment \<noteq> 0 then (None, s)
            else
              (let cursor = max now (oa_bankReadyCycle s ! row);
                   s1 = s\<lparr>oa_bankConflictCycles := oa_bankConflictCycles s + (cursor - now)\<rparr>
               in case oa_pipeline kvTileIndex row 1 cursor s1 of (writeStart, s2) \<Rightarrow>
                 (let p = pe_init\<lparr>pe_id := oa_nextId s2, pe_readyCycle := writeStart + 1,
                            pe_slot := slot, pe_tag := tag, pe_kvTileIndex := kvTileIndex,
                            pe_row := row, pe_panel := panel, pe_alpha := alpha,
                            pe_values := values\<rparr>;
                      s3 = oa_setContext slot (context\<lparr>oc_segmentState :=
                             (oc_segmentState context)[segment := 1]\<rparr>) (oa_enqueue p s2)
                  in (Some (pe_id p, pe_readyCycle p),
                      s3\<lparr>oa_accumulateOperations := oa_accumulateOperations s3 + 1\<rparr>)))))"

definition oa_submitRow ::
  "nat \<Rightarrow> AttentionClusterTag \<Rightarrow> u32 \<Rightarrow> nat \<Rightarrow> f32 \<Rightarrow> f32 list \<Rightarrow> nat \<Rightarrow> bool \<Rightarrow>
   OAccumulator \<Rightarrow> (nat \<times> nat) option \<times> OAccumulator" where
  "oa_submitRow slot tag kvTileIndex row alpha values now nullOut s =
     (if \<not> oa_matches s slot tag \<or> row \<ge> kRows \<or> length values \<noteq> kRowFmaLanes \<or>
         \<not> f32_isfinite alpha \<or> nullOut then (None, s)
      else
        (let context = oa_contexts s ! slot;
             firstSegment = row * kPanels
         in if oc_draining context \<or> kvTileIndex \<noteq> oc_expectedKeyTile context \<or>
               list_ex (\<lambda>st. st \<noteq> 0) (get_range firstSegment kPanels (oc_segmentState context))
            then (None, s)
            else
              (let cursor = max now (oa_bankReadyCycle s ! row)
               in case oa_pipeline kvTileIndex row kPanels cursor s of (writeStart, s2) \<Rightarrow>
                 (let p = pe_init\<lparr>pe_id := oa_nextId s2, pe_readyCycle := writeStart + 1,
                            pe_slot := slot, pe_tag := tag, pe_kvTileIndex := kvTileIndex,
                            pe_row := row, pe_rowFused := True, pe_alpha := alpha,
                            pe_rowValues := values\<rparr>;
                      s3 = oa_setContext slot (context\<lparr>oc_segmentState :=
                             fill_range firstSegment kPanels 1 (oc_segmentState context)\<rparr>)
                             (oa_enqueue p s2)
                  in (Some (pe_id p, pe_readyCycle p),
                      s3\<lparr>oa_accumulateOperations := oa_accumulateOperations s3 + kPanels,
                         oa_rowOperations := oa_rowOperations s3 + 1\<rparr>)))))"

text \<open>The drain reads every segment of the context, row by row, through the read port.\<close>

definition oa_drainRead :: "nat \<Rightarrow> nat \<times> OAccumulator \<Rightarrow> nat \<times> OAccumulator" where
  "oa_drainRead row = (\<lambda>(cursor, s).
     (let start = max (max cursor (oa_nextReadCycle s)) (oa_bankReadyCycle s ! row)
      in case bi_add start (start + 1) (oa_readIntervals s) of (ok, m) \<Rightarrow>
        (start + 1,
         s\<lparr>oa_drainWaitCycles := oa_drainWaitCycles s + (start - cursor),
           oa_nextReadCycle := start + 1,
           oa_bankReadyCycle := (oa_bankReadyCycle s)[row := start + 1],
           oa_readIntervals := m,
           oa_intervalOrderValid := (ok \<and> oa_intervalOrderValid s)\<rparr>)))"

definition oa_drainReads :: "nat \<times> OAccumulator \<Rightarrow> nat \<times> OAccumulator" where
  "oa_drainReads cs = fold (\<lambda>row cs. fold (\<lambda>panel. oa_drainRead row) [0..<kPanels] cs) [0..<kRows] cs"

definition oa_requestDrain ::
  "nat \<Rightarrow> AttentionClusterTag \<Rightarrow> nat \<Rightarrow> bool \<Rightarrow> OAccumulator \<Rightarrow> (nat \<times> nat) option \<times> OAccumulator" where
  "oa_requestDrain slot tag now nullOut s =
     (if \<not> oa_matches s slot tag \<or> nullOut then (None, s)
      else
        (let context = oa_contexts s ! slot
         in if oc_draining context \<or> oc_expectedKeyTile context \<noteq> oc_keyTiles context \<or>
               oc_committedSegments context \<noteq> 0 then (None, s)
            else
              (case oa_drainReads (now, s) of (cursor, s1) \<Rightarrow>
                (let p = pe_init\<lparr>pe_id := oa_nextId s1, pe_readyCycle := cursor, pe_slot := slot,
                           pe_tag := tag, pe_drain := True\<rparr>;
                     s2 = oa_setContext slot (context\<lparr>oc_draining := True\<rparr>) (oa_enqueue p s1)
                 in (Some (pe_id p, pe_readyCycle p),
                     s2\<lparr>oa_drainOperations := oa_drainOperations s2 + 1\<rparr>)))))"

text \<open>Committing one pending operation to its context.\<close>

definition pe_lane :: "OPending \<Rightarrow> nat \<Rightarrow> nat \<Rightarrow> f32" where
  "pe_lane p panel lane =
     (if pe_rowFused p then pe_rowValues p ! (panel * kValuesPerSegment + lane) else pe_values p ! lane)"

definition oc_commitLane :: "OPending \<Rightarrow> nat \<Rightarrow> nat \<Rightarrow> nat \<Rightarrow> f32 list \<Rightarrow> f32 list" where
  "oc_commitLane p offset panel lane vs =
     vs[offset + lane :=
        (if pe_kvTileIndex p = 0 then pe_lane p panel lane
         else f32_fma (pe_alpha p) (vs ! (offset + lane)) (pe_lane p panel lane))]"

definition oc_commitPanel :: "OPending \<Rightarrow> nat \<Rightarrow> nat \<Rightarrow> OContext \<Rightarrow> OContext" where
  "oc_commitPanel p segment panel c =
     c\<lparr>oc_values := fold (oc_commitLane p ((segment + panel) * kValuesPerSegment) panel)
                      [0..<kValuesPerSegment] (oc_values c),
       oc_segmentState := (oc_segmentState c)[segment + panel := 2]\<rparr>"

definition oc_commit :: "OPending \<Rightarrow> OContext \<Rightarrow> bool \<times> OContext" where
  "oc_commit p c =
     (let segment = pe_row p * kPanels + pe_panel p;
          committed = (if pe_rowFused p then kPanels else 1);
          ok = (pe_kvTileIndex p = oc_expectedKeyTile c \<and>
                list_all (\<lambda>panel. oc_segmentState c ! (segment + panel) = 1) [0..<committed])
      in if \<not> ok then (False, c)
         else
           (let c1 = fold (oc_commitPanel p segment) [0..<committed] c;
                c2 = c1\<lparr>oc_committedSegments := oc_committedSegments c1 + committed\<rparr>
            in (True,
                if oc_committedSegments c2 = kRows * kPanels then
                  c2\<lparr>oc_expectedKeyTile := oc_expectedKeyTile c2 + 1, oc_committedSegments := 0,
                     oc_segmentState := replicate (kRows * kPanels) 0\<rparr>
                else c2)))"

definition oa_complete :: "OPending \<Rightarrow> OContext list \<Rightarrow> OCompletion \<times> OContext list" where
  "oa_complete p cs =
     (let completion = \<lparr>co_id = pe_id p, co_ok = oc_matches cs (pe_slot p) (pe_tag p),
            co_drain = pe_drain p, co_slot = pe_slot p, co_tag = pe_tag p, co_values = []\<rparr>
      in if \<not> co_ok completion then (completion, cs)
         else if pe_drain p then
           (completion\<lparr>co_values := oc_values (cs ! pe_slot p)\<rparr>, cs)
         else
           (case oc_commit p (cs ! pe_slot p) of (ok, c) \<Rightarrow>
             (completion\<lparr>co_ok := ok\<rparr>, cs[pe_slot p := c])))"

fun oa_progressLoop ::
  "nat \<Rightarrow> OPending list \<Rightarrow> OContext list \<Rightarrow> OCompletion list \<times> OPending list \<times> OContext list" where
  "oa_progressLoop now [] cs = ([], [], cs)"
| "oa_progressLoop now (p # ps) cs =
     (if pe_readyCycle p > now then
        (case oa_progressLoop now ps cs of (out, kept, cs') \<Rightarrow> (out, p # kept, cs'))
      else
        (case oa_complete p cs of (completion, cs1) \<Rightarrow>
          case oa_progressLoop now ps cs1 of (out, kept, cs') \<Rightarrow> (completion # out, kept, cs')))"

definition oa_progress :: "nat \<Rightarrow> OAccumulator \<Rightarrow> OCompletion list \<times> OAccumulator" where
  "oa_progress now s =
     (case oa_progressLoop now (oa_pending s) (oa_contexts s) of (out, kept, cs) \<Rightarrow>
        (out, s\<lparr>oa_pending := kept, oa_contexts := cs\<rparr>))"

definition oa_release :: "nat \<Rightarrow> AttentionClusterTag \<Rightarrow> OAccumulator \<Rightarrow> bool \<times> OAccumulator" where
  "oa_release slot tag s =
     (if \<not> oa_matches s slot tag \<or> \<not> oc_draining (oa_contexts s ! slot) \<or> oa_hasPending s slot tag
      then (False, s)
      else (True, s\<lparr>oa_contexts := (oa_contexts s)[slot := oc_init],
                    oa_occupied := sub32 (oa_occupied s) 1\<rparr>))"

fun oa_cancelContexts :: "u64 \<Rightarrow> nat \<Rightarrow> OContext list \<Rightarrow> nat \<times> nat \<times> OContext list" where
  "oa_cancelContexts generation occupied [] = (0, occupied, [])"
| "oa_cancelContexts generation occupied (c # cs) =
     (if oc_valid c \<and> tag_generation (oc_tag c) = generation then
        (case oa_cancelContexts generation (sub32 occupied 1) cs of (n, occ, cs') \<Rightarrow>
          (Suc n, occ, oc_init # cs'))
      else
        (case oa_cancelContexts generation occupied cs of (n, occ, cs') \<Rightarrow> (n, occ, c # cs')))"

definition oa_cancelGeneration :: "u64 \<Rightarrow> OAccumulator \<Rightarrow> nat \<times> OAccumulator" where
  "oa_cancelGeneration generation s =
     (case oa_cancelContexts generation (oa_occupied s) (oa_contexts s) of (n, occ, cs) \<Rightarrow>
        (n, s\<lparr>oa_pending := filter (\<lambda>p. tag_generation (pe_tag p) \<noteq> generation) (oa_pending s),
              oa_contexts := cs, oa_occupied := occ\<rparr>))"

definition oa_drained :: "OAccumulator \<Rightarrow> bool" where
  "oa_drained s \<longleftrightarrow> oa_occupied s = 0 \<and> oa_pending s = []"

section \<open>Call sequences\<close>

datatype oa_op =
    OaReserve nat AttentionClusterTag u32
  | OaSubmitSegment nat AttentionClusterTag u32 nat nat f32 "f32 list" nat bool
  | OaSubmitRow nat AttentionClusterTag u32 nat f32 "f32 list" nat bool
  | OaRequestDrain nat AttentionClusterTag nat bool
  | OaProgress nat
  | OaRelease nat AttentionClusterTag
  | OaCancelGeneration u64

datatype oa_result = OaBool bool | OaIssued "(nat \<times> nat) option" | OaDone "OCompletion list" | OaCount nat

fun oa_step :: "oa_op \<Rightarrow> OAccumulator \<Rightarrow> oa_result \<times> OAccumulator" where
  "oa_step (OaReserve i t k) s = apfst OaBool (oa_reserve i t k s)"
| "oa_step (OaSubmitSegment i t kv row panel alpha vs now nul) s =
     apfst OaIssued (oa_submitSegment i t kv row panel alpha vs now nul s)"
| "oa_step (OaSubmitRow i t kv row alpha vs now nul) s =
     apfst OaIssued (oa_submitRow i t kv row alpha vs now nul s)"
| "oa_step (OaRequestDrain i t now nul) s = apfst OaIssued (oa_requestDrain i t now nul s)"
| "oa_step (OaProgress now) s = apfst OaDone (oa_progress now s)"
| "oa_step (OaRelease i t) s = apfst OaBool (oa_release i t s)"
| "oa_step (OaCancelGeneration g) s = apfst OaCount (oa_cancelGeneration g s)"

end
