(* ===== verification/O_Accumulator_Correct.thy ===== *)
theory O_Accumulator_Correct
  imports O_Accumulator
begin

text \<open>
  Correctness of the O accumulator.  A ghost log records, per context and segment, the
  contributions accepted since the context was reserved.  The invariant ties the log to the
  values, the segment states and the pending operations; it yields that every completion
  succeeds and that a drain returns the fold of the whole log.
\<close>

section \<open>What a segment should contain\<close>

type_synonym contribution = "u32 \<times> f32 \<times> f32 list"

text \<open>One contribution: the tile index, the rescaling factor and the sixteen new values.\<close>

fun contribute :: "contribution \<Rightarrow> f32 list \<Rightarrow> f32 list" where
  "contribute (kv, alpha, vs) old = (if kv = 0 then vs else map2 (f32_fma alpha) old vs)"

definition seg_value :: "contribution list \<Rightarrow> f32 list" where
  "seg_value cs = fold contribute cs (replicate kValuesPerSegment 0)"

type_synonym oa_log = "nat \<Rightarrow> nat \<Rightarrow> contribution list"

definition oc_seg :: "f32 list \<Rightarrow> nat \<Rightarrow> f32 list" where
  "oc_seg vs g = get_range (g * kValuesPerSegment) kValuesPerSegment vs"

text \<open>The segments a pending operation covers, and what it contributes to each.\<close>

definition pe_lo :: "OPending \<Rightarrow> nat" where
  "pe_lo p = pe_row p * kPanels + pe_panel p"

definition pe_width :: "OPending \<Rightarrow> nat" where
  "pe_width p = (if pe_rowFused p then kPanels else 1)"

definition covers :: "OPending \<Rightarrow> nat \<Rightarrow> nat \<Rightarrow> bool" where
  "covers p i g \<longleftrightarrow> \<not> pe_drain p \<and> pe_slot p = i \<and> pe_lo p \<le> g \<and> g < pe_lo p + pe_width p"

definition pe_contrib :: "OPending \<Rightarrow> nat \<Rightarrow> contribution" where
  "pe_contrib p g =
     (pe_kvTileIndex p, pe_alpha p, map (pe_lane p (g - pe_lo p)) [0..<kValuesPerSegment])"

lemma seg_value_snoc: "seg_value (xs @ [x]) = contribute x (seg_value xs)"
  by (simp add: seg_value_def)

lemma seg_value_butlast: "xs \<noteq> [] \<Longrightarrow> contribute (last xs) (seg_value (butlast xs)) = seg_value xs"
  by (metis append_butlast_last_id seg_value_snoc)

section \<open>Committing\<close>

lemma commitLanes:
  assumes "off + 16 \<le> length vs"
  shows "length (fold (oc_commitLane p off panel) [0..<16] vs) = length vs \<and>
    (\<forall>j < length vs. fold (oc_commitLane p off panel) [0..<16] vs ! j =
       (if off \<le> j \<and> j < off + 16 then
          (if pe_kvTileIndex p = 0 then pe_lane p panel (j - off)
           else f32_fma (pe_alpha p) (vs ! j) (pe_lane p panel (j - off)))
        else vs ! j))"
proof -
  let ?f = "\<lambda>lane x. if pe_kvTileIndex p = 0 then pe_lane p panel lane
           else f32_fma (pe_alpha p) x (pe_lane p panel lane)"
  have "oc_commitLane p off panel = (\<lambda>i ys. ys[off + i := ?f i (ys ! (off + i))])"
    by (auto simp: oc_commitLane_def fun_eq_iff)
  with fold_update_range [OF assms, of ?f] show ?thesis by simp
qed

lemma commitPanel_eq:
  assumes "length (oc_values c) = 2048" "segment + panel < 128"
  shows "length (oc_values (oc_commitPanel p segment panel c)) = 2048"
    "g < 128 \<Longrightarrow> oc_seg (oc_values (oc_commitPanel p segment panel c)) g =
      (if g = segment + panel
       then contribute (pe_kvTileIndex p, pe_alpha p, map (pe_lane p panel) [0..<16]) (oc_seg (oc_values c) g)
       else oc_seg (oc_values c) g)"
proof -
  have "(segment + panel) * 16 + 16 \<le> length (oc_values c)" using assms by simp
  note L = commitLanes [OF this, of p panel]
  show "length (oc_values (oc_commitPanel p segment panel c)) = 2048"
    using L assms by (simp add: oc_commitPanel_def oa_consts)
  show "oc_seg (oc_values (oc_commitPanel p segment panel c)) g =
      (if g = segment + panel
       then contribute (pe_kvTileIndex p, pe_alpha p, map (pe_lane p panel) [0..<16]) (oc_seg (oc_values c) g)
       else oc_seg (oc_values c) g)" if "g < 128"
  proof (rule nth_equalityI)
    fix j assume "j < length (oc_seg (oc_values (oc_commitPanel p segment panel c)) g)"
    then have j: "j < 16" by (simp add: oc_seg_def get_range_def oa_consts)
    have "(segment + panel) * 16 \<le> g * 16 + j \<and> g * 16 + j < (segment + panel) * 16 + 16 \<longleftrightarrow> g = segment + panel"
      using j by auto
    with j L that assms
    show "oc_seg (oc_values (oc_commitPanel p segment panel c)) g ! j =
      (if g = segment + panel
       then contribute (pe_kvTileIndex p, pe_alpha p, map (pe_lane p panel) [0..<16]) (oc_seg (oc_values c) g)
       else oc_seg (oc_values c) g) ! j"
      by (auto simp: oc_seg_def oc_commitPanel_def oa_consts)
  qed (use that L assms in \<open>auto simp: oc_seg_def oc_commitPanel_def oa_consts\<close>)
qed

lemma commitPanels_eq:
  assumes "length (oc_values c) = 2048" "length (oc_segmentState c) = 128" "segment + m \<le> 128"
  shows "length (oc_values (fold (oc_commitPanel p segment) [0..<m] c)) = 2048 \<and>
    oc_segmentState (fold (oc_commitPanel p segment) [0..<m] c) = fill_range segment m 2 (oc_segmentState c) \<and>
    (\<forall>g < 128. oc_seg (oc_values (fold (oc_commitPanel p segment) [0..<m] c)) g =
      (if segment \<le> g \<and> g < segment + m
       then contribute (pe_kvTileIndex p, pe_alpha p, map (pe_lane p (g - segment)) [0..<16]) (oc_seg (oc_values c) g)
       else oc_seg (oc_values c) g))"
  using assms(3)
proof (induction m)
  case (Suc m)
  let ?d = "fold (oc_commitPanel p segment) [0..<m] c"
  from Suc have IH: "length (oc_values ?d) = 2048"
    "oc_segmentState ?d = fill_range segment m 2 (oc_segmentState c)" and lt: "segment + m < 128"
    by simp_all
  have "(fill_range segment m 2 (oc_segmentState c))[segment + m := 2]
      = fill_range segment (Suc m) 2 (oc_segmentState c)"
    using assms(2) lt by (intro nth_equalityI) (auto simp: nth_fill_range nth_list_update)
  moreover have "oc_segmentState (oc_commitPanel p segment m ?d) = (oc_segmentState ?d)[segment + m := 2]"
    by (simp add: oc_commitPanel_def)
  ultimately show ?case
    using Suc IH commitPanel_eq [OF IH(1) lt] by (auto simp: less_Suc_eq)
qed (use assms in \<open>auto simp: fill_range_def\<close>)

lemma commitPanels_frame:
  "oc_valid (fold (oc_commitPanel p segment) ms c) = oc_valid c"
  "oc_draining (fold (oc_commitPanel p segment) ms c) = oc_draining c"
  "oc_tag (fold (oc_commitPanel p segment) ms c) = oc_tag c"
  "oc_keyTiles (fold (oc_commitPanel p segment) ms c) = oc_keyTiles c"
  "oc_expectedKeyTile (fold (oc_commitPanel p segment) ms c) = oc_expectedKeyTile c"
  "oc_committedSegments (fold (oc_commitPanel p segment) ms c) = oc_committedSegments c"
  by (induction ms arbitrary: c) (simp_all add: oc_commitPanel_def)

section \<open>The invariant\<close>

definition seg_ok :: "OPending list \<Rightarrow> oa_log \<Rightarrow> nat \<Rightarrow> OContext \<Rightarrow> nat \<Rightarrow> nat \<Rightarrow> bool" where
  "seg_ok ps L i c n g \<longleftrightarrow>
     oc_segmentState c ! g \<le> 2 \<and>
     length (L i g) = n + (if oc_segmentState c ! g = 0 then 0 else 1) \<and>
     (\<forall>j < length (L i g). fst (L i g ! j) = of_nat j) \<and>
     (oc_segmentState c ! g = 1 \<longleftrightarrow> (\<exists>p \<in> set ps. covers p i g)) \<and>
     (\<forall>p \<in> set ps. covers p i g \<longrightarrow> last (L i g) = pe_contrib p g) \<and>
     oc_seg (oc_values c) g = seg_value (if oc_segmentState c ! g = 1 then butlast (L i g) else L i g)"

definition ctx_live :: "OPending list \<Rightarrow> oa_log \<Rightarrow> nat \<Rightarrow> OContext \<Rightarrow> bool" where
  "ctx_live ps L i c \<longleftrightarrow>
     oc_committedSegments c = length (filter ((=) 2) (oc_segmentState c)) \<and>
     oc_committedSegments c < 128 \<and>
     (\<forall>p \<in> set ps. pe_slot p = i \<and> \<not> pe_drain p \<longrightarrow> pe_kvTileIndex p = oc_expectedKeyTile c) \<and>
     (\<exists>n. oc_expectedKeyTile c = of_nat n \<and> (oc_draining c \<longrightarrow> unat (oc_keyTiles c) \<le> n) \<and>
          (\<forall>g < 128. seg_ok ps L i c n g))"

definition ctx_ok :: "OPending list \<Rightarrow> oa_log \<Rightarrow> nat \<Rightarrow> OContext \<Rightarrow> bool" where
  "ctx_ok ps L i c \<longleftrightarrow>
     length (oc_values c) = 2048 \<and> length (oc_segmentState c) = 128 \<and>
     (if oc_valid c then ctx_live ps L i c
      else oc_expectedKeyTile c = 0 \<and> oc_committedSegments c = 0 \<and> \<not> oc_draining c)"

definition pe_ok :: "OContext list \<Rightarrow> OPending \<Rightarrow> bool" where
  "pe_ok cs p \<longleftrightarrow>
     oc_matches cs (pe_slot p) (pe_tag p) \<and>
     (pe_drain p \<longrightarrow> oc_draining (cs ! pe_slot p)) \<and>
     (\<not> pe_drain p \<longrightarrow> pe_row p < 16 \<and> pe_panel p < 8 \<and> (pe_rowFused p \<longrightarrow> pe_panel p = 0))"

definition pe_order :: "OPending \<Rightarrow> OPending \<Rightarrow> bool" where
  "pe_order p q \<longleftrightarrow>
     pe_id p < pe_id q \<and> (\<forall>i g. \<not> (covers p i g \<and> covers q i g)) \<and>
     (pe_slot p = pe_slot q \<and> pe_drain p \<longrightarrow> pe_drain q) \<and>
     (pe_slot p = pe_slot q \<and> \<not> pe_drain p \<and> pe_drain q \<longrightarrow> pe_readyCycle p \<le> pe_readyCycle q)"

definition core_ok :: "oa_log \<Rightarrow> OContext list \<Rightarrow> OPending list \<Rightarrow> bool" where
  "core_ok L cs ps \<longleftrightarrow>
     length cs = 4 \<and> (\<forall>i < 4. ctx_ok ps L i (cs ! i)) \<and> (\<forall>p \<in> set ps. pe_ok cs p) \<and>
     sorted_wrt pe_order ps"

text \<open>A context only sees the pending operations that name its slot.\<close>

lemma ctx_ok_cong:
  assumes "\<And>p. pe_slot p = i \<Longrightarrow> \<not> pe_drain p \<Longrightarrow> p \<in> set ps \<longleftrightarrow> p \<in> set qs"
  shows "ctx_ok ps L i c = ctx_ok qs L i c"
proof -
  have "(\<exists>p \<in> set ps. covers p i g) = (\<exists>p \<in> set qs. covers p i g)"
    "(\<forall>p \<in> set ps. covers p i g \<longrightarrow> Q p) = (\<forall>p \<in> set qs. covers p i g \<longrightarrow> Q p)"
    "(\<forall>p \<in> set ps. pe_slot p = i \<and> \<not> pe_drain p \<longrightarrow> Q p) = (\<forall>p \<in> set qs. pe_slot p = i \<and> \<not> pe_drain p \<longrightarrow> Q p)"
    for g Q using assms by (auto simp: covers_def)
  then show ?thesis unfolding ctx_ok_def ctx_live_def seg_ok_def by (simp only:)
qed

lemma pe_ok_bounds:
  assumes "pe_ok cs p" "\<not> pe_drain p"
  shows "pe_lo p + pe_width p \<le> 128"
  using assms by (auto simp: pe_ok_def pe_lo_def pe_width_def oa_consts)

lemma core_drop_drain:
  assumes "core_ok L cs (qs @ p # rs)" "pe_drain p"
  shows "core_ok L cs (qs @ rs)"
proof -
  have "ctx_ok (qs @ p # rs) L i c = ctx_ok (qs @ rs) L i c" for i c
    by (rule ctx_ok_cong) (use assms(2) in auto)
  with assms(1) show ?thesis by (auto simp: core_ok_def sorted_wrt_append)
qed

text \<open>When nothing is pending for a context its values are the fold of the whole log.\<close>

lemma ctx_quiet:
  assumes "ctx_ok ps L i c" "oc_valid c" "\<And>p g. p \<in> set ps \<Longrightarrow> \<not> covers p i g" "g < 128"
  shows "oc_seg (oc_values c) g = seg_value (L i g)"
  using assms by (auto simp: ctx_ok_def ctx_live_def seg_ok_def)

section \<open>Commit preserves the invariant\<close>

lemma oc_commit_ok:
  assumes live: "ctx_live ps L i c" and p: "p \<in> set ps" "pe_slot p = i" "\<not> pe_drain p"
    and b: "pe_lo p + pe_width p \<le> 128"
  shows "oc_commit p c =
    (True, let c2 = (fold (oc_commitPanel p (pe_lo p)) [0..<pe_width p] c)
             \<lparr>oc_committedSegments := oc_committedSegments c + pe_width p\<rparr>
           in if oc_committedSegments c + pe_width p = 128
              then c2\<lparr>oc_expectedKeyTile := oc_expectedKeyTile c + 1, oc_committedSegments := 0,
                      oc_segmentState := replicate 128 0\<rparr>
              else c2)"
proof -
  have kv: "pe_kvTileIndex p = oc_expectedKeyTile c" using live p by (simp add: ctx_live_def)
  have st: "oc_segmentState c ! (pe_lo p + k) = 1" if "k < pe_width p" for k
  proof -
    have "covers p i (pe_lo p + k)" using p that by (simp add: covers_def)
    moreover have "pe_lo p + k < 128" using b that by simp
    ultimately show ?thesis using live p(1) by (auto simp: ctx_live_def seg_ok_def)
  qed
  have "list_all (\<lambda>panel. oc_segmentState c ! (pe_lo p + panel) = 1) [0..<pe_width p]"
    using st by (simp add: list_all_iff)
  then show ?thesis
    unfolding oc_commit_def Let_def pe_lo_def [symmetric] pe_width_def [symmetric]
    using kv by (simp add: commitPanels_frame oa_consts)
qed

text \<open>The segments of the committed operation become final; the others keep their state.\<close>

lemma commit_seg_ok:
  fixes c :: OContext
  assumes ok: "seg_ok (qs @ p # rs) L i c n g" and "g < 128"
    and len: "length (oc_values c) = 2048" "length (oc_segmentState c) = 128"
    and p: "pe_slot p = i" "\<not> pe_drain p" "pe_lo p + pe_width p \<le> 128"
    and dis: "\<And>q. q \<in> set (qs @ rs) \<Longrightarrow> \<not> (covers p i g \<and> covers q i g)"
    and c2: "oc_values c2 = oc_values (fold (oc_commitPanel p (pe_lo p)) [0..<pe_width p] c)"
      "oc_segmentState c2 = fill_range (pe_lo p) (pe_width p) 2 (oc_segmentState c)"
  shows "seg_ok (qs @ rs) L i c2 n g"
proof (cases "covers p i g")
  case True
  then have st: "oc_segmentState c ! g = 1" and last: "last (L i g) = pe_contrib p g"
    and ne: "L i g \<noteq> []" using ok by (auto simp: seg_ok_def)
  have "oc_seg (oc_values c2) g = contribute (pe_contrib p g) (oc_seg (oc_values c) g)"
    unfolding c2 using commitPanels_eq [OF len p(3), of p] True \<open>g < 128\<close>
    by (simp add: covers_def pe_contrib_def kValuesPerSegment_def)
  also have "\<dots> = seg_value (L i g)"
    using ok st seg_value_butlast [OF ne] unfolding last by (simp add: seg_ok_def)
  finally have v: "oc_seg (oc_values c2) g = seg_value (L i g)" .
  have st2: "oc_segmentState c2 ! g = 2"
    unfolding c2 using True len p(3) \<open>g < 128\<close> by (simp add: nth_fill_range covers_def)
  have "\<not> covers q i g" if "q \<in> set (qs @ rs)" for q using dis [OF that] True by simp
  then show ?thesis using ok st v st2 unfolding seg_ok_def by auto
next
  case False
  then have out: "\<not> (pe_lo p \<le> g \<and> g < pe_lo p + pe_width p)" using p by (simp add: covers_def)
  have "oc_seg (oc_values c2) g = oc_seg (oc_values c) g"
    unfolding c2 using commitPanels_eq [OF len p(3), of p] out \<open>g < 128\<close> by auto
  moreover have "oc_segmentState c2 ! g = oc_segmentState c ! g"
    unfolding c2 using len p(3) \<open>g < 128\<close> out by (auto simp: nth_fill_range)
  ultimately show ?thesis using ok False unfolding seg_ok_def by auto
qed

text \<open>A tile whose 128 segments are all final leaves nothing pending.\<close>

lemma full_tile:
  assumes "length (filter ((=) 2) st) = 128" "length st = 128" "g < 128"
  shows "st ! g = (2::nat)"
proof -
  have "\<forall>x \<in> set st. 2 = x"
    using assms length_filter_less [of _ st "(=) 2"] by fastforce
  then show ?thesis using assms by force
qed

lemma pe_width_pos: "0 < pe_width p"
  by (simp add: pe_width_def oa_consts)

lemma covers_lo: "pe_slot p = i \<Longrightarrow> \<not> pe_drain p \<Longrightarrow> covers p i (pe_lo p)"
  by (simp add: covers_def pe_width_pos)

lemma commit_live:
  assumes live: "ctx_live (qs @ p # rs) L i c"
    and len: "length (oc_values c) = 2048" "length (oc_segmentState c) = 128"
    and p: "pe_slot p = i" "\<not> pe_drain p" "pe_lo p + pe_width p \<le> 128"
    and dis: "\<And>q g. q \<in> set (qs @ rs) \<Longrightarrow> \<not> (covers p i g \<and> covers q i g)"
    and b: "\<And>q. q \<in> set (qs @ rs) \<Longrightarrow> \<not> pe_drain q \<Longrightarrow> pe_lo q + pe_width q \<le> 128"
  shows "fst (oc_commit p c)" "ctx_live (qs @ rs) L i (snd (oc_commit p c))"
    "length (oc_values (snd (oc_commit p c))) = 2048"
    "length (oc_segmentState (snd (oc_commit p c))) = 128"
proof -
  let ?c1 = "fold (oc_commitPanel p (pe_lo p)) [0..<pe_width p] c"
  let ?c2 = "?c1\<lparr>oc_committedSegments := oc_committedSegments c + pe_width p\<rparr>"
  note commit = oc_commit_ok [OF live _ p, simplified]
  note panels = commitPanels_eq [OF len p(3), of p]
  have c2: "oc_values ?c2 = oc_values ?c1"
    "oc_segmentState ?c2 = fill_range (pe_lo p) (pe_width p) 2 (oc_segmentState c)"
    using panels by simp_all
  obtain n where n: "oc_expectedKeyTile c = of_nat n" "oc_draining c \<longrightarrow> unat (oc_keyTiles c) \<le> n"
    "\<forall>g < 128. seg_ok (qs @ p # rs) L i c n g" using live by (auto simp: ctx_live_def)
  have seg: "\<forall>g < 128. seg_ok (qs @ rs) L i ?c2 n g"
    using commit_seg_ok [OF _ _ len p dis c2] n(3) by blast
  have cnt: "length (filter ((=) 2) (oc_segmentState ?c2)) = oc_committedSegments c + pe_width p"
  proof -
    have "\<forall>x \<in> set (get_range (pe_lo p) (pe_width p) (oc_segmentState c)). \<not> 2 = x"
    proof (subst ball_get_range_iff)
      show "pe_lo p + pe_width p \<le> length (oc_segmentState c)" using p len by simp
      show "\<forall>k < pe_width p. \<not> 2 = oc_segmentState c ! (pe_lo p + k)"
      proof (intro allI impI)
        fix k assume k: "k < pe_width p"
        then have "covers p i (pe_lo p + k)" "pe_lo p + k < 128" using p by (auto simp: covers_def)
        then have "oc_segmentState c ! (pe_lo p + k) = 1" using n(3) by (auto simp: seg_ok_def)
        then show "\<not> 2 = oc_segmentState c ! (pe_lo p + k)" by simp
      qed
    qed
    then show ?thesis unfolding c2 using live by (subst filter_fill_range) (auto simp: ctx_live_def)
  qed
  have kv: "\<forall>q \<in> set (qs @ rs). pe_slot q = i \<and> \<not> pe_drain q \<longrightarrow> pe_kvTileIndex q = oc_expectedKeyTile c"
    using live by (auto simp: ctx_live_def)
  have frame: "oc_expectedKeyTile ?c1 = oc_expectedKeyTile c" "oc_draining ?c1 = oc_draining c"
    "oc_keyTiles ?c1 = oc_keyTiles c" by (simp_all add: commitPanels_frame)
  show "fst (oc_commit p c)" by (simp add: commit)
  show "length (oc_values (snd (oc_commit p c))) = 2048"
    "length (oc_segmentState (snd (oc_commit p c))) = 128"
    using panels len p(3) by (simp_all add: commit Let_def)
  show "ctx_live (qs @ rs) L i (snd (oc_commit p c))"
  proof (cases "oc_committedSegments c + pe_width p = 128")
    case False
    moreover have "oc_committedSegments c + pe_width p \<le> 128"
      using cnt length_filter_le [of "(=) 2" "oc_segmentState ?c2"] len p(3) c2 by simp
    ultimately have "ctx_live (qs @ rs) L i ?c2"
      unfolding ctx_live_def using cnt kv n(1,2) seg frame by auto
    with False show ?thesis by (simp add: commit Let_def)
  next
    case True
    let ?c3 = "?c2\<lparr>oc_expectedKeyTile := oc_expectedKeyTile c + 1, oc_committedSegments := 0,
                   oc_segmentState := replicate 128 0\<rparr>"
    have st2: "oc_segmentState ?c2 ! g = 2" if "g < 128" for g
      using full_tile [of "oc_segmentState ?c2" g] cnt True that c2 len p(3) by simp
    have none: "\<not> covers q i g" if "q \<in> set (qs @ rs)" "g < 128" for q g
      using seg st2 [OF that(2)] that by (auto simp: seg_ok_def)
    have "\<not> (pe_slot q = i \<and> \<not> pe_drain q)" if "q \<in> set (qs @ rs)" for q
      using none [OF that, of "pe_lo q"] covers_lo [of q i] b [OF that] pe_width_pos [of q] by fastforce
    moreover have "\<forall>g < 128. seg_ok (qs @ rs) L i ?c3 (Suc n) g"
      using seg st2 none unfolding seg_ok_def by auto
    moreover have "oc_expectedKeyTile ?c3 = of_nat (Suc n)" "oc_draining ?c3 \<longrightarrow> unat (oc_keyTiles ?c3) \<le> Suc n"
      using n(1,2) frame by auto
    ultimately have "ctx_live (qs @ rs) L i ?c3"
      unfolding ctx_live_def by (intro conjI exI [of _ "Suc n"]) auto
    with True show ?thesis by (simp add: commit Let_def)
  qed
qed

lemma commit_frame:
  "oc_valid (snd (oc_commit p c)) = oc_valid c" "oc_draining (snd (oc_commit p c)) = oc_draining c"
  "oc_tag (snd (oc_commit p c)) = oc_tag c" "oc_keyTiles (snd (oc_commit p c)) = oc_keyTiles c"
  by (simp_all add: oc_commit_def Let_def commitPanels_frame)

lemma oc_matchesD:
  "oc_matches cs i t \<Longrightarrow> i < 4 \<and> oc_valid (cs ! i) \<and> oc_tag (cs ! i) = t"
  by (simp add: oc_matches_def kContexts_def)

text \<open>Committing the operation \<open>p\<close> of a consistent state succeeds and keeps it consistent.\<close>

lemma core_commit:
  assumes ok: "core_ok L cs (qs @ p # rs)" and p: "\<not> pe_drain p"
  defines "i \<equiv> pe_slot p"
  shows "fst (oc_commit p (cs ! i))" "core_ok L (cs[i := snd (oc_commit p (cs ! i))]) (qs @ rs)"
proof -
  have len: "length cs = 4" and pok: "pe_ok cs p" and sorted: "sorted_wrt pe_order (qs @ p # rs)"
    and oks: "\<forall>q \<in> set (qs @ rs). pe_ok cs q" using ok by (auto simp: core_ok_def)
  from pok have i: "i < 4" "oc_valid (cs ! i)"
    using oc_matchesD [of cs i "pe_tag p"] by (auto simp: pe_ok_def i_def)
  from ok i have c: "ctx_live (qs @ p # rs) L i (cs ! i)"
    and cl: "length (oc_values (cs ! i)) = 2048" "length (oc_segmentState (cs ! i)) = 128"
    by (auto simp: core_ok_def ctx_ok_def)
  have dis: "\<not> (covers p i g \<and> covers q i g)" if "q \<in> set (qs @ rs)" for q g
    using sorted that by (auto simp: sorted_wrt_append pe_order_def)
  have b: "pe_lo q + pe_width q \<le> 128" if "q \<in> set (qs @ rs)" "\<not> pe_drain q" for q
    using oks that by (intro pe_ok_bounds [of cs]) auto
  note C = commit_live [OF c cl meta_eq_to_obj_eq [OF i_def, symmetric] p pe_ok_bounds [OF pok p] dis b]
  show "fst (oc_commit p (cs ! i))" by (rule C)
  let ?cs = "cs[i := snd (oc_commit p (cs ! i))]"
  have "ctx_ok (qs @ rs) L j (?cs ! j)" if "j < 4" for j
  proof (cases "j = i")
    case True
    with C len i show ?thesis by (simp add: ctx_ok_def commit_frame)
  next
    case False
    then have "ctx_ok (qs @ rs) L j (cs ! j) = ctx_ok (qs @ p # rs) L j (cs ! j)"
      by (intro ctx_ok_cong) (auto simp: i_def)
    with False ok that show ?thesis by (simp add: core_ok_def)
  qed
  moreover have "pe_ok ?cs q" if "pe_ok cs q" for q
    using that len i by (auto simp: pe_ok_def oc_matches_def nth_list_update commit_frame)
  moreover have "sorted_wrt pe_order (qs @ rs)" using sorted by (simp add: sorted_wrt_append)
  ultimately show "core_ok L ?cs (qs @ rs)" using len oks by (auto simp: core_ok_def)
qed

section \<open>Progress\<close>

text \<open>
  A completion is exact when it succeeded and, for a drain, it carries all 2048 values, each
  segment being the fold of its log, and the log of each segment holds at least the promised
  number of key tiles, numbered from zero.
\<close>

definition co_exact :: "oa_log \<Rightarrow> (nat \<Rightarrow> u32) \<Rightarrow> OCompletion \<Rightarrow> bool" where
  "co_exact L tiles c \<longleftrightarrow>
     co_ok c \<and>
     (co_drain c \<longrightarrow> length (co_values c) = 2048 \<and>
        (\<forall>g < 128. oc_seg (co_values c) g = seg_value (L (co_slot c) g) \<and>
           unat (tiles (co_slot c)) \<le> length (L (co_slot c) g) \<and>
           (\<forall>j < length (L (co_slot c) g). fst (L (co_slot c) g ! j) = of_nat j)))"

lemma drain_exact:
  assumes ok: "core_ok L cs (qs @ p # rs)" and p: "pe_drain p" "pe_readyCycle p \<le> now"
    and qs: "\<forall>q \<in> set qs. now < pe_readyCycle q"
  shows "co_exact L (\<lambda>i. oc_keyTiles (cs ! i)) (fst (oa_complete p cs))"
proof -
  let ?i = "pe_slot p"
  have pok: "pe_ok cs p" and sorted: "sorted_wrt pe_order (qs @ p # rs)"
    using ok by (auto simp: core_ok_def)
  from pok have m: "oc_matches cs ?i (pe_tag p)" by (simp add: pe_ok_def)
  from oc_matchesD [OF m] have i: "?i < 4" "oc_valid (cs ! ?i)" by auto
  with ok have ctx: "ctx_ok (qs @ p # rs) L ?i (cs ! ?i)" by (simp add: core_ok_def)
  have "\<not> covers q ?i g" if "q \<in> set (qs @ p # rs)" for q g
    using sorted p qs that by (fastforce simp: sorted_wrt_append pe_order_def covers_def)
  then have v: "oc_seg (oc_values (cs ! ?i)) g = seg_value (L ?i g)" if "g < 128" for g
    using ctx_quiet [OF ctx i(2)] that by blast
  obtain n where "unat (oc_keyTiles (cs ! ?i)) \<le> n" "\<forall>g < 128. seg_ok (qs @ p # rs) L ?i (cs ! ?i) n g"
    using ctx i(2) pok p(1) by (auto simp: ctx_ok_def ctx_live_def pe_ok_def)
  with v ctx m p(1) show ?thesis
    by (auto simp: co_exact_def oa_complete_def ctx_ok_def seg_ok_def)
qed

lemma oa_complete_core:
  assumes ok: "core_ok L cs (qs @ p # rs)" and p: "pe_readyCycle p \<le> now"
    and qs: "\<forall>q \<in> set qs. now < pe_readyCycle q"
  shows "core_ok L (snd (oa_complete p cs)) (qs @ rs)"
    "co_exact L (\<lambda>i. oc_keyTiles (cs ! i)) (fst (oa_complete p cs))"
    "oc_keyTiles (snd (oa_complete p cs) ! i) = oc_keyTiles (cs ! i)"
proof -
  have m: "oc_matches cs (pe_slot p) (pe_tag p)" using ok by (auto simp: core_ok_def pe_ok_def)
  note C = core_commit [OF ok]
  show "core_ok L (snd (oa_complete p cs)) (qs @ rs)"
  proof (cases "pe_drain p")
    case True
    with core_drop_drain [OF ok] m show ?thesis by (simp add: oa_complete_def)
  next
    case False
    with C m show ?thesis by (simp add: oa_complete_def split: prod.splits) (metis snd_conv)
  qed
  show "co_exact L (\<lambda>i. oc_keyTiles (cs ! i)) (fst (oa_complete p cs))"
  proof (cases "pe_drain p")
    case True
    from drain_exact [OF ok True p qs] show ?thesis .
  next
    case False
    with C(1) m show ?thesis by (auto simp: co_exact_def oa_complete_def split: prod.splits)
  qed
  have "length cs = 4" using ok by (simp add: core_ok_def)
  with oc_matchesD [OF m] show "oc_keyTiles (snd (oa_complete p cs) ! i) = oc_keyTiles (cs ! i)"
    using commit_frame(4) [of p "cs ! pe_slot p"]
    by (auto simp: oa_complete_def Let_def nth_list_update split: prod.splits)
qed

lemma oa_progressLoop_core:
  assumes "core_ok L cs (qs @ ps)" "\<forall>q \<in> set qs. now < pe_readyCycle q"
    and "oa_progressLoop now ps cs = (out, kept, cs')"
  shows "core_ok L cs' (qs @ kept) \<and> list_all (co_exact L (\<lambda>i. oc_keyTiles (cs ! i))) out \<and>
    kept = filter (\<lambda>p. now < pe_readyCycle p) ps \<and>
    map co_id out = map pe_id (filter (\<lambda>p. pe_readyCycle p \<le> now) ps)"
  using assms
proof (induction ps arbitrary: qs cs out kept)
  case (Cons p ps)
  show ?case
  proof (cases "now < pe_readyCycle p")
    case True
    with Cons.prems(3) obtain kept' where loop: "oa_progressLoop now ps cs = (out, kept', cs')"
      and kept: "kept = p # kept'" by (auto split: prod.splits)
    from Cons.IH [OF _ _ loop, of "qs @ [p]"] Cons.prems(1,2) True kept show ?thesis by auto
  next
    case False
    obtain c1 cs1 where comp: "oa_complete p cs = (c1, cs1)" by fastforce
    with Cons.prems(3) False obtain out' where loop: "oa_progressLoop now ps cs1 = (out', kept, cs')"
      and out: "out = c1 # out'" by (auto split: prod.splits)
    from False have p: "pe_readyCycle p \<le> now" by simp
    note C = oa_complete_core [OF Cons.prems(1) p Cons.prems(2), unfolded comp, simplified]
    have "co_id c1 = pe_id p"
      using comp by (auto simp: oa_complete_def Let_def split: if_splits prod.splits)
    with Cons.IH [OF C(1) Cons.prems(2) loop] C(2,3) out False show ?thesis by auto
  qed
qed simp

section \<open>The ports\<close>

definition oa_ports :: "OAccumulator \<Rightarrow> bool" where
  "oa_ports s \<longleftrightarrow>
     port.port_ok (oa_nextReadCycle s) (oa_readIntervals s) \<and>
     port.port_ok (oa_nextAluCycle s) (oa_aluIntervals s) \<and>
     port.port_ok (oa_nextWriteCycle s) (oa_writeIntervals s) \<and>
     oa_intervalOrderValid s"

text \<open>What the scheduling of an operation leaves alone.\<close>

definition oa_frame :: "OAccumulator \<Rightarrow> OAccumulator \<Rightarrow> bool" where
  "oa_frame s s' \<longleftrightarrow>
     oa_contexts s' = oa_contexts s \<and> oa_pending s' = oa_pending s \<and> oa_nextId s' = oa_nextId s \<and>
     oa_occupied s' = oa_occupied s \<and> oa_highWater s' = oa_highWater s \<and>
     (oa_ports s \<longrightarrow> oa_ports s')"

definition bank_grows :: "nat list \<Rightarrow> nat list \<Rightarrow> bool" where
  "bank_grows b b' \<longleftrightarrow> length b' = length b \<and> (\<forall>r < length b. b ! r \<le> b' ! r)"

lemma oa_frame_trans: "oa_frame a b \<Longrightarrow> oa_frame b c \<Longrightarrow> oa_frame a c"
  by (auto simp: oa_frame_def)

lemma bank_grows_trans: "bank_grows a b \<Longrightarrow> bank_grows b c \<Longrightarrow> bank_grows a c"
  unfolding bank_grows_def by (metis order.trans)

lemma bank_grows_refl [simp]: "bank_grows a a"
  by (simp add: bank_grows_def)

lemma readPort_ok:
  assumes "oa_readPort cursor s = (start, s')"
  shows "oa_frame s s' \<and> cursor \<le> start \<and> oa_bankReadyCycle s' = oa_bankReadyCycle s"
  using assms port.port_issue [of "oa_nextReadCycle s" "oa_readIntervals s" start cursor]
  by (auto simp: oa_readPort_def Let_def oa_frame_def oa_ports_def split: prod.splits)

lemma aluPort_ok:
  assumes "oa_aluPort cursor s = (start, s')"
  shows "oa_frame s s' \<and> cursor \<le> start \<and> oa_bankReadyCycle s' = oa_bankReadyCycle s"
  using assms port.port_issue [of "oa_nextAluCycle s" "oa_aluIntervals s" start cursor]
  by (auto simp: oa_aluPort_def Let_def oa_frame_def oa_ports_def split: prod.splits)

lemma writePort_ok:
  assumes "oa_writePort cursor s = (start, s')"
  shows "oa_frame s s' \<and> cursor \<le> start \<and> oa_bankReadyCycle s' = oa_bankReadyCycle s"
  using assms port.port_issue [of "oa_nextWriteCycle s" "oa_writeIntervals s" start cursor]
  by (auto simp: oa_writePort_def Let_def oa_frame_def oa_ports_def split: prod.splits)

text \<open>
  The pipeline: the write happens no earlier than the read, ALU and latency cycles after the
  cursor, and it is the cycle after which the bank is free.
\<close>

lemma pipeline_split:
  assumes "oa_pipeline kv row n cursor s = (w, s')"
  shows "oa_frame s s' \<and> cursor + (if kv = 0 then 2 else 3) \<le> w \<and>
    oa_bankReadyCycle s' = (oa_bankReadyCycle s)[row := w + 1]"
proof -
  obtain c3 s3 where front: "(if kv \<noteq> 0 then
              (case oa_readPort cursor s of (readStart, s1) \<Rightarrow>
                case oa_aluPort (readStart + 1) s1 of (fmaIssue, s2) \<Rightarrow>
                  (fmaIssue + fmaLatency,
                   s2\<lparr>oa_scaleOperations := oa_scaleOperations s2 + n\<rparr>))
            else
              (case oa_aluPort cursor s of (accumulateIssue, s1) \<Rightarrow>
                (accumulateIssue + addLatency, s1))) = (c3, s3)" by fastforce
  obtain s4 where wp: "oa_writePort c3 s3 = (w, s4)"
    and s': "s' = s4\<lparr>oa_bankReadyCycle := (oa_bankReadyCycle s4)[row := w + 1]\<rparr>"
    using assms(1) unfolding oa_pipeline_def front by (auto split: prod.splits)
  have f3: "oa_frame s s3 \<and> cursor + (if kv = 0 then 2 else 3) \<le> c3 \<and>
      oa_bankReadyCycle s3 = oa_bankReadyCycle s"
  proof (cases "kv = 0")
    case True
    with front show ?thesis
      by (auto simp: addLatency_def split: prod.splits dest!: aluPort_ok)
  next
    case False
    then obtain r s1 a s2 where rp: "oa_readPort cursor s = (r, s1)" and ap: "oa_aluPort (r + 1) s1 = (a, s2)"
      and c3: "c3 = a + fmaLatency" "s3 = s2\<lparr>oa_scaleOperations := oa_scaleOperations s2 + n\<rparr>"
      using front by (auto split: prod.splits)
    have "oa_frame s2 s3" by (simp add: c3 oa_frame_def oa_ports_def)
    with readPort_ok [OF rp] aluPort_ok [OF ap] False c3 show ?thesis
      by (auto simp: fmaLatency_def intro: oa_frame_trans)
  qed
  note W = writePort_ok [OF wp]
  have "oa_frame s4 s'" by (simp add: s' oa_frame_def oa_ports_def)
  with f3 W have "oa_frame s s'" by (blast intro: oa_frame_trans)
  moreover have "cursor + (if kv = 0 then 2 else 3) \<le> w" using f3 W by auto
  moreover have "oa_bankReadyCycle s' = (oa_bankReadyCycle s)[row := w + 1]" using f3 W by (simp add: s')
  ultimately show ?thesis by simp
qed

lemma pipeline_ok:
  assumes "oa_pipeline kv row n cursor s = (w, s')"
    and "row < length (oa_bankReadyCycle s)" "oa_bankReadyCycle s ! row \<le> cursor"
  shows "oa_frame s s'" "bank_grows (oa_bankReadyCycle s) (oa_bankReadyCycle s')"
    "oa_bankReadyCycle s' ! row = w + 1" "cursor + (if kv = 0 then 2 else 3) \<le> w"
proof -
  note S = pipeline_split [OF assms(1)]
  then have "cursor \<le> w" by (auto split: if_splits)
  with S assms(2,3) show "oa_frame s s'" "bank_grows (oa_bankReadyCycle s) (oa_bankReadyCycle s')"
    "oa_bankReadyCycle s' ! row = w + 1" "cursor + (if kv = 0 then 2 else 3) \<le> w"
    by (auto simp: bank_grows_def nth_list_update)
qed

lemma drainRead_ok:
  assumes "oa_drainRead row (cursor, s) = (c', s')" "row < length (oa_bankReadyCycle s)"
  shows "oa_frame s s' \<and> cursor < c' \<and> bank_grows (oa_bankReadyCycle s) (oa_bankReadyCycle s') \<and>
    oa_bankReadyCycle s ! row \<le> c'"
proof -
  let ?st = "max (max cursor (oa_nextReadCycle s)) (oa_bankReadyCycle s ! row)"
  have "?st = max (max cursor (oa_bankReadyCycle s ! row)) (oa_nextReadCycle s)" by simp
  note P = port.port_issue [OF _ this, of "oa_readIntervals s"]
  obtain ok m where add: "bi_add ?st (?st + 1) (oa_readIntervals s) = (ok, m)" by fastforce
  from assms(1) add have s': "c' = ?st + 1" "s' = s\<lparr>oa_drainWaitCycles := oa_drainWaitCycles s + (?st - cursor),
           oa_nextReadCycle := ?st + 1,
           oa_bankReadyCycle := (oa_bankReadyCycle s)[row := ?st + 1],
           oa_readIntervals := m,
           oa_intervalOrderValid := (ok \<and> oa_intervalOrderValid s)\<rparr>"
    by (auto simp: oa_drainRead_def Let_def)
  have "oa_frame s s'" using P add by (auto simp: s' oa_frame_def oa_ports_def)
  moreover have "bank_grows (oa_bankReadyCycle s) (oa_bankReadyCycle s')"
    using assms(2) by (auto simp: s' bank_grows_def nth_list_update)
  moreover have "cursor < c'" "oa_bankReadyCycle s ! row \<le> c'"
    unfolding s'(1) by (auto simp: less_Suc_eq_le le_max_iff_disj le_Suc_eq)
  ultimately show ?thesis by blast
qed

definition drain_rel :: "nat \<times> OAccumulator \<Rightarrow> nat \<times> OAccumulator \<Rightarrow> bool" where
  "drain_rel a b \<longleftrightarrow> oa_frame (snd a) (snd b) \<and> fst a \<le> fst b \<and>
     bank_grows (oa_bankReadyCycle (snd a)) (oa_bankReadyCycle (snd b))"

lemma drain_rel_refl: "drain_rel a a"
  by (simp add: drain_rel_def oa_frame_def)

lemma drain_rel_trans: "drain_rel a b \<Longrightarrow> drain_rel b c \<Longrightarrow> drain_rel a c"
  unfolding drain_rel_def by (meson oa_frame_trans bank_grows_trans order.trans)

lemma drain_rel_read:
  "row < length (oa_bankReadyCycle (snd a)) \<Longrightarrow>
     drain_rel a (oa_drainRead row a) \<and> oa_bankReadyCycle (snd a) ! row \<le> fst (oa_drainRead row a)"
  using drainRead_ok [of row "fst a" "snd a" "fst (oa_drainRead row a)" "snd (oa_drainRead row a)"]
  by (auto simp: drain_rel_def)

lemma drain_rel_reads:
  "row < length (oa_bankReadyCycle (snd a)) \<Longrightarrow> drain_rel a (fold (\<lambda>panel. oa_drainRead row) ps a)"
proof (induction ps arbitrary: a)
  case (Cons q ps)
  have "drain_rel a (oa_drainRead row a)" using Cons.prems drain_rel_read by blast
  moreover from this Cons.prems have "row < length (oa_bankReadyCycle (snd (oa_drainRead row a)))"
    by (simp add: drain_rel_def bank_grows_def)
  ultimately show ?case using drain_rel_trans [OF _ Cons.IH] by simp
qed (simp add: drain_rel_refl)

lemma drainRow_ok:
  assumes "row < length (oa_bankReadyCycle (snd a))"
  shows "drain_rel a (fold (\<lambda>panel. oa_drainRead row) [0..<kPanels] a) \<and>
    oa_bankReadyCycle (snd a) ! row \<le> fst (fold (\<lambda>panel. oa_drainRead row) [0..<kPanels] a)"
proof -
  note first = drain_rel_read [OF assms]
  then have "row < length (oa_bankReadyCycle (snd (oa_drainRead row a)))"
    using assms by (simp add: drain_rel_def bank_grows_def)
  from drain_rel_reads [OF this, of "[1..<kPanels]"] first
  have rest: "drain_rel (oa_drainRead row a) (fold (\<lambda>panel. oa_drainRead row) [0..<kPanels] a)"
    by (simp add: kPanels_def upt_conv_Cons)
  then have "fst (oa_drainRead row a) \<le> fst (fold (\<lambda>panel. oa_drainRead row) [0..<kPanels] a)"
    by (simp only: drain_rel_def)
  with first rest show ?thesis by (meson drain_rel_trans order.trans)
qed

lemma drainRows_ok:
  "m \<le> length (oa_bankReadyCycle (snd a)) \<Longrightarrow>
   drain_rel a (fold (\<lambda>row cs. fold (\<lambda>panel. oa_drainRead row) [0..<kPanels] cs) [0..<m] a) \<and>
   (\<forall>r < m. oa_bankReadyCycle (snd a) ! r \<le>
      fst (fold (\<lambda>row cs. fold (\<lambda>panel. oa_drainRead row) [0..<kPanels] cs) [0..<m] a))"
proof (induction m)
  case (Suc m)
  let ?b = "fold (\<lambda>row cs. fold (\<lambda>panel. oa_drainRead row) [0..<kPanels] cs) [0..<m] a"
  from Suc have IH: "drain_rel a ?b" "\<forall>r < m. oa_bankReadyCycle (snd a) ! r \<le> fst ?b" by simp_all
  then have grow: "m < length (oa_bankReadyCycle (snd ?b))" "oa_bankReadyCycle (snd a) ! m \<le> oa_bankReadyCycle (snd ?b) ! m"
    using Suc.prems by (auto simp: drain_rel_def bank_grows_def)
  note row = drainRow_ok [OF grow(1)]
  then have "fst ?b \<le> fst (fold (\<lambda>panel. oa_drainRead m) [0..<kPanels] ?b)" by (simp add: drain_rel_def)
  with IH row grow(2) drain_rel_trans [OF IH(1)] show ?case
    by (auto simp: less_Suc_eq intro: order.trans)
qed (simp add: drain_rel_refl)

lemma drainReads_ok:
  assumes "oa_drainReads (now, s) = (c, s')" "length (oa_bankReadyCycle s) = 16"
  shows "oa_frame s s'" "bank_grows (oa_bankReadyCycle s) (oa_bankReadyCycle s')" "now \<le> c"
    "r < 16 \<Longrightarrow> oa_bankReadyCycle s ! r \<le> c"
proof -
  have eq: "fold (\<lambda>row cs. fold (\<lambda>panel. oa_drainRead row) [0..<kPanels] cs) [0..<kRows] (now, s) = (c, s')"
    using assms(1) by (simp only: oa_drainReads_def)
  have "kRows \<le> length (oa_bankReadyCycle (snd (now, s)))" using assms(2) by (simp add: kRows_def)
  note D = drainRows_ok [OF this, unfolded eq]
  from D show "oa_frame s s'" "bank_grows (oa_bankReadyCycle s) (oa_bankReadyCycle s')" "now \<le> c"
    by (simp_all add: drain_rel_def)
  from D show "oa_bankReadyCycle s ! r \<le> c" if "r < 16" using that by (simp add: kRows_def)
qed

section \<open>The log and the full invariant\<close>

fun log_step :: "oa_op \<Rightarrow> oa_result \<Rightarrow> oa_log \<Rightarrow> oa_log" where
  "log_step (OaReserve i t k) (OaBool True) L = L(i := (\<lambda>g. []))"
| "log_step (OaSubmitSegment i t kv row panel alpha vs now nul) (OaIssued (Some r)) L =
     L(i := (L i)(row * kPanels + panel := L i (row * kPanels + panel) @ [(kv, alpha, vs)]))"
| "log_step (OaSubmitRow i t kv row alpha vs now nul) (OaIssued (Some r)) L =
     L(i := (\<lambda>g. if row * kPanels \<le> g \<and> g < row * kPanels + kPanels
                 then L i g @ [(kv, alpha, oc_seg vs (g - row * kPanels))] else L i g))"
| "log_step _ _ L = L"

definition oa_ok :: "oa_log \<Rightarrow> OAccumulator \<Rightarrow> bool" where
  "oa_ok L s \<longleftrightarrow>
     core_ok L (oa_contexts s) (oa_pending s) \<and>
     (\<forall>p \<in> set (oa_pending s). pe_id p < oa_nextId s) \<and>
     length (oa_bankReadyCycle s) = 16 \<and>
     (\<forall>p \<in> set (oa_pending s). \<not> pe_drain p \<longrightarrow> pe_readyCycle p \<le> oa_bankReadyCycle s ! pe_row p) \<and>
     oa_ports s"

lemma oa_ok_init: "oa_ok L oa_init"
  by (simp add: oa_ok_def core_ok_def ctx_ok_def oa_init_def oc_init_def oa_ports_def port.port_fresh oa_consts)

section \<open>The operations keep the invariant\<close>

text \<open>Accepting a contribution: free segments become busy and the log grows by it.\<close>

lemma core_submit:
  assumes ok: "core_ok L cs ps" and m: "oc_matches cs i (pe_tag p)" and nd: "\<not> oc_draining (cs ! i)"
    and p: "pe_slot p = i" "\<not> pe_drain p" "pe_kvTileIndex p = oc_expectedKeyTile (cs ! i)"
      "pe_row p < 16" "pe_panel p < 8" "pe_rowFused p \<longrightarrow> pe_panel p = 0"
    and free: "\<And>k. k < pe_width p \<Longrightarrow> oc_segmentState (cs ! i) ! (pe_lo p + k) = 0"
    and ids: "\<forall>q \<in> set ps. pe_id q < pe_id p"
  defines "L' \<equiv> L(i := \<lambda>g. if covers p i g then L i g @ [pe_contrib p g] else L i g)"
  shows "core_ok L' (cs[i := (cs ! i)\<lparr>oc_segmentState :=
           fill_range (pe_lo p) (pe_width p) 1 (oc_segmentState (cs ! i))\<rparr>]) (ps @ [p])"
proof -
  define c where "c = cs ! i"
  define c' where "c' = c\<lparr>oc_segmentState := fill_range (pe_lo p) (pe_width p) 1 (oc_segmentState c)\<rparr>"
  have len: "length cs = 4" using ok by (simp add: core_ok_def)
  have i: "i < 4" "oc_valid c" "oc_tag c = pe_tag p" using oc_matchesD [OF m] by (auto simp: c_def)
  have b: "pe_lo p + pe_width p \<le> 128" using p by (auto simp: pe_lo_def pe_width_def oa_consts)
  have ctx: "ctx_live ps L i c" "length (oc_values c) = 2048" "length (oc_segmentState c) = 128"
    using ok i by (auto simp: core_ok_def ctx_ok_def c_def)
  obtain n where n: "oc_expectedKeyTile c = of_nat n" "\<forall>g < 128. seg_ok ps L i c n g"
    using ctx by (auto simp: ctx_live_def)
  have st0: "oc_segmentState c ! g = 0 \<and> g < 128" if "covers p i g" for g
    using free [of "g - pe_lo p"] that b by (auto simp: covers_def c_def)
  have nocov: "\<not> covers q i g" if "covers p i g" "q \<in> set ps" for q g
    using n(2) st0 [OF that(1)] that(2) by (auto simp: seg_ok_def)
  have st': "oc_segmentState c' ! g = (if covers p i g then 1 else oc_segmentState c ! g)" if "g < 128" for g
    using that b ctx p by (auto simp: c'_def nth_fill_range covers_def)
  have seg: "seg_ok (ps @ [p]) L' i c' n g" if g: "g < 128" for g
  proof (cases "covers p i g")
    case True
    have old: "length (L i g) = n" "oc_seg (oc_values c) g = seg_value (L i g)"
        "\<forall>j < n. fst (L i g ! j) = of_nat j"
      using n(2) g st0 [OF True] by (auto simp: seg_ok_def)
    have new: "L' i g = L i g @ [pe_contrib p g]" using True by (simp add: L'_def)
    have "fst (pe_contrib p g) = of_nat n" using p n(1) by (simp add: pe_contrib_def c_def)
    with old nocov [OF True] True st' [OF g] show ?thesis
      unfolding seg_ok_def new by (auto simp: nth_append less_Suc_eq c'_def)
  next
    case False
    then have "L' i g = L i g" by (simp add: L'_def)
    with n(2) g False st' [OF g] show ?thesis unfolding seg_ok_def by (auto simp: c'_def)
  qed
  have "\<forall>x \<in> set (get_range (pe_lo p) (pe_width p) (oc_segmentState c)). \<not> 2 = x"
    using free b ctx by (subst ball_get_range_iff) (auto simp: c_def)
  then have cnt: "length (filter ((=) 2) (oc_segmentState c')) = oc_committedSegments c"
    using ctx by (simp add: c'_def filter_fill_range ctx_live_def)
  have "ctx_live (ps @ [p]) L' i c'"
    unfolding ctx_live_def using ctx n(1) seg cnt p(3) nd
    by (auto simp: c'_def c_def ctx_live_def)
  then have ci: "ctx_ok (ps @ [p]) L' i c'"
    using ctx b i by (simp add: ctx_ok_def c'_def)
  have "ctx_ok (ps @ [p]) L' j (cs[i := c'] ! j)" if "j < 4" for j
  proof (cases "j = i")
    case False
    then have "ctx_ok (ps @ [p]) L j (cs ! j) = ctx_ok ps L j (cs ! j)"
      by (intro ctx_ok_cong) (auto simp: p)
    moreover have "ctx_ok (ps @ [p]) L' j (cs ! j) = ctx_ok (ps @ [p]) L j (cs ! j)"
      unfolding ctx_ok_def ctx_live_def seg_ok_def using False by (simp add: L'_def)
    ultimately show ?thesis using False ok that by (simp add: core_ok_def)
  qed (use ci i len in simp)
  moreover have "pe_ok (cs[i := c']) q" if "pe_ok cs q" for q
    using that len i by (auto simp: pe_ok_def oc_matches_def nth_list_update c'_def c_def)
  moreover have "pe_ok (cs[i := c']) p"
    using m p len i by (auto simp: pe_ok_def oc_matches_def c'_def)
  moreover have "pe_order q p" if "q \<in> set ps" for q
  proof -
    have "pe_ok cs q" using ok that by (simp add: core_ok_def)
    then have "pe_slot q = i \<longrightarrow> \<not> pe_drain q" using nd by (auto simp: pe_ok_def)
    moreover have "\<not> (covers q j g \<and> covers p j g)" for j g
      using nocov [of g q] that p(1) by (auto simp: covers_def)
    ultimately show ?thesis using that ids p(1,2) by (auto simp: pe_order_def)
  qed
  ultimately show ?thesis
    using ok len by (auto simp: core_ok_def sorted_wrt_append c'_def c_def)
qed

text \<open>A drain request: the context refuses further contributions until it is released.\<close>

lemma core_drain:
  assumes ok: "core_ok L cs ps" and m: "oc_matches cs i (pe_tag p)"
    and c: "oc_expectedKeyTile (cs ! i) = oc_keyTiles (cs ! i)"
    and p: "pe_slot p = i" "pe_drain p" and ids: "\<forall>q \<in> set ps. pe_id q < pe_id p"
    and late: "\<forall>q \<in> set ps. \<not> pe_drain q \<longrightarrow> pe_readyCycle q \<le> pe_readyCycle p"
  shows "core_ok L (cs[i := (cs ! i)\<lparr>oc_draining := True\<rparr>]) (ps @ [p])"
proof -
  let ?c = "(cs ! i)\<lparr>oc_draining := True\<rparr>"
  have len: "length cs = 4" using ok by (simp add: core_ok_def)
  have i: "i < 4" "oc_valid (cs ! i)" using oc_matchesD [OF m] by auto
  have same: "ctx_ok (ps @ [p]) L j d = ctx_ok ps L j d" for j d
    by (rule ctx_ok_cong) (auto simp: p)
  have "unat (oc_keyTiles (cs ! i)) \<le> n" if "oc_expectedKeyTile (cs ! i) = of_nat n" for n
  proof -
    have "oc_keyTiles (cs ! i) = of_nat n" using that c by simp
    then show ?thesis by (simp only: unsigned_of_nat take_bit_nat_less_eq_self of_nat_id)
  qed
  moreover have live: "ctx_live ps L i (cs ! i)" "length (oc_values (cs ! i)) = 2048"
    "length (oc_segmentState (cs ! i)) = 128"
    using ok i by (auto simp: core_ok_def ctx_ok_def)
  moreover have "seg_ok ps L i ?c n g = seg_ok ps L i (cs ! i) n g" for n g by (simp add: seg_ok_def)
  ultimately have "ctx_ok ps L i ?c"
    using i(2) unfolding ctx_ok_def ctx_live_def by auto
  then have "ctx_ok (ps @ [p]) L j (cs[i := ?c] ! j)" if "j < 4" for j
    using ok that len i(1) unfolding same by (cases "j = i") (simp_all add: core_ok_def)
  moreover have "pe_ok (cs[i := ?c]) q" if "pe_ok cs q" for q
    using that len i by (auto simp: pe_ok_def oc_matches_def nth_list_update)
  moreover have "pe_ok (cs[i := ?c]) p"
    using m p len i by (auto simp: pe_ok_def oc_matches_def)
  moreover have "pe_order q p" if "q \<in> set ps" for q
    using that ids late p by (auto simp: pe_order_def covers_def)
  ultimately show ?thesis using ok len by (auto simp: core_ok_def sorted_wrt_append)
qed

text \<open>A slot that owns nothing pending may be replaced by a fresh or an empty context.\<close>

lemma core_replace:
  assumes ok: "core_ok L cs ps" and i: "i < 4" and none: "\<forall>p \<in> set ps. pe_slot p \<noteq> i"
    and c: "ctx_ok [] L' i c" and L': "\<And>j. j \<noteq> i \<Longrightarrow> L' j = L j"
  shows "core_ok L' (cs[i := c]) ps"
proof -
  have len: "length cs = 4" using ok by (simp add: core_ok_def)
  have "ctx_ok ps L' j (cs[i := c] ! j)" if "j < 4" for j
  proof (cases "j = i")
    case True
    have "ctx_ok ps L' i c = ctx_ok [] L' i c" by (rule ctx_ok_cong) (use none in auto)
    with True c i len show ?thesis by simp
  next
    case False
    have "ctx_ok ps L' j (cs ! j) = ctx_ok ps L j (cs ! j)"
      unfolding ctx_ok_def ctx_live_def seg_ok_def using L' [OF False] by simp
    with False ok that show ?thesis by (simp add: core_ok_def)
  qed
  moreover have "pe_ok (cs[i := c]) q" if "q \<in> set ps" for q
    using that ok none len by (auto simp: core_ok_def pe_ok_def oc_matches_def)
  ultimately show ?thesis using ok len by (auto simp: core_ok_def)
qed

lemma ctx_ok_init: "ctx_ok ps L i oc_init"
  by (simp add: ctx_ok_def oc_init_def oa_consts)

lemma core_no_pending:
  assumes "core_ok L cs ps" "\<not> oc_valid (cs ! i)"
  shows "\<forall>p \<in> set ps. pe_slot p \<noteq> i"
  using assms by (auto simp: core_ok_def pe_ok_def oc_matches_def)

lemma ctx_ok_fresh:
  assumes "ctx_ok ps L i c" "\<not> oc_valid c"
  shows "ctx_ok [] (L(i := \<lambda>g. [])) i (c\<lparr>oc_valid := True, oc_tag := t, oc_keyTiles := k,
           oc_values := replicate kValuesPerContext 0, oc_segmentState := replicate (kRows * kPanels) 0\<rparr>)"
proof -
  have "oc_seg (replicate 2048 0) g = seg_value []" if "g < 128" for g
    using that by (simp add: oc_seg_def seg_value_def get_range_def oa_consts)
  with assms show ?thesis
    by (auto simp: ctx_ok_def ctx_live_def seg_ok_def oa_consts intro!: exI [of _ 0])
qed

lemma oa_reserve_ok:
  assumes "oa_ok L s" "oa_reserve i t k s = (r, s')"
  shows "oa_ok (log_step (OaReserve i t k) (OaBool r) L) s'"
proof (cases r)
  case True
  with assms(2) have g: "i < 4" "\<not> oc_valid (oa_contexts s ! i)"
    by (auto simp: oa_reserve_def Let_def oa_consts split: if_splits)
  have core: "core_ok L (oa_contexts s) (oa_pending s)" using assms(1) by (simp add: oa_ok_def)
  then have "ctx_ok (oa_pending s) L i (oa_contexts s ! i)" using g by (simp add: core_ok_def)
  note C = core_replace [OF core g(1) core_no_pending [OF core g(2)] ctx_ok_fresh [OF this g(2)]]
  from True assms(2) have "oa_contexts s' = (oa_contexts s)[i := (oa_contexts s ! i)\<lparr>oc_valid := True,
      oc_tag := t, oc_keyTiles := k, oc_values := replicate kValuesPerContext 0,
      oc_segmentState := replicate (kRows * kPanels) 0\<rparr>]"
    "oa_pending s' = oa_pending s" "oa_nextId s' = oa_nextId s"
    "oa_bankReadyCycle s' = oa_bankReadyCycle s" "oa_ports s' = oa_ports s"
    by (auto simp: oa_reserve_def Let_def oa_ports_def split: if_splits)
  with True C assms(1) show ?thesis by (simp add: oa_ok_def)
qed (use assms in \<open>auto simp: oa_reserve_def Let_def split: if_splits\<close>)

lemma oa_release_ok:
  assumes "oa_ok L s" "oa_release i t s = (r, s')"
  shows "oa_ok L s'"
proof (cases r)
  case True
  have core: "core_ok L (oa_contexts s) (oa_pending s)" using assms(1) by (simp add: oa_ok_def)
  from True assms(2) have m: "oc_matches (oa_contexts s) i t" and np: "\<not> oa_hasPending s i t"
    and s': "s' = s\<lparr>oa_contexts := (oa_contexts s)[i := oc_init], oa_occupied := sub32 (oa_occupied s) 1\<rparr>"
    by (auto simp: oa_release_def oa_matches_def split: if_splits)
  have "\<forall>p \<in> set (oa_pending s). pe_slot p \<noteq> i"
    using core np oc_matchesD [OF m]
    by (auto simp: oa_hasPending_def list_ex_iff core_ok_def pe_ok_def oc_matches_def)
  from core_replace [OF core _ this ctx_ok_init] oc_matchesD [OF m]
  have "core_ok L ((oa_contexts s)[i := oc_init]) (oa_pending s)" by simp
  with assms(1) show ?thesis by (simp add: oa_ok_def oa_ports_def s')
qed (use assms in \<open>auto simp: oa_release_def split: if_splits\<close>)

lemma cancelContexts_eq:
  "snd (snd (oa_cancelContexts g occ cs)) =
     map (\<lambda>c. if oc_valid c \<and> tag_generation (oc_tag c) = g then oc_init else c) cs"
  by (induction g occ cs rule: oa_cancelContexts.induct) (auto split: prod.splits)

lemma oa_cancelGeneration_ok:
  assumes "oa_ok L s" "oa_cancelGeneration g s = (r, s')"
  shows "oa_ok L s'"
proof -
  let ?f = "\<lambda>c. if oc_valid c \<and> tag_generation (oc_tag c) = g then oc_init else c"
  let ?ps = "filter (\<lambda>p. tag_generation (pe_tag p) \<noteq> g) (oa_pending s)"
  have core: "core_ok L (oa_contexts s) (oa_pending s)" using assms(1) by (simp add: oa_ok_def)
  have len: "length (oa_contexts s) = 4" using core by (simp add: core_ok_def)
  have s': "oa_contexts s' = map ?f (oa_contexts s)" "oa_pending s' = ?ps"
    "oa_nextId s' = oa_nextId s" "oa_bankReadyCycle s' = oa_bankReadyCycle s" "oa_ports s' = oa_ports s"
    using assms(2) cancelContexts_eq [of g "oa_occupied s" "oa_contexts s"]
    by (auto simp: oa_cancelGeneration_def oa_ports_def split: prod.splits)
  have own: "oc_tag (oa_contexts s ! pe_slot p) = pe_tag p" if "p \<in> set (oa_pending s)" for p
    using core that oc_matchesD by (auto simp: core_ok_def pe_ok_def)
  have "ctx_ok ?ps L i (map ?f (oa_contexts s) ! i)" if "i < 4" for i
  proof (cases "oc_valid (oa_contexts s ! i) \<and> tag_generation (oc_tag (oa_contexts s ! i)) = g")
    case True
    with that len show ?thesis by (simp add: ctx_ok_init)
  next
    case False
    have "ctx_ok ?ps L i c = ctx_ok (oa_pending s) L i c" for c
    proof (rule ctx_ok_cong)
      fix p :: OPending assume "pe_slot p = i" "\<not> pe_drain p"
      with False core own [of p] show "p \<in> set ?ps \<longleftrightarrow> p \<in> set (oa_pending s)"
        by (auto simp: core_ok_def pe_ok_def oc_matches_def)
    qed
    moreover have "ctx_ok (oa_pending s) L i (oa_contexts s ! i)" using core that by (simp add: core_ok_def)
    ultimately show ?thesis using False that len by auto
  qed
  moreover have "pe_ok (map ?f (oa_contexts s)) p" if "p \<in> set ?ps" for p
  proof -
    from that have p: "p \<in> set (oa_pending s)" "tag_generation (pe_tag p) \<noteq> g" by auto
    then have "pe_ok (oa_contexts s) p" using core by (simp add: core_ok_def)
    with p own [OF p(1)] len show ?thesis by (auto simp: pe_ok_def oc_matches_def kContexts_def)
  qed
  moreover have "sorted_wrt pe_order ?ps" using core by (simp add: core_ok_def sorted_wrt_filter)
  ultimately have "core_ok L (map ?f (oa_contexts s)) ?ps" using len by (simp add: core_ok_def)
  with assms(1) show ?thesis by (auto simp: oa_ok_def s')
qed

lemma oa_progress_ok:
  assumes "oa_ok L s" "oa_progress now s = (out, s')"
  shows "oa_ok L s' \<and> list_all (co_exact L (\<lambda>i. oc_keyTiles (oa_contexts s ! i))) out \<and>
    map co_id out = map pe_id (filter (\<lambda>p. pe_readyCycle p \<le> now) (oa_pending s)) \<and>
    oa_pending s' = filter (\<lambda>p. now < pe_readyCycle p) (oa_pending s)"
proof -
  obtain kept cs where loop: "oa_progressLoop now (oa_pending s) (oa_contexts s) = (out, kept, cs)"
    and s': "s' = s\<lparr>oa_pending := kept, oa_contexts := cs\<rparr>"
    using assms(2) by (auto simp: oa_progress_def split: prod.splits)
  from assms(1) have "core_ok L (oa_contexts s) ([] @ oa_pending s)" by (simp add: oa_ok_def)
  from oa_progressLoop_core [OF this _ loop] assms(1) show ?thesis
    by (auto simp: oa_ok_def oa_ports_def s')
qed

text \<open>The part of an accepted submission that follows the scheduling.\<close>

lemma oa_submit_core:
  assumes ok: "oa_ok L s" and frame: "oa_frame s s2"
    and bank: "bank_grows (oa_bankReadyCycle s) (oa_bankReadyCycle s2)"
      "oa_bankReadyCycle s2 ! pe_row p = pe_readyCycle p"
    and m: "oa_matches s i (pe_tag p)" and nd: "\<not> oc_draining (oa_contexts s ! i)"
    and p: "pe_id p = oa_nextId s2" "pe_slot p = i" "\<not> pe_drain p"
      "pe_kvTileIndex p = oc_expectedKeyTile (oa_contexts s ! i)"
      "pe_row p < 16" "pe_panel p < 8" "pe_rowFused p \<longrightarrow> pe_panel p = 0"
    and free: "\<And>k. k < pe_width p \<Longrightarrow> oc_segmentState (oa_contexts s ! i) ! (pe_lo p + k) = 0"
    and s': "oa_contexts s' = (oa_contexts s)[i := (oa_contexts s ! i)\<lparr>oc_segmentState :=
        fill_range (pe_lo p) (pe_width p) 1 (oc_segmentState (oa_contexts s ! i))\<rparr>]"
      "oa_pending s' = emplace_by pe_id p (oa_pending s2)" "oa_nextId s' = oa_nextId s2 + 1"
      "oa_bankReadyCycle s' = oa_bankReadyCycle s2" "oa_ports s' = oa_ports s2"
  shows "oa_ok (L(i := \<lambda>g. if covers p i g then L i g @ [pe_contrib p g] else L i g)) s'"
proof -
  have old: "core_ok L (oa_contexts s) (oa_pending s)" "length (oa_bankReadyCycle s) = 16"
    "\<forall>q \<in> set (oa_pending s). pe_id q < oa_nextId s"
    "\<forall>q \<in> set (oa_pending s). \<not> pe_drain q \<longrightarrow> pe_readyCycle q \<le> oa_bankReadyCycle s ! pe_row q"
    "oa_ports s" using ok by (auto simp: oa_ok_def)
  have f: "oa_pending s2 = oa_pending s" "oa_nextId s2 = oa_nextId s" "oa_ports s2"
    using frame old(5) by (auto simp: oa_frame_def)
  have ids: "\<forall>q \<in> set (oa_pending s). pe_id q < pe_id p" using old(3) p(1) f by simp
  have pend: "oa_pending s' = oa_pending s @ [p]"
    unfolding s' f by (rule emplace_by_last [OF ids])
  have "oc_matches (oa_contexts s) i (pe_tag p)" using m by (simp add: oa_matches_def)
  note core = core_submit [OF old(1) this nd p(2-7) free ids]
  have "pe_readyCycle q \<le> oa_bankReadyCycle s2 ! pe_row q" if "q \<in> set (oa_pending s)" "\<not> pe_drain q" for q
  proof -
    have "pe_row q < 16" using old(1) that by (auto simp: core_ok_def pe_ok_def)
    then have "oa_bankReadyCycle s ! pe_row q \<le> oa_bankReadyCycle s2 ! pe_row q"
      using old(2) bank(1) by (simp add: bank_grows_def)
    with old(4) that show ?thesis by (meson order.trans)
  qed
  then have "\<forall>q \<in> set (oa_pending s'). \<not> pe_drain q \<longrightarrow> pe_readyCycle q \<le> oa_bankReadyCycle s' ! pe_row q"
    using bank(2) by (simp add: pend s')
  moreover have "\<forall>q \<in> set (oa_pending s'). pe_id q < oa_nextId s'"
    using ids p(1) unfolding pend s' by (simp add: less_Suc_eq)
  moreover have "length (oa_bankReadyCycle s') = 16" "oa_ports s'"
    using bank(1) old(2) f by (simp_all add: s' bank_grows_def)
  ultimately show ?thesis using core by (simp only: oa_ok_def pend s'(1))
qed

lemma oa_submitSegment_ok:
  assumes "oa_ok L s" "oa_submitSegment i t kv row panel alpha vs now nul s = (r, s')"
  shows "oa_ok (log_step (OaSubmitSegment i t kv row panel alpha vs now nul) (OaIssued r) L) s'"
proof (cases r)
  case (Some w')
  let ?c = "oa_contexts s ! i" and ?g = "row * kPanels + panel"
  let ?cursor = "max now (oa_bankReadyCycle s ! row)"
  let ?s1 = "s\<lparr>oa_bankConflictCycles := oa_bankConflictCycles s + (?cursor - now)\<rparr>"
  obtain w s2 where pipe: "oa_pipeline kv row 1 ?cursor ?s1 = (w, s2)" by fastforce
  let ?p = "pe_init\<lparr>pe_id := oa_nextId s2, pe_readyCycle := w + 1, pe_slot := i, pe_tag := t,
     pe_kvTileIndex := kv, pe_row := row, pe_panel := panel, pe_alpha := alpha, pe_values := vs\<rparr>"
  have g1: "\<not> (\<not> oa_matches s i t \<or> row \<ge> kRows \<or> panel \<ge> kPanels \<or> length vs \<noteq> kValuesPerSegment \<or>
      \<not> f32_isfinite alpha \<or> nul)"
    and g2: "\<not> (oc_draining ?c \<or> kv \<noteq> oc_expectedKeyTile ?c \<or> oc_segmentState ?c ! ?g \<noteq> 0)"
    using assms(2) Some by (auto simp: oa_submitSegment_def Let_def split: if_splits)
  have s': "s' = (oa_setContext i (?c\<lparr>oc_segmentState := (oc_segmentState ?c)[?g := 1]\<rparr>)
      (oa_enqueue ?p s2))\<lparr>oa_accumulateOperations := oa_accumulateOperations s2 + 1\<rparr>"
    using assms(2) unfolding oa_submitSegment_def if_not_P [OF g1] Let_def if_not_P [OF g2] pipe
    by (auto simp: oa_setContext_def oa_enqueue_def)
  have bank: "row < length (oa_bankReadyCycle ?s1)" "oa_bankReadyCycle ?s1 ! row \<le> ?cursor"
    using assms(1) g1 by (auto simp: oa_ok_def kRows_def)
  note P = pipeline_ok [OF pipe bank]
  have f1: "oa_frame s ?s1" by (simp add: oa_frame_def oa_ports_def)
  note frame = oa_frame_trans [OF f1 P(1)]
  have core: "core_ok L (oa_contexts s) (oa_pending s)" using assms(1) by (simp add: oa_ok_def)
  then have lst: "length (oc_segmentState ?c) = 128"
    using g1 by (auto simp: oa_matches_def core_ok_def ctx_ok_def dest!: oc_matchesD)
  have glt: "?g < 128" using g1 by (auto simp: oa_consts)
  have lo: "pe_lo ?p = ?g" "pe_width ?p = 1" by (simp_all add: pe_lo_def pe_width_def pe_init_def)
  have fill: "fill_range ?g 1 1 (oc_segmentState ?c) = (oc_segmentState ?c)[?g := 1]"
    using glt lst by (intro nth_equalityI) (auto simp: nth_fill_range nth_list_update)
  have "oa_ok (L(i := \<lambda>g. if covers ?p i g then L i g @ [pe_contrib ?p g] else L i g)) s'"
  proof (rule oa_submit_core [OF assms(1) frame])
    show "oa_contexts s' = (oa_contexts s)[i := ?c\<lparr>oc_segmentState :=
        fill_range (pe_lo ?p) (pe_width ?p) 1 (oc_segmentState ?c)\<rparr>]"
      unfolding lo fill using frame by (simp add: s' oa_setContext_def oa_enqueue_def oa_frame_def)
    show "oc_segmentState ?c ! (pe_lo ?p + k) = 0" if "k < pe_width ?p" for k
      using g2 that unfolding lo by simp
  qed (use P g1 g2 in \<open>auto simp: s' oa_setContext_def oa_enqueue_def lo pe_init_def oa_consts oa_ports_def\<close>)
  moreover have cov: "covers ?p i g \<longleftrightarrow> g = ?g" for g
    unfolding covers_def lo by (auto simp: pe_init_def)
  moreover have lanes: "map (pe_lane ?p 0) [0..<kValuesPerSegment] = vs"
    using g1 by (intro nth_equalityI) (simp_all add: pe_lane_def pe_init_def)
  have "pe_contrib ?p ?g = (kv, alpha, vs)"
    unfolding pe_contrib_def lo diff_self_eq_0 lanes by (simp add: pe_init_def)
  then have "(\<lambda>g. if covers ?p i g then L i g @ [pe_contrib ?p g] else L i g) =
      (L i)(?g := L i ?g @ [(kv, alpha, vs)])"
    by (intro ext) (simp only: cov fun_upd_def cong: if_cong)
  ultimately show ?thesis using Some by simp
qed (use assms in \<open>auto simp: oa_submitSegment_def Let_def split: if_splits prod.splits\<close>)

lemma oa_submitRow_ok:
  assumes "oa_ok L s" "oa_submitRow i t kv row alpha vs now nul s = (r, s')"
  shows "oa_ok (log_step (OaSubmitRow i t kv row alpha vs now nul) (OaIssued r) L) s'"
proof (cases r)
  case (Some w')
  let ?c = "oa_contexts s ! i" and ?g = "row * kPanels"
  let ?cursor = "max now (oa_bankReadyCycle s ! row)"
  obtain w s2 where pipe: "oa_pipeline kv row kPanels ?cursor s = (w, s2)" by fastforce
  let ?p = "pe_init\<lparr>pe_id := oa_nextId s2, pe_readyCycle := w + 1, pe_slot := i, pe_tag := t,
     pe_kvTileIndex := kv, pe_row := row, pe_rowFused := True, pe_alpha := alpha, pe_rowValues := vs\<rparr>"
  have g1: "\<not> (\<not> oa_matches s i t \<or> row \<ge> kRows \<or> length vs \<noteq> kRowFmaLanes \<or> \<not> f32_isfinite alpha \<or> nul)"
    and g2: "\<not> (oc_draining ?c \<or> kv \<noteq> oc_expectedKeyTile ?c \<or>
      list_ex (\<lambda>st. st \<noteq> 0) (get_range ?g kPanels (oc_segmentState ?c)))"
    using assms(2) Some by (auto simp: oa_submitRow_def Let_def split: if_splits)
  have s': "s' = (oa_setContext i (?c\<lparr>oc_segmentState := fill_range ?g kPanels 1 (oc_segmentState ?c)\<rparr>)
      (oa_enqueue ?p s2))\<lparr>oa_accumulateOperations := oa_accumulateOperations s2 + kPanels,
                         oa_rowOperations := oa_rowOperations s2 + 1\<rparr>"
    using assms(2) unfolding oa_submitRow_def if_not_P [OF g1] Let_def if_not_P [OF g2] pipe
    by (auto simp: oa_setContext_def oa_enqueue_def)
  have bank: "row < length (oa_bankReadyCycle s)" "oa_bankReadyCycle s ! row \<le> ?cursor"
    using assms(1) g1 by (auto simp: oa_ok_def kRows_def)
  note P = pipeline_ok [OF pipe bank]
  have core: "core_ok L (oa_contexts s) (oa_pending s)" using assms(1) by (simp add: oa_ok_def)
  then have lst: "length (oc_segmentState ?c) = 128"
    using g1 by (auto simp: oa_matches_def core_ok_def ctx_ok_def dest!: oc_matchesD)
  have glt: "?g + kPanels \<le> 128" using g1 by (auto simp: oa_consts)
  have lo: "pe_lo ?p = ?g" "pe_width ?p = kPanels" by (simp_all add: pe_lo_def pe_width_def pe_init_def)
  have free: "oc_segmentState ?c ! (?g + k) = 0" if "k < kPanels" for k
    using g2 that glt lst ball_get_range_iff [of ?g kPanels "oc_segmentState ?c" "\<lambda>st. st = 0"]
    by (auto simp: list_ex_iff)
  have "oa_ok (L(i := \<lambda>g. if covers ?p i g then L i g @ [pe_contrib ?p g] else L i g)) s'"
  proof (rule oa_submit_core [OF assms(1) P(1,2)])
    show "oa_contexts s' = (oa_contexts s)[i := ?c\<lparr>oc_segmentState :=
        fill_range (pe_lo ?p) (pe_width ?p) 1 (oc_segmentState ?c)\<rparr>]"
      unfolding lo using P(1) by (simp add: s' oa_setContext_def oa_enqueue_def oa_frame_def)
    show "oc_segmentState ?c ! (pe_lo ?p + k) = 0" if "k < pe_width ?p" for k
      using free that unfolding lo by simp
  qed (use P g1 g2 in \<open>auto simp: s' oa_setContext_def oa_enqueue_def lo pe_init_def kRows_def oa_ports_def\<close>)
  moreover have cov: "covers ?p i g \<longleftrightarrow> ?g \<le> g \<and> g < ?g + kPanels" for g
    unfolding covers_def lo by (auto simp: pe_init_def)
  have contrib: "pe_contrib ?p g = (kv, alpha, oc_seg vs (g - ?g))" if "?g \<le> g \<and> g < ?g + kPanels" for g
  proof -
    have b: "(g - ?g) * kValuesPerSegment + kValuesPerSegment \<le> length vs"
      using g1 that by (auto simp: oa_consts)
    have "map (pe_lane ?p (g - ?g)) [0..<kValuesPerSegment] = oc_seg vs (g - ?g)"
      unfolding oc_seg_def using b by (intro nth_equalityI) (auto simp: pe_lane_def pe_init_def)
    then show ?thesis unfolding pe_contrib_def lo by (simp add: pe_init_def)
  qed
  have "(\<lambda>g. if covers ?p i g then L i g @ [pe_contrib ?p g] else L i g) =
      (\<lambda>g. if ?g \<le> g \<and> g < ?g + kPanels then L i g @ [(kv, alpha, oc_seg vs (g - ?g))] else L i g)"
    by (rule ext) (simp only: cov contrib cong: if_cong)
  ultimately show ?thesis using Some by simp
qed (use assms in \<open>auto simp: oa_submitRow_def Let_def split: if_splits prod.splits\<close>)

lemma oa_requestDrain_ok:
  assumes "oa_ok L s" "oa_requestDrain i t now nul s = (r, s')"
  shows "oa_ok L s'"
proof (cases r)
  case (Some w')
  let ?c = "oa_contexts s ! i"
  obtain cur s1 where reads: "oa_drainReads (now, s) = (cur, s1)" by fastforce
  let ?p = "pe_init\<lparr>pe_id := oa_nextId s1, pe_readyCycle := cur, pe_slot := i, pe_tag := t, pe_drain := True\<rparr>"
  have g1: "\<not> (\<not> oa_matches s i t \<or> nul)"
    and g2: "\<not> (oc_draining ?c \<or> oc_expectedKeyTile ?c \<noteq> oc_keyTiles ?c \<or> oc_committedSegments ?c \<noteq> 0)"
    using assms(2) Some by (auto simp: oa_requestDrain_def Let_def split: if_splits)
  have s': "s' = (oa_setContext i (?c\<lparr>oc_draining := True\<rparr>) (oa_enqueue ?p s1))
      \<lparr>oa_drainOperations := oa_drainOperations s1 + 1\<rparr>"
    using assms(2) unfolding oa_requestDrain_def if_not_P [OF g1] Let_def if_not_P [OF g2] reads
    by (auto simp: oa_setContext_def oa_enqueue_def)
  have old: "core_ok L (oa_contexts s) (oa_pending s)" "length (oa_bankReadyCycle s) = 16"
    "\<forall>q \<in> set (oa_pending s). pe_id q < oa_nextId s"
    "\<forall>q \<in> set (oa_pending s). \<not> pe_drain q \<longrightarrow> pe_readyCycle q \<le> oa_bankReadyCycle s ! pe_row q"
    "oa_ports s" using assms(1) by (auto simp: oa_ok_def)
  note D = drainReads_ok [OF reads old(2)]
  have f: "oa_contexts s1 = oa_contexts s" "oa_pending s1 = oa_pending s" "oa_nextId s1 = oa_nextId s"
    "oa_ports s1" using D(1) old(5) by (auto simp: oa_frame_def)
  have ids: "\<forall>q \<in> set (oa_pending s). pe_id q < pe_id ?p" using old(3) f by (simp add: pe_init_def)
  have row: "pe_row q < 16" if "q \<in> set (oa_pending s)" "\<not> pe_drain q" for q
    using old(1) that by (auto simp: core_ok_def pe_ok_def)
  have late: "\<forall>q \<in> set (oa_pending s). \<not> pe_drain q \<longrightarrow> pe_readyCycle q \<le> pe_readyCycle ?p"
    using old(4) D(4) row by (auto simp: pe_init_def intro: order.trans)
  have bank: "\<forall>q \<in> set (oa_pending s). \<not> pe_drain q \<longrightarrow> pe_readyCycle q \<le> oa_bankReadyCycle s1 ! pe_row q"
    using old(2,4) D(2) row unfolding bank_grows_def by (metis order.trans)
  have pend: "oa_pending s' = oa_pending s @ [?p]"
    using emplace_by_last [OF ids] f by (simp add: s' oa_setContext_def oa_enqueue_def)
  have "core_ok L ((oa_contexts s)[i := ?c\<lparr>oc_draining := True\<rparr>]) (oa_pending s @ [?p])"
    using g1 g2 old(1) ids late by (intro core_drain) (auto simp: oa_matches_def pe_init_def)
  moreover have "\<forall>q \<in> set (oa_pending s'). pe_id q < oa_nextId s'"
    using old(3) f unfolding pend by (auto simp: s' oa_setContext_def oa_enqueue_def less_Suc_eq pe_init_def)
  moreover have "\<forall>q \<in> set (oa_pending s'). \<not> pe_drain q \<longrightarrow> pe_readyCycle q \<le> oa_bankReadyCycle s' ! pe_row q"
    using bank unfolding pend by (auto simp: s' oa_setContext_def oa_enqueue_def pe_init_def)
  moreover have "length (oa_bankReadyCycle s') = 16" "oa_ports s'"
    "oa_contexts s' = (oa_contexts s)[i := ?c\<lparr>oc_draining := True\<rparr>]"
    using old(2) D(2) f
    by (simp_all add: s' oa_setContext_def oa_enqueue_def bank_grows_def oa_ports_def)
  ultimately show ?thesis by (simp only: oa_ok_def pend)
qed (use assms in \<open>auto simp: oa_requestDrain_def Let_def split: if_splits prod.splits\<close>)

lemma oa_step_ok:
  assumes "oa_ok L s" "oa_step x s = (r, s')"
  shows "oa_ok (log_step x r L) s'"
proof (cases x)
  case (OaProgress now)
  with assms oa_progress_ok [OF assms(1), of now] show ?thesis by (cases "oa_progress now s") auto
qed (use assms in \<open>auto simp: apfst_def map_prod_def split: prod.splits
      dest: oa_reserve_ok oa_release_ok oa_cancelGeneration_ok oa_requestDrain_ok
        oa_submitRow_ok oa_submitSegment_ok\<close>)

text \<open>A run of the accumulator together with its log.\<close>

fun oa_run :: "oa_op list \<Rightarrow> oa_log \<times> OAccumulator \<Rightarrow> oa_log \<times> OAccumulator" where
  "oa_run [] ls = ls"
| "oa_run (x # xs) (L, s) = (case oa_step x s of (r, s') \<Rightarrow> oa_run xs (log_step x r L, s'))"

lemma oa_run_ok: "oa_ok (fst ls) (snd ls) \<Longrightarrow> oa_ok (fst (oa_run xs ls)) (snd (oa_run xs ls))"
proof (induction xs ls rule: oa_run.induct)
  case (2 x xs L s)
  then show ?case using oa_step_ok [of L s x] by (auto split: prod.splits)
qed simp

definition oa_start :: "oa_log \<times> OAccumulator" where
  "oa_start = ((\<lambda>i g. []), oa_init)"

lemma oa_reach: "oa_ok (fst (oa_run xs oa_start)) (snd (oa_run xs oa_start))"
  by (rule oa_run_ok) (simp add: oa_start_def oa_ok_init)

end
