(* ===== verification/O_Accumulator_Pool.thy ===== *)
theory O_Accumulator_Pool
  imports O_Accumulator_Correct
begin

text \<open>
  The contexts of the O accumulator as a pool: the occupancy counters agree with the contexts,
  the pool contract holds, and the main properties of the accumulator.
\<close>

section \<open>Occupancy\<close>

definition occ_ok :: "OAccumulator \<Rightarrow> bool" where
  "occ_ok s \<longleftrightarrow> length (oa_contexts s) = 4 \<and> oa_occupied s = length (filter oc_valid (oa_contexts s)) \<and>
     oa_occupied s \<le> oa_highWater s \<and> oa_highWater s \<le> 4"

lemma occ_ok_cong:
  assumes "map oc_valid (oa_contexts s') = map oc_valid (oa_contexts s)"
    "oa_occupied s' = oa_occupied s" "oa_highWater s' = oa_highWater s"
  shows "occ_ok s' = occ_ok s"
proof -
  have "length (filter oc_valid (oa_contexts s')) = length (filter oc_valid (oa_contexts s))"
    using arg_cong [OF assms(1), of "\<lambda>l. length (filter id l)"] by (simp add: filter_map comp_def)
  then show ?thesis using assms map_eq_imp_length_eq [OF assms(1)] by (simp add: occ_ok_def)
qed

lemma pipeline_frame:
  assumes "oa_pipeline kv row n cursor s = (w, s')"
  shows "oa_contexts s' = oa_contexts s" "oa_occupied s' = oa_occupied s" "oa_highWater s' = oa_highWater s"
  using pipeline_split [OF assms] by (simp_all add: oa_frame_def)

lemma fold_frame:
  assumes "\<And>x a. f (g x a) = f a"
  shows "f (fold g xs a) = f a"
  by (induction xs arbitrary: a) (simp_all add: assms)

lemma drainReads_frame:
  assumes "oa_drainReads (now, s) = (c, s')"
  shows "oa_contexts s' = oa_contexts s" "oa_occupied s' = oa_occupied s" "oa_highWater s' = oa_highWater s"
proof -
  let ?f = "\<lambda>a. (oa_contexts (snd a), oa_occupied (snd a), oa_highWater (snd a))"
  have one: "?f (oa_drainRead row a) = ?f a" for row a
    by (cases a) (auto simp: oa_drainRead_def Let_def split: prod.splits)
  have "?f (fold (\<lambda>panel. oa_drainRead row) [0..<kPanels] a) = ?f a" for row a
    by (rule fold_frame [where f = ?f and g = "\<lambda>panel. oa_drainRead row"]) (rule one)
  then have "?f (oa_drainReads (now, s)) = ?f (now, s)"
    unfolding oa_drainReads_def
    by (rule fold_frame [where f = ?f and g = "\<lambda>row cs. fold (\<lambda>panel. oa_drainRead row) [0..<kPanels] cs"])
  with assms show "oa_contexts s' = oa_contexts s" "oa_occupied s' = oa_occupied s" "oa_highWater s' = oa_highWater s"
    by simp_all
qed

lemma complete_valid: "map oc_valid (snd (oa_complete p cs)) = map oc_valid cs"
proof -
  have "map oc_valid (cs[pe_slot p := snd (oc_commit p (cs ! pe_slot p))]) = map oc_valid cs"
    by (rule map_update_same) (simp add: commit_frame)
  then show ?thesis by (auto simp: oa_complete_def Let_def split: prod.splits)
qed

lemma progressLoop_valid: "map oc_valid (snd (snd (oa_progressLoop now ps cs))) = map oc_valid cs"
proof (induction ps arbitrary: cs)
  case (Cons p ps)
  then show ?case
    using complete_valid [of p cs] by (simp add: case_prod_beta)
qed simp

lemma cancelContexts_occ:
  "oa_cancelContexts g occ cs = (n, occ', cs') \<Longrightarrow> length (filter oc_valid cs) \<le> occ \<Longrightarrow>
     occ' + length (filter oc_valid cs) = occ + length (filter oc_valid cs') \<and>
     length cs' = length cs \<and> occ' \<le> occ"
proof (induction g occ cs arbitrary: n occ' cs' rule: oa_cancelContexts.induct)
  case (2 g occ c cs)
  show ?case
  proof (cases "oc_valid c \<and> tag_generation (oc_tag c) = g")
    case True
    obtain n1 occ1 cs1 where r: "oa_cancelContexts g (sub32 occ 1) cs = (n1, occ1, cs1)"
      by (cases "oa_cancelContexts g (sub32 occ 1) cs") auto
    have b: "Suc (length (filter oc_valid cs)) \<le> occ" using "2.prems"(2) True by simp
    then have "length (filter oc_valid cs) \<le> sub32 occ 1" by simp
    note IH = "2.IH"(1) [OF True r this]
    from "2.prems"(1) True r have "occ' = occ1" "cs' = oc_init # cs1" by simp_all
    moreover have "\<not> oc_valid oc_init" by (simp add: oc_init_def)
    ultimately show ?thesis using IH b True by auto
  next
    case False
    obtain n1 occ1 cs1 where r: "oa_cancelContexts g occ cs = (n1, occ1, cs1)"
      by (cases "oa_cancelContexts g occ cs") auto
    have "length (filter oc_valid cs) \<le> occ" using "2.prems"(2) by (simp split: if_splits)
    with "2.IH"(2) [OF False r] "2.prems"(1) False r show ?thesis by auto
  qed
qed simp

definition occ_same :: "OAccumulator \<Rightarrow> OAccumulator \<Rightarrow> bool" where
  "occ_same s s' \<longleftrightarrow> map oc_valid (oa_contexts s') = map oc_valid (oa_contexts s) \<and>
     oa_occupied s' = oa_occupied s \<and> oa_highWater s' = oa_highWater s"

lemma submitSegment_same: "occ_same s (snd (oa_submitSegment i t kv row panel alpha vs now nul s))"
proof -
  let ?cursor = "max now (oa_bankReadyCycle s ! row)"
  obtain w s2 where pipe: "oa_pipeline kv row 1 ?cursor
      (s\<lparr>oa_bankConflictCycles := oa_bankConflictCycles s + (?cursor - now)\<rparr>) = (w, s2)" by fastforce
  show ?thesis
    using pipeline_frame [OF pipe] unfolding oa_submitSegment_def Let_def pipe
    by (simp add: occ_same_def oa_setContext_def oa_enqueue_def map_update_same)
qed

lemma submitRow_same: "occ_same s (snd (oa_submitRow i t kv row alpha vs now nul s))"
proof -
  obtain w s2 where pipe: "oa_pipeline kv row kPanels (max now (oa_bankReadyCycle s ! row)) s = (w, s2)"
    by fastforce
  show ?thesis
    using pipeline_frame [OF pipe] unfolding oa_submitRow_def Let_def pipe
    by (simp add: occ_same_def oa_setContext_def oa_enqueue_def map_update_same)
qed

lemma requestDrain_same: "occ_same s (snd (oa_requestDrain i t now nul s))"
proof -
  obtain c s1 where reads: "oa_drainReads (now, s) = (c, s1)" by fastforce
  show ?thesis
    using drainReads_frame [OF reads] unfolding oa_requestDrain_def Let_def reads
    by (simp add: occ_same_def oa_setContext_def oa_enqueue_def map_update_same)
qed

lemma progress_same: "occ_same s (snd (oa_progress now s))"
  using progressLoop_valid [of now "oa_pending s" "oa_contexts s"]
  by (cases "oa_progressLoop now (oa_pending s) (oa_contexts s)") (simp add: occ_same_def oa_progress_def)

lemma occ_ok_same: "occ_same s s' \<Longrightarrow> occ_ok s \<Longrightarrow> occ_ok s'"
  unfolding occ_same_def by (metis occ_ok_cong)

lemma occ_ok_step:
  assumes "occ_ok s"
  shows "occ_ok (snd (oa_step x s))"
proof (cases x)
  case (OaReserve i t k)
  have "length (filter oc_valid (oa_contexts s)) < 4" if "i < 4" "\<not> oc_valid (oa_contexts s ! i)"
    using that assms length_filter_less [of "oa_contexts s ! i" "oa_contexts s" oc_valid]
    by (simp add: occ_ok_def)
  with OaReserve show ?thesis
    using assms length_filter_update [of i "oa_contexts s" oc_valid]
    by (auto simp: oa_reserve_def Let_def occ_ok_def kContexts_def max_def not_le)
next
  case (OaRelease i t)
  show ?thesis
  proof (cases "fst (oa_release i t s)")
    case True
    then have c: "i < 4" "oc_valid (oa_contexts s ! i)"
      and s': "snd (oa_release i t s) = s\<lparr>oa_contexts := (oa_contexts s)[i := oc_init],
          oa_occupied := sub32 (oa_occupied s) 1\<rparr>"
      by (auto simp: oa_release_def oa_matches_def dest: oc_matchesD split: if_splits)
    have "oa_contexts s ! i \<in> set (oa_contexts s)" using c assms by (simp add: occ_ok_def)
    with c have "filter oc_valid (oa_contexts s) \<noteq> []" by (auto simp: filter_empty_conv)
    moreover have "\<not> oc_valid oc_init" by (simp add: oc_init_def)
    ultimately show ?thesis
      using assms c length_filter_update [of i "oa_contexts s" oc_valid oc_init] OaRelease s'
      by (simp add: occ_ok_def Suc_le_eq) linarith
  next
    case False
    with assms OaRelease show ?thesis by (auto simp: oa_release_def split: if_splits)
  qed
next
  case (OaCancelGeneration g)
  obtain n occ cs where c: "oa_cancelContexts g (oa_occupied s) (oa_contexts s) = (n, occ, cs)"
    by (cases "oa_cancelContexts g (oa_occupied s) (oa_contexts s)") auto
  have s': "snd (oa_step x s) = s\<lparr>oa_pending := filter (\<lambda>p. tag_generation (pe_tag p) \<noteq> g) (oa_pending s),
      oa_contexts := cs, oa_occupied := occ\<rparr>"
    by (simp add: OaCancelGeneration oa_cancelGeneration_def c)
  have old: "length (oa_contexts s) = 4" "oa_occupied s = length (filter oc_valid (oa_contexts s))"
    "oa_occupied s \<le> oa_highWater s" "oa_highWater s \<le> 4" using assms by (simp_all add: occ_ok_def)
  have "occ + length (filter oc_valid (oa_contexts s)) = oa_occupied s + length (filter oc_valid cs)"
    "length cs = length (oa_contexts s)" "occ \<le> oa_occupied s"
    using cancelContexts_occ [OF c] old(2) by simp_all
  with old show ?thesis unfolding s' occ_ok_def by simp
qed (simp_all add: occ_ok_same [OF submitSegment_same assms] occ_ok_same [OF submitRow_same assms]
    occ_ok_same [OF requestDrain_same assms] occ_ok_same [OF progress_same assms])

lemma occ_ok_run: "occ_ok (snd ls) \<Longrightarrow> occ_ok (snd (oa_run xs ls))"
proof (induction xs ls rule: oa_run.induct)
  case (2 x xs L s)
  then show ?case using occ_ok_step [of s x] by (auto split: prod.splits)
qed simp

lemma occ_reach: "occ_ok (snd (oa_run xs oa_start))"
  by (rule occ_ok_run) (simp add: oa_start_def oa_init_def occ_ok_def oc_init_def kContexts_def)

section \<open>The contexts are a pool of tagged slots\<close>

definition oa_exec :: "oa_op \<Rightarrow> OAccumulator \<Rightarrow> OAccumulator" where
  "oa_exec x s = snd (oa_step x s)"

definition oc_owner :: "OContext list \<Rightarrow> nat \<Rightarrow> AttentionClusterTag option" where
  "oc_owner cs i = (if i < length cs \<and> oc_valid (cs ! i) then Some (oc_tag (cs ! i)) else None)"

definition oa_owner :: "OAccumulator \<Rightarrow> nat \<Rightarrow> AttentionClusterTag option" where
  "oa_owner s = oc_owner (oa_contexts s)"

fun oa_event :: "oa_op \<Rightarrow> OAccumulator \<Rightarrow> pool_event" where
  "oa_event (OaReserve i t k) s = (if fst (oa_reserve i t k s) then Lease i t else Keep)"
| "oa_event (OaRelease i t) s = (if fst (oa_release i t s) then Vacate i t else Keep)"
| "oa_event (OaCancelGeneration g) s = Purge g"
| "oa_event _ s = Keep"

lemma oc_owner_same:
  assumes "map (\<lambda>c. (oc_valid c, oc_tag c)) cs' = map (\<lambda>c. (oc_valid c, oc_tag c)) cs"
  shows "oc_owner cs' = oc_owner cs"
proof
  fix i
  have len: "length cs' = length cs" using map_eq_imp_length_eq [OF assms] .
  have "i < length cs \<Longrightarrow> oc_valid (cs' ! i) = oc_valid (cs ! i) \<and> oc_tag (cs' ! i) = oc_tag (cs ! i)"
    using arg_cong [OF assms, of "\<lambda>l. l ! i"] len by simp
  with len show "oc_owner cs' i = oc_owner cs i" by (auto simp: oc_owner_def)
qed

lemma oc_owner_update:
  "i < length cs \<Longrightarrow> oc_owner (cs[i := c]) =
     (oc_owner cs)(i := if oc_valid c then Some (oc_tag c) else None)"
  by (auto simp: oc_owner_def fun_eq_iff nth_list_update)

lemma submitSegment_contexts:
  "map (\<lambda>c. (oc_valid c, oc_tag c)) (oa_contexts (snd (oa_submitSegment i t kv row panel alpha vs now nul s)))
     = map (\<lambda>c. (oc_valid c, oc_tag c)) (oa_contexts s)"
proof -
  let ?cursor = "max now (oa_bankReadyCycle s ! row)"
  obtain w s2 where pipe: "oa_pipeline kv row 1 ?cursor
      (s\<lparr>oa_bankConflictCycles := oa_bankConflictCycles s + (?cursor - now)\<rparr>) = (w, s2)" by fastforce
  show ?thesis
    using pipeline_frame [OF pipe] unfolding oa_submitSegment_def Let_def pipe
    by (simp add: oa_setContext_def oa_enqueue_def map_update_same)
qed

lemma submitRow_contexts:
  "map (\<lambda>c. (oc_valid c, oc_tag c)) (oa_contexts (snd (oa_submitRow i t kv row alpha vs now nul s)))
     = map (\<lambda>c. (oc_valid c, oc_tag c)) (oa_contexts s)"
proof -
  obtain w s2 where pipe: "oa_pipeline kv row kPanels (max now (oa_bankReadyCycle s ! row)) s = (w, s2)"
    by fastforce
  show ?thesis
    using pipeline_frame [OF pipe] unfolding oa_submitRow_def Let_def pipe
    by (simp add: oa_setContext_def oa_enqueue_def map_update_same)
qed

lemma requestDrain_contexts:
  "map (\<lambda>c. (oc_valid c, oc_tag c)) (oa_contexts (snd (oa_requestDrain i t now nul s)))
     = map (\<lambda>c. (oc_valid c, oc_tag c)) (oa_contexts s)"
proof -
  obtain c s1 where reads: "oa_drainReads (now, s) = (c, s1)" by fastforce
  show ?thesis
    using drainReads_frame [OF reads] unfolding oa_requestDrain_def Let_def reads
    by (simp add: oa_setContext_def oa_enqueue_def map_update_same)
qed

lemma complete_contexts:
  "map (\<lambda>c. (oc_valid c, oc_tag c)) (snd (oa_complete p cs)) = map (\<lambda>c. (oc_valid c, oc_tag c)) cs"
proof -
  have "map (\<lambda>c. (oc_valid c, oc_tag c)) (cs[pe_slot p := snd (oc_commit p (cs ! pe_slot p))])
      = map (\<lambda>c. (oc_valid c, oc_tag c)) cs"
    by (rule map_update_same) (simp add: commit_frame)
  then show ?thesis by (auto simp: oa_complete_def Let_def split: prod.splits)
qed

lemma progress_contexts:
  "map (\<lambda>c. (oc_valid c, oc_tag c)) (oa_contexts (snd (oa_progress now s)))
     = map (\<lambda>c. (oc_valid c, oc_tag c)) (oa_contexts s)"
proof -
  have "map (\<lambda>c. (oc_valid c, oc_tag c)) (snd (snd (oa_progressLoop now ps cs)))
      = map (\<lambda>c. (oc_valid c, oc_tag c)) cs" for ps cs
  proof (induction ps arbitrary: cs)
    case (Cons p ps)
    then show ?case using complete_contexts [of p cs] by (simp add: case_prod_beta)
  qed simp
  from this [of "oa_pending s" "oa_contexts s"] show ?thesis
    by (cases "oa_progressLoop now (oa_pending s) (oa_contexts s)") (simp add: oa_progress_def)
qed

lemma cancel_contexts:
  "oa_contexts (snd (oa_cancelGeneration g s)) =
     map (\<lambda>c. if oc_valid c \<and> tag_generation (oc_tag c) = g then oc_init else c) (oa_contexts s)"
  using cancelContexts_eq [of g "oa_occupied s" "oa_contexts s"]
  by (cases "oa_cancelContexts g (oa_occupied s) (oa_contexts s)") (simp add: oa_cancelGeneration_def)

lemma oa_event_owner:
  assumes "occ_ok s"
  shows "pool_legal (oa_event x s) (oa_owner s) \<and>
    oa_owner (oa_exec x s) = pool_apply (oa_event x s) (oa_owner s)"
proof -
  have len: "length (oa_contexts s) = 4" using assms by (simp add: occ_ok_def)
  have ini: "\<not> oc_valid oc_init" by (simp add: oc_init_def)
  show ?thesis
  proof (cases x)
    case (OaReserve i t k)
    with len show ?thesis
      by (auto simp: oa_owner_def oa_exec_def oa_reserve_def Let_def oc_owner_update kContexts_def)
         (simp add: oc_owner_def)
  next
    case (OaRelease i t)
    with len ini show ?thesis
      by (auto simp: oa_owner_def oa_exec_def oa_release_def oa_matches_def oc_owner_update dest!: oc_matchesD)
         (simp add: oc_owner_def)
  next
    case (OaCancelGeneration g)
    have "oc_owner (map (\<lambda>c. if oc_valid c \<and> tag_generation (oc_tag c) = g then oc_init else c) cs)
        = pool_apply (Purge g) (oc_owner cs)" for cs
      using ini by (auto simp: oc_owner_def fun_eq_iff)
    with OaCancelGeneration show ?thesis
      by (simp add: oa_owner_def oa_exec_def cancel_contexts)
  qed (simp_all add: oa_owner_def oa_exec_def oc_owner_same [OF submitSegment_contexts]
      oc_owner_same [OF submitRow_contexts] oc_owner_same [OF requestDrain_contexts]
      oc_owner_same [OF progress_contexts])
qed

interpretation o_pool: tagged_pool oa_owner occ_ok oa_init oa_exec oa_event
proof
  show "occ_ok oa_init" by (simp add: oa_init_def occ_ok_def oc_init_def kContexts_def)
  show "oa_owner oa_init i = None" for i by (simp add: oa_owner_def oa_init_def oc_owner_def oc_init_def)
  show "occ_ok (oa_exec x s)" if "occ_ok s" for s x using occ_ok_step [OF that] by (simp add: oa_exec_def)
  show "pool_legal (oa_event x s) (oa_owner s)" "oa_owner (oa_exec x s) = pool_apply (oa_event x s) (oa_owner s)"
    if "occ_ok s" for s x using oa_event_owner [OF that] by auto
qed

section \<open>Properties\<close>

text \<open>
  (C1) Whatever a client does with the O accumulator, \<open>progress\<close> completes exactly the pending
  operations whose cycle has come, in the order of their ids, keeps the others, and every
  completion succeeds.  A drain completion carries the 2048 values of its context, and each
  16-lane segment is the left fold, over all the contributions accepted for it since the
  context was reserved, of \<open>value\<close> for tile 0 and \<open>fma(alpha, old, value)\<close> for the later tiles;
  the contributions are the tiles 0, 1, 2, ... without gap, and there are at least as many as
  key tiles were announced.
\<close>

theorem o_accumulator_drain_exact:
  "case oa_run xs oa_start of (L, s) \<Rightarrow>
     case oa_progress now s of (out, s') \<Rightarrow>
       list_all (co_exact L (\<lambda>i. oc_keyTiles (oa_contexts s ! i))) out \<and>
       map co_id out = map pe_id (filter (\<lambda>p. pe_readyCycle p \<le> now) (oa_pending s)) \<and>
       oa_pending s' = filter (\<lambda>p. now < pe_readyCycle p) (oa_pending s)"
proof -
  obtain L s where r: "oa_run xs oa_start = (L, s)" by fastforce
  obtain out s' where p: "oa_progress now s = (out, s')" by fastforce
  from oa_reach [of xs] r have "oa_ok L s" by simp
  from oa_progress_ok [OF this p] r p show ?thesis by simp
qed


text \<open>
  (C28) The occupancy counter is the number of live contexts at every moment, never more than
  four and never wrapped below zero, and the high-water mark stays between it and four.
\<close>

theorem o_accumulator_occupancy:
  "case oa_run xs oa_start of (L, s) \<Rightarrow>
     oa_occupied s = length (filter oc_valid (oa_contexts s)) \<and>
     oa_occupied s \<le> oa_highWater s \<and> oa_highWater s \<le> kContexts"
  using occ_reach [of xs] by (auto simp: occ_ok_def kContexts_def split: prod.splits)


text \<open>
  A context of the O accumulator stays with its tag until that tag releases it or its
  generation is cancelled; no other call, by any other tag, takes it away.
\<close>

theorem o_accumulator_lease_stable:
  assumes "oa_matches (snd (oa_run xs oa_start)) i t"
    and "x \<noteq> OaRelease i t" "x \<noteq> OaCancelGeneration (tag_generation t)"
  shows "oa_matches (snd (oa_step x (snd (oa_run xs oa_start)))) i t"
proof -
  let ?s = "snd (oa_run xs oa_start)"
  have own: "oa_owner s i = Some t \<longleftrightarrow> oa_matches s i t" if "occ_ok s" for s
    using that by (auto simp: oa_owner_def oc_owner_def oa_matches_def oc_matches_def occ_ok_def kContexts_def)
  have "oa_owner (oa_exec x ?s) i = Some t"
    using assms own [OF occ_reach]
    by (intro o_pool.lease_kept occ_reach) (cases x; auto split: if_splits)+
  then show ?thesis using own [OF occ_ok_step [OF occ_reach]] by (simp add: oa_exec_def)
qed

theorem o_accumulator_lease_stable_witness:
  "oa_matches (snd (oa_step (OaRelease 1 tag_init)
     (snd (oa_run [OaReserve 1 tag_example 3] oa_start)))) 1 tag_example"
  by (rule o_accumulator_lease_stable)
     (simp_all add: tag_example_def tag_init_def oa_reserve_def oa_start_def oa_init_def oa_matches_def
       oc_matches_def oc_init_def kContexts_def Let_def)

end
