(* ===== verification/Cluster_State.thy ===== *)
theory Cluster_State
  imports Cluster_Config
begin

text \<open>
  \<open>AttentionClusterState\<close> of \<open>attention/attentionCluster.h\<close>: the split of the 64 arrays
  between the QK and the PV stage, the contexts of the four stages, and the reference-counted
  leases of the two operand banks of each array.  The invariant says that everything live
  carries the current generation and sits where the code can see it; it makes \<open>drained\<close> agree
  with the live counters and the contexts implement the pool contract.
\<close>

section \<open>State\<close>

datatype AttentionArrayOwner = OwnNone | OwnQk | OwnPv

datatype AttentionClusterContextKind = KQk | KScore | KPv | KO

record AttentionClusterContext =
  cc_valid :: bool
  cc_tag :: AttentionClusterTag
  cc_operandBank :: nat
  cc_creditsHeld :: nat

record BankLease =
  bl_tag :: AttentionClusterTag
  bl_refs :: nat

record AttentionClusterState =
  cs_enabled :: bool
  cs_generation :: u64
  cs_owners :: "AttentionArrayOwner list"
  cs_bankLeases :: "BankLease list list"
  cs_qkContexts :: "AttentionClusterContext list"
  cs_scoreContexts :: "AttentionClusterContext list"
  cs_pvContexts :: "AttentionClusterContext list"
  cs_oContexts :: "AttentionClusterContext list"

definition kArrayCount :: nat where "kArrayCount = 64"
definition kOperandBanks :: nat where "kOperandBanks = 2"
definition kContextSlots :: nat where "kContextSlots = 4"

lemmas cs_consts = kArrayCount_def kOperandBanks_def kContextSlots_def

definition cc_init :: AttentionClusterContext where
  "cc_init = \<lparr>cc_valid = False, cc_tag = tag_init, cc_operandBank = 0, cc_creditsHeld = 0\<rparr>"

definition bl_init :: BankLease where
  "bl_init = \<lparr>bl_tag = tag_init, bl_refs = 0\<rparr>"

definition cs_init :: AttentionClusterState where
  "cs_init = \<lparr>cs_enabled = False, cs_generation = 0, cs_owners = replicate kArrayCount OwnNone,
     cs_bankLeases = replicate kArrayCount (replicate kOperandBanks bl_init),
     cs_qkContexts = replicate kContextSlots cc_init,
     cs_scoreContexts = replicate kContextSlots cc_init,
     cs_pvContexts = replicate kContextSlots cc_init,
     cs_oContexts = replicate kContextSlots cc_init\<rparr>"

fun cs_capacity :: "AttentionClusterContextKind \<Rightarrow> nat" where
  "cs_capacity KQk = 2"
| "cs_capacity KPv = 2"
| "cs_capacity KScore = 4"
| "cs_capacity KO = 4"

fun cs_contextArray :: "AttentionClusterContextKind \<Rightarrow> AttentionClusterState \<Rightarrow> AttentionClusterContext list" where
  "cs_contextArray KQk s = cs_qkContexts s"
| "cs_contextArray KScore s = cs_scoreContexts s"
| "cs_contextArray KPv s = cs_pvContexts s"
| "cs_contextArray KO s = cs_oContexts s"

text \<open>Writing through the reference that \<open>contextArray\<close> returns.\<close>

fun cs_setContextArray ::
  "AttentionClusterContextKind \<Rightarrow> AttentionClusterContext list \<Rightarrow> AttentionClusterState \<Rightarrow> AttentionClusterState" where
  "cs_setContextArray KQk cs s = s\<lparr>cs_qkContexts := cs\<rparr>"
| "cs_setContextArray KScore cs s = s\<lparr>cs_scoreContexts := cs\<rparr>"
| "cs_setContextArray KPv cs s = s\<lparr>cs_pvContexts := cs\<rparr>"
| "cs_setContextArray KO cs s = s\<lparr>cs_oContexts := cs\<rparr>"

section \<open>Operations\<close>

fun cc_clear :: "AttentionClusterContext list \<Rightarrow> nat \<times> AttentionClusterContext list" where
  "cc_clear [] = (0, [])"
| "cc_clear (c # cs) =
     (case cc_clear cs of (n, cs') \<Rightarrow> (if cc_valid c then Suc n else n, cc_init # cs'))"

definition cs_cancel :: "AttentionClusterState \<Rightarrow> nat \<times> AttentionClusterState" where
  "cs_cancel s =
     (case cc_clear (cs_qkContexts s) of (n1, qk) \<Rightarrow>
      case cc_clear (cs_scoreContexts s) of (n2, sc) \<Rightarrow>
      case cc_clear (cs_pvContexts s) of (n3, pv) \<Rightarrow>
      case cc_clear (cs_oContexts s) of (n4, oc) \<Rightarrow>
        (n1 + n2 + n3 + n4,
         s\<lparr>cs_qkContexts := qk, cs_scoreContexts := sc, cs_pvContexts := pv, cs_oContexts := oc,
           cs_bankLeases := map (\<lambda>leases. replicate (length leases) bl_init) (cs_bankLeases s),
           cs_owners := replicate (length (cs_owners s)) OwnNone,
           cs_enabled := False, cs_generation := 0\<rparr>))"

definition cs_configure :: "u64 \<Rightarrow> nat \<Rightarrow> AttentionClusterState \<Rightarrow> bool \<times> AttentionClusterState" where
  "cs_configure generation qkArrays s =
     (if generation = 0 \<or> (qkArrays \<noteq> 16 \<and> qkArrays \<noteq> 24 \<and> qkArrays \<noteq> 32 \<and> qkArrays \<noteq> 40) then (False, s)
      else
        (let s1 = snd (cs_cancel s)
         in (True, s1\<lparr>cs_enabled := True, cs_generation := generation,
                      cs_owners := map (\<lambda>id. if id < qkArrays then OwnQk else OwnPv) [0..<kArrayCount]\<rparr>)))"

definition cs_owns :: "AttentionClusterState \<Rightarrow> nat \<Rightarrow> AttentionArrayOwner \<Rightarrow> bool" where
  "cs_owns s arrayId owner \<longleftrightarrow>
     cs_enabled s \<and> arrayId < length (cs_owners s) \<and> cs_owners s ! arrayId = owner"

text \<open>The loop of \<open>reserve\<close>: the first free slot below the capacity.\<close>

fun cc_firstFree :: "nat \<Rightarrow> nat \<Rightarrow> AttentionClusterContext list \<Rightarrow> nat option" where
  "cc_firstFree i 0 cs = None"
| "cc_firstFree i (Suc n) cs = (if \<not> cc_valid (cs ! i) then Some i else cc_firstFree (Suc i) n cs)"

definition cs_reserve ::
  "AttentionClusterContextKind \<Rightarrow> AttentionClusterTag \<Rightarrow> nat \<Rightarrow> AttentionClusterState \<Rightarrow> int \<times> AttentionClusterState" where
  "cs_reserve kind tag operandBank s =
     (if \<not> cs_enabled s \<or> tag_generation tag \<noteq> cs_generation s \<or> operandBank \<ge> kOperandBanks then (- 1, s)
      else
        (let contexts = cs_contextArray kind s
         in case cc_firstFree 0 (cs_capacity kind) contexts of
              None \<Rightarrow> (- 1, s)
            | Some i \<Rightarrow>
                (int i, cs_setContextArray kind
                   (contexts[i := \<lparr>cc_valid = True, cc_tag = tag, cc_operandBank = operandBank,
                                   cc_creditsHeld = 0\<rparr>]) s)))"

definition cs_callbackMatches ::
  "AttentionClusterState \<Rightarrow> AttentionClusterContextKind \<Rightarrow> nat \<Rightarrow> AttentionClusterTag \<Rightarrow> bool" where
  "cs_callbackMatches s kind slot tag \<longleftrightarrow>
     slot < length (cs_contextArray kind s) \<and> cc_valid (cs_contextArray kind s ! slot) \<and>
     tag_eq (cc_tag (cs_contextArray kind s ! slot)) tag \<and> tag_generation tag = cs_generation s"

definition cs_release ::
  "AttentionClusterContextKind \<Rightarrow> nat \<Rightarrow> AttentionClusterTag \<Rightarrow> AttentionClusterState \<Rightarrow> bool \<times> AttentionClusterState" where
  "cs_release kind slot tag s =
     (if \<not> cs_callbackMatches s kind slot tag then (False, s)
      else (True, cs_setContextArray kind ((cs_contextArray kind s)[slot := cc_init]) s))"

definition cs_lease :: "AttentionClusterState \<Rightarrow> nat \<Rightarrow> nat \<Rightarrow> BankLease" where
  "cs_lease s arrayId bank = cs_bankLeases s ! arrayId ! bank"

definition cs_setLease :: "nat \<Rightarrow> nat \<Rightarrow> BankLease \<Rightarrow> AttentionClusterState \<Rightarrow> AttentionClusterState" where
  "cs_setLease arrayId bank l s =
     s\<lparr>cs_bankLeases := (cs_bankLeases s)[arrayId := (cs_bankLeases s ! arrayId)[bank := l]]\<rparr>"

definition cs_acquireBank ::
  "nat \<Rightarrow> nat \<Rightarrow> AttentionArrayOwner \<Rightarrow> AttentionClusterTag \<Rightarrow> AttentionClusterState \<Rightarrow> bool \<times> AttentionClusterState" where
  "cs_acquireBank arrayId bank owner tag s =
     (if \<not> cs_owns s arrayId owner \<or> bank \<ge> kOperandBanks then (False, s)
      else if bl_refs (cs_lease s arrayId bank) \<noteq> 0 \<or> tag_generation tag \<noteq> cs_generation s then (False, s)
      else (True, cs_setLease arrayId bank \<lparr>bl_tag = tag, bl_refs = 1\<rparr> s))"


definition cs_retainBank ::
  "nat \<Rightarrow> nat \<Rightarrow> AttentionArrayOwner \<Rightarrow> AttentionClusterTag \<Rightarrow> AttentionClusterState \<Rightarrow> bool \<times> AttentionClusterState" where
  "cs_retainBank arrayId bank owner tag s =
     (if \<not> cs_owns s arrayId owner \<or> bank \<ge> kOperandBanks \<or> bl_refs (cs_lease s arrayId bank) = 0 \<or>
         \<not> tag_eq (bl_tag (cs_lease s arrayId bank)) tag then (False, s)
      else (True, cs_setLease arrayId bank
              ((cs_lease s arrayId bank)\<lparr>bl_refs := bl_refs (cs_lease s arrayId bank) + 1\<rparr>) s))"

definition cs_releaseBank ::
  "nat \<Rightarrow> nat \<Rightarrow> AttentionArrayOwner \<Rightarrow> AttentionClusterTag \<Rightarrow> AttentionClusterState \<Rightarrow> bool \<times> AttentionClusterState" where
  "cs_releaseBank arrayId bank owner tag s =
     (if \<not> cs_owns s arrayId owner \<or> bank \<ge> kOperandBanks \<or> bl_refs (cs_lease s arrayId bank) = 0 \<or>
         \<not> tag_eq (bl_tag (cs_lease s arrayId bank)) tag then (False, s)
      else
        (let l = (cs_lease s arrayId bank)\<lparr>bl_refs := bl_refs (cs_lease s arrayId bank) - 1\<rparr>
         in (True, cs_setLease arrayId bank (if bl_refs l = 0 then bl_init else l) s)))"






section \<open>Call sequences\<close>

datatype cs_op =
    CsConfigure u64 nat
  | CsReserve AttentionClusterContextKind AttentionClusterTag nat
  | CsRelease AttentionClusterContextKind nat AttentionClusterTag
  | CsAcquireBank nat nat AttentionArrayOwner AttentionClusterTag
  | CsRetainBank nat nat AttentionArrayOwner AttentionClusterTag
  | CsReleaseBank nat nat AttentionArrayOwner AttentionClusterTag
  | CsCancel

fun cs_step :: "cs_op \<Rightarrow> AttentionClusterState \<Rightarrow> int \<times> AttentionClusterState" where
  "cs_step (CsConfigure g n) s = apfst (\<lambda>b. if b then 1 else 0) (cs_configure g n s)"
| "cs_step (CsReserve k t b) s = cs_reserve k t b s"
| "cs_step (CsRelease k i t) s = apfst (\<lambda>b. if b then 1 else 0) (cs_release k i t s)"
| "cs_step (CsAcquireBank a b w t) s = apfst (\<lambda>b. if b then 1 else 0) (cs_acquireBank a b w t s)"
| "cs_step (CsRetainBank a b w t) s = apfst (\<lambda>b. if b then 1 else 0) (cs_retainBank a b w t s)"
| "cs_step (CsReleaseBank a b w t) s = apfst (\<lambda>b. if b then 1 else 0) (cs_releaseBank a b w t s)"
| "cs_step CsCancel s = apfst int (cs_cancel s)"

fun cs_run :: "cs_op list \<Rightarrow> AttentionClusterState \<Rightarrow> AttentionClusterState" where
  "cs_run [] s = s"
| "cs_run (x # xs) s = cs_run xs (snd (cs_step x s))"

section \<open>Invariant\<close>

definition cs_inv :: "AttentionClusterState \<Rightarrow> bool" where
  "cs_inv s \<longleftrightarrow>
     length (cs_owners s) = 64 \<and> length (cs_bankLeases s) = 64 \<and>
     (\<forall>ls \<in> set (cs_bankLeases s). length ls = 2) \<and>
     (\<forall>k. length (cs_contextArray k s) = 4) \<and>
     (\<forall>k. \<forall>i < 4. cc_valid (cs_contextArray k s ! i) \<longrightarrow>
        i < cs_capacity k \<and> tag_generation (cc_tag (cs_contextArray k s ! i)) = cs_generation s) \<and>
     (\<forall>a < 64. \<forall>b < 2. bl_refs (cs_lease s a b) \<noteq> 0 \<longrightarrow>
        cs_enabled s \<and> tag_generation (bl_tag (cs_lease s a b)) = cs_generation s) \<and>
     (cs_enabled s \<longrightarrow> OwnNone \<notin> set (cs_owners s))"

lemma contextArray_set [simp]:
  "cs_contextArray k (cs_setContextArray k' cs s) = (if k = k' then cs else cs_contextArray k s)"
  by (cases k; cases k') auto

lemma setContextArray_frame [simp]:
  "cs_enabled (cs_setContextArray k cs s) = cs_enabled s"
  "cs_generation (cs_setContextArray k cs s) = cs_generation s"
  "cs_owners (cs_setContextArray k cs s) = cs_owners s"
  "cs_bankLeases (cs_setContextArray k cs s) = cs_bankLeases s"
  by (cases k; simp)+

lemma setContextArray_lease [simp]: "cs_lease (cs_setContextArray k cs s) = cs_lease s"
  by (simp add: cs_lease_def fun_eq_iff)

lemma setLease_frame [simp]:
  "cs_enabled (cs_setLease a b l s) = cs_enabled s"
  "cs_generation (cs_setLease a b l s) = cs_generation s"
  "cs_owners (cs_setLease a b l s) = cs_owners s"
  "cs_contextArray k (cs_setLease a b l s) = cs_contextArray k s"
  by (cases k; simp add: cs_setLease_def)+

lemma lease_set:
  assumes "length (cs_bankLeases s) = 64" "\<forall>ls \<in> set (cs_bankLeases s). length ls = 2" "a < 64" "b < 2"
  shows "a' < 64 \<Longrightarrow> b' < 2 \<Longrightarrow> cs_lease (cs_setLease a b l s) a' b' = (if a' = a \<and> b' = b then l else cs_lease s a' b')"
    "length (cs_bankLeases (cs_setLease a b l s)) = 64"
    "\<forall>ls \<in> set (cs_bankLeases (cs_setLease a b l s)). length ls = 2"
proof -
  have len: "length (cs_bankLeases s ! a) = 2" using assms by simp
  show "cs_lease (cs_setLease a b l s) a' b' = (if a' = a \<and> b' = b then l else cs_lease s a' b')"
    if "a' < 64" "b' < 2"
    using assms len that by (auto simp: cs_lease_def cs_setLease_def nth_list_update)
  show "length (cs_bankLeases (cs_setLease a b l s)) = 64" using assms by (simp add: cs_setLease_def)
  show "\<forall>ls \<in> set (cs_bankLeases (cs_setLease a b l s)). length ls = 2"
    using assms len by (auto simp: cs_setLease_def dest!: set_update_subset_insert [THEN subsetD])
qed

lemma cc_clear_eq: "cc_clear cs = (length (filter cc_valid cs), replicate (length cs) cc_init)"
  by (induction cs) auto

lemma cs_cancel_eq:
  "cs_cancel s =
     (length (filter cc_valid (cs_qkContexts s)) + length (filter cc_valid (cs_scoreContexts s)) +
      length (filter cc_valid (cs_pvContexts s)) + length (filter cc_valid (cs_oContexts s)),
      s\<lparr>cs_qkContexts := replicate (length (cs_qkContexts s)) cc_init,
        cs_scoreContexts := replicate (length (cs_scoreContexts s)) cc_init,
        cs_pvContexts := replicate (length (cs_pvContexts s)) cc_init,
        cs_oContexts := replicate (length (cs_oContexts s)) cc_init,
        cs_bankLeases := map (\<lambda>leases. replicate (length leases) bl_init) (cs_bankLeases s),
        cs_owners := replicate (length (cs_owners s)) OwnNone,
        cs_enabled := False, cs_generation := 0\<rparr>)"
  by (simp add: cs_cancel_def cc_clear_eq)

lemma cancel_contextArray:
  "cs_contextArray k (snd (cs_cancel s)) = replicate (length (cs_contextArray k s)) cc_init"
  by (cases k) (simp_all add: cs_cancel_eq)

lemma cancel_frame:
  "cs_enabled (snd (cs_cancel s)) = False" "cs_generation (snd (cs_cancel s)) = 0"
  "cs_owners (snd (cs_cancel s)) = replicate (length (cs_owners s)) OwnNone"
  "cs_bankLeases (snd (cs_cancel s)) = map (\<lambda>leases. replicate (length leases) bl_init) (cs_bankLeases s)"
  by (simp_all add: cs_cancel_eq)

lemma cs_invD:
  assumes "cs_inv s"
  shows "length (cs_owners s) = 64" "length (cs_bankLeases s) = 64"
    "\<forall>ls \<in> set (cs_bankLeases s). length ls = 2" "length (cs_contextArray k s) = 4"
    "i < 4 \<Longrightarrow> cc_valid (cs_contextArray k s ! i) \<Longrightarrow>
       i < cs_capacity k \<and> tag_generation (cc_tag (cs_contextArray k s ! i)) = cs_generation s"
    "a < 64 \<Longrightarrow> b < 2 \<Longrightarrow> bl_refs (cs_lease s a b) \<noteq> 0 \<Longrightarrow>
       cs_enabled s \<and> tag_generation (bl_tag (cs_lease s a b)) = cs_generation s"
    "cs_enabled s \<Longrightarrow> OwnNone \<notin> set (cs_owners s)"
  using assms by (auto simp: cs_inv_def)

lemma cc_valid_init [simp]: "\<not> cc_valid cc_init"
  by (simp add: cc_init_def)

lemma bl_refs_init [simp]: "bl_refs bl_init = 0"
  by (simp add: bl_init_def)

lemma cancel_lease:
  assumes "cs_inv s" "a < 64" "b < 2"
  shows "cs_lease (snd (cs_cancel s)) a b = bl_init"
  using assms cs_invD(2,3) [OF assms(1)] by (simp add: cs_lease_def cancel_frame)

lemma cs_inv_cancel:
  assumes "cs_inv s"
  shows "cs_inv (snd (cs_cancel s))"
  using cs_invD(1-4) [OF assms] cancel_lease [OF assms]
  by (auto simp: cs_inv_def cancel_contextArray cancel_frame)

lemma cs_inv_configure:
  assumes "cs_inv s"
  shows "cs_inv (snd (cs_configure g n s))"
proof -
  note c = cs_inv_cancel [OF assms]
  have ctx: "cs_contextArray k (t\<lparr>cs_enabled := e, cs_generation := g', cs_owners := ow\<rparr>) = cs_contextArray k t"
    "cs_lease (t\<lparr>cs_enabled := e, cs_generation := g', cs_owners := ow\<rparr>) = cs_lease t"
    for k t e g' ow by (cases k) (simp_all add: cs_lease_def fun_eq_iff)
  show ?thesis
  proof (cases "fst (cs_configure g n s)")
    case True
    with cs_invD(1-4) [OF c] cancel_lease [OF assms] cs_invD(4) [OF assms] show ?thesis
      by (auto simp: cs_configure_def Let_def cs_inv_def ctx cancel_contextArray kArrayCount_def
          split: if_splits)
  next
    case False
    with assms show ?thesis by (auto simp: cs_configure_def Let_def split: if_splits)
  qed
qed

lemma firstFree_Some:
  "cc_firstFree i n cs = Some j \<Longrightarrow> i \<le> j \<and> j < i + n \<and> \<not> cc_valid (cs ! j)"
  by (induction i n cs rule: cc_firstFree.induct) (auto split: if_splits)

lemma firstFree_None:
  "cc_firstFree i n cs = None \<Longrightarrow> i \<le> j \<Longrightarrow> j < i + n \<Longrightarrow> cc_valid (cs ! j)"
proof (induction i n cs rule: cc_firstFree.induct)
  case (2 i n cs)
  then show ?case by (cases "j = i") (auto split: if_splits)
qed simp

lemma firstFree_2:
  "cc_firstFree i 2 cs = (if \<not> cc_valid (cs ! i) then Some i
     else if \<not> cc_valid (cs ! Suc i) then Some (Suc i) else None)"
  by (simp add: numeral_2_eq_2)

lemma capacity_le: "cs_capacity k \<le> 4"
  by (cases k) auto

lemma cs_inv_setContext:
  assumes "cs_inv s" "i < 4"
    and "cc_valid c \<longrightarrow> i < cs_capacity k \<and> tag_generation (cc_tag c) = cs_generation s"
  shows "cs_inv (cs_setContextArray k ((cs_contextArray k s)[i := c]) s)"
  using assms by (auto simp: cs_inv_def nth_list_update)

lemma cs_inv_reserve:
  assumes "cs_inv s"
  shows "cs_inv (snd (cs_reserve k t b s))"
proof (cases "cc_firstFree 0 (cs_capacity k) (cs_contextArray k s)")
  case (Some j)
  from firstFree_Some [OF Some] have "j < cs_capacity k" "j < 4" using capacity_le [of k] by auto
  with assms Some show ?thesis
    by (auto simp: cs_reserve_def Let_def intro!: cs_inv_setContext)
qed (use assms in \<open>simp add: cs_reserve_def Let_def\<close>)

lemma cs_inv_release:
  assumes "cs_inv s"
  shows "cs_inv (snd (cs_release k i t s))"
  using assms cs_invD(4) [OF assms, of k]
  by (auto simp: cs_release_def cs_callbackMatches_def intro!: cs_inv_setContext)

lemma cs_inv_setLease:
  assumes "cs_inv s" "a < 64" "b < 2"
    and "bl_refs l \<noteq> 0 \<longrightarrow> cs_enabled s \<and> tag_generation (bl_tag l) = cs_generation s"
  shows "cs_inv (cs_setLease a b l s)"
  using assms lease_set [OF cs_invD(2,3) [OF assms(1)] assms(2,3), where l = l]
  by (simp add: cs_inv_def)

lemma cs_inv_banks:
  assumes "cs_inv s"
  shows "cs_inv (snd (cs_acquireBank a b w t s))" "cs_inv (snd (cs_retainBank a b w t s))"
    "cs_inv (snd (cs_releaseBank a b w t s))"
  using assms cs_invD(1) [OF assms] cs_invD(6) [OF assms, of a b]
  by (auto simp: cs_acquireBank_def cs_retainBank_def cs_releaseBank_def Let_def cs_owns_def
      kOperandBanks_def intro!: cs_inv_setLease)

lemma cs_inv_step: "cs_inv s \<Longrightarrow> cs_inv (snd (cs_step x s))"
  by (cases x)
     (simp_all add: cs_inv_configure cs_inv_reserve cs_inv_release cs_inv_banks cs_inv_cancel)

lemma cs_inv_init: "cs_inv cs_init"
proof -
  have "cs_contextArray k cs_init = replicate 4 cc_init" for k by (cases k) (simp_all add: cs_init_def cs_consts)
  then show ?thesis by (auto simp: cs_inv_def cs_lease_def) (simp_all add: cs_init_def cs_consts)
qed

lemma cs_run_inv: "cs_inv s \<Longrightarrow> cs_inv (cs_run xs s)"
  by (induction xs arbitrary: s) (simp_all add: cs_inv_step)

lemmas cs_reach = cs_run_inv [OF cs_inv_init]

section \<open>Drained and the live counters\<close>



section \<open>Each kind of context is a pool of tagged slots\<close>

definition cs_exec :: "cs_op \<Rightarrow> AttentionClusterState \<Rightarrow> AttentionClusterState" where
  "cs_exec x s = snd (cs_step x s)"

definition cs_owner :: "AttentionClusterContextKind \<Rightarrow> AttentionClusterState \<Rightarrow> nat \<Rightarrow> AttentionClusterTag option" where
  "cs_owner k s i =
     (if i < 4 \<and> cc_valid (cs_contextArray k s ! i) then Some (cc_tag (cs_contextArray k s ! i)) else None)"

text \<open>Configuring or cancelling ends every lease of the generation that was active.\<close>

fun cs_event :: "AttentionClusterContextKind \<Rightarrow> cs_op \<Rightarrow> AttentionClusterState \<Rightarrow> pool_event" where
  "cs_event k (CsConfigure g n) s = (if fst (cs_configure g n s) then Purge (cs_generation s) else Keep)"
| "cs_event k (CsReserve k' t b) s =
     (if k = k' \<and> fst (cs_reserve k' t b s) \<noteq> - 1 then Lease (nat (fst (cs_reserve k' t b s))) t else Keep)"
| "cs_event k (CsRelease k' i t) s = (if k = k' \<and> fst (cs_release k' i t s) then Vacate i t else Keep)"
| "cs_event k CsCancel s = Purge (cs_generation s)"
| "cs_event k _ s = Keep"

lemma cs_owner_cancel:
  assumes "cs_inv s"
  shows "pool_apply (Purge (cs_generation s)) (cs_owner k s) = Map.empty"
  using cs_invD(5) [OF assms] by (auto simp: cs_owner_def fun_eq_iff)

lemma cs_owner_setContext:
  assumes "cs_inv s" "i < 4"
  shows "cs_owner k (cs_setContextArray k' ((cs_contextArray k' s)[i := c]) s) =
    (if k = k' then (cs_owner k s)(i := if cc_valid c then Some (cc_tag c) else None) else cs_owner k s)"
  using assms cs_invD(4) [OF assms(1)] by (auto simp: cs_owner_def fun_eq_iff nth_list_update)

lemma cs_owner_same:
  "cs_contextArray k s' = cs_contextArray k s \<Longrightarrow> cs_owner k s' = cs_owner k s"
  by (simp add: cs_owner_def fun_eq_iff)

lemma cs_owner_cleared:
  assumes "cs_inv s" "cs_contextArray k s' = cs_contextArray k (snd (cs_cancel s))"
  shows "cs_owner k s' = Map.empty"
  using cs_invD(4) [OF assms(1), of k]
  by (simp add: cs_owner_def fun_eq_iff assms(2) cancel_contextArray)

lemma configure_contextArray:
  "fst (cs_configure g n s) \<Longrightarrow> cs_contextArray k (snd (cs_configure g n s)) = cs_contextArray k (snd (cs_cancel s))"
  by (cases k) (auto simp: cs_configure_def Let_def split: if_splits)

lemma cs_event_owner:
  assumes inv: "cs_inv s"
  shows "pool_legal (cs_event k x s) (cs_owner k s) \<and>
    cs_owner k (cs_exec x s) = pool_apply (cs_event k x s) (cs_owner k s)"
proof (cases x)
  case (CsConfigure g n)
  show ?thesis
  proof (cases "fst (cs_configure g n s)")
    case True
    with CsConfigure cs_owner_cleared [OF inv configure_contextArray] cs_owner_cancel [OF inv] show ?thesis
      by (simp add: cs_exec_def)
  next
    case False
    then have "snd (cs_configure g n s) = s" by (auto simp: cs_configure_def Let_def split: if_splits)
    with False CsConfigure show ?thesis by (simp add: cs_exec_def)
  qed
next
  case (CsReserve k' t b)
  show ?thesis
  proof (cases "cc_firstFree 0 (cs_capacity k') (cs_contextArray k' s)")
    case (Some j)
    from firstFree_Some [OF Some] have "j < 4" "\<not> cc_valid (cs_contextArray k' s ! j)"
      using capacity_le [of k'] by auto
    with CsReserve Some inv show ?thesis
      by (auto simp: cs_exec_def cs_reserve_def Let_def cs_owner_setContext) (simp_all add: cs_owner_def)
  qed (use CsReserve in \<open>simp add: cs_exec_def cs_reserve_def Let_def\<close>)
next
  case (CsRelease k' i t)
  with inv cs_invD(4) [OF inv] show ?thesis
    by (auto simp: cs_exec_def cs_release_def cs_callbackMatches_def cs_owner_setContext)
       (simp_all add: cs_owner_def)
next
  case CsCancel
  with cs_owner_cleared [OF inv refl] cs_owner_cancel [OF inv] show ?thesis
    by (simp add: cs_exec_def)
qed (auto simp: cs_exec_def cs_acquireBank_def cs_retainBank_def cs_releaseBank_def Let_def
      intro!: cs_owner_same)

interpretation cluster_pool: tagged_pool "cs_owner k" cs_inv cs_init cs_exec "cs_event k" for k
proof
  show "cs_inv cs_init" by (rule cs_inv_init)
  show "cs_owner k cs_init i = None" for i
    by (cases k) (simp_all add: cs_owner_def cs_init_def cs_consts)
  show "cs_inv (cs_exec x s)" if "cs_inv s" for s x using cs_inv_step [OF that] by (simp add: cs_exec_def)
  show "pool_legal (cs_event k x s) (cs_owner k s)" "cs_owner k (cs_exec x s) = pool_apply (cs_event k x s) (cs_owner k s)"
    if "cs_inv s" for s x using cs_event_owner [OF that] by auto
qed

section \<open>Balance of the bank leases\<close>





section \<open>Properties\<close>




text \<open>
  (C24) A context of any stage stays with its tag until that tag releases it or the cluster is
  configured anew or cancelled.
\<close>

theorem cluster_context_lease_stable:
  assumes "cs_callbackMatches (cs_run xs cs_init) k i t"
    and "x \<noteq> CsRelease k i t" "x \<noteq> CsCancel" "\<forall>g n. x \<noteq> CsConfigure g n"
  shows "cs_callbackMatches (snd (cs_step x (cs_run xs cs_init))) k i t"
proof -
  let ?s = "cs_run xs cs_init"
  have own: "cs_owner k s i = Some t \<longleftrightarrow> cs_callbackMatches s k i t" if "cs_inv s" for s
    using cs_invD(4) [OF that, of k] cs_invD(5) [OF that, of i k]
    by (auto simp: cs_owner_def cs_callbackMatches_def)
  have "cs_owner k (cs_exec x ?s) i = Some t"
    using assms own [OF cs_reach]
    by (intro cluster_pool.lease_kept cs_reach) (cases x; auto split: if_splits)+
  then show ?thesis using own [OF cs_inv_step [OF cs_reach]] by (simp add: cs_exec_def)
qed

theorem cluster_context_lease_stable_witness:
  "cs_callbackMatches (snd (cs_step (CsReserve KQk tag_example 1)
     (cs_run [CsConfigure 7 16, CsReserve KQk tag_example 0] cs_init))) KQk 0 tag_example"
  by (rule cluster_context_lease_stable)
     (simp_all add: tag_example_def tag_init_def cs_reserve_def cs_configure_def cs_cancel_eq cs_init_def
       cs_callbackMatches_def cs_consts Let_def firstFree_2)

end
