(* ===== verification/Gm_Storage.thy ===== *)
theory Gm_Storage
  imports Golem_Prelude
begin

text \<open>
  The byte storage of \<open>globalmemory/globalmemory.cc\<close> and the 64-bit accesses to it that the
  DMA flags and the control mailboxes use (\<open>read_u64_from_storage\<close>, \<open>write_u64_to_storage\<close>,
  \<open>get_dma_flag_addrs\<close>, \<open>wr_to_globalmem\<close>, \<open>rd_from_globalmem\<close>, \<open>localAccessValid\<close>).  A call
  that the source ends with \<open>output->fatal\<close>, a failed \<open>assert\<close> or an access outside
  \<open>storage\<close> has no result: the value is \<open>None\<close>.
\<close>

unbundle bit_operations_syntax

section \<open>64-bit values as eight bytes\<close>

text \<open>\<open>memcpy\<close> of a \<open>uint64_t\<close> on the little-endian hosts the simulator runs on.\<close>

definition u64_bytes :: "u64 \<Rightarrow> u8 list" where
  "u64_bytes v = map (\<lambda>i. ucast (drop_bit (8 * i) v)) [0..<8]"

definition bytes_u64 :: "u8 list \<Rightarrow> u64" where
  "bytes_u64 bs = foldr (\<lambda>b acc. ucast b OR push_bit 8 acc) bs 0"

lemma length_u64_bytes [simp]: "length (u64_bytes v) = 8"
  by (simp add: u64_bytes_def)

lemma bit_bytes_u64:
  "bit (bytes_u64 bs) n \<longleftrightarrow> n < 64 \<and> n div 8 < length bs \<and> bit (bs ! (n div 8)) (n mod 8)"
proof (induction bs arbitrary: n)
  case (Cons b bs)
  show ?case
  proof (cases "n < 8")
    case True
    then show ?thesis
      by (auto simp: bytes_u64_def bit_simps dest: bit_imp_le_length)
  next
    case False
    then have n: "n div 8 = Suc ((n - 8) div 8)" "n mod 8 = (n - 8) mod 8"
      by (simp_all add: le_div_geq le_mod_geq)
    have "\<not> bit b n" using False by (auto dest: bit_imp_le_length)
    then show ?thesis
      using Cons.IH [of "n - 8"] False by (auto simp: bytes_u64_def bit_simps n)
  qed
qed (simp add: bytes_u64_def)

lemma bytes_u64_bytes [simp]: "bytes_u64 (u64_bytes v) = v"
  by (rule bit_word_eqI)
    (auto simp: bit_bytes_u64 u64_bytes_def bit_simps less_mult_imp_div_less)

section \<open>The storage window\<close>

record GmStore =
  gs_baseAddr :: u64
  gs_size :: u64
  gs_storage :: "u8 list"

text \<open>\<open>storage\<close> has \<open>size\<close> bytes and the window ends below the end of the address space.\<close>

definition gs_wf :: "'a GmStore_scheme \<Rightarrow> bool" where
  "gs_wf s \<longleftrightarrow> length (gs_storage s) = unat (gs_size s) \<and>
     unat (gs_baseAddr s) + unat (gs_size s) < 2 ^ 64"

definition gs_offset :: "u64 \<Rightarrow> 'a GmStore_scheme \<Rightarrow> nat" where
  "gs_offset addr s = unat (addr - gs_baseAddr s)"

definition u64_in_range :: "u64 \<Rightarrow> 'a GmStore_scheme \<Rightarrow> bool" where
  "u64_in_range addr s \<longleftrightarrow> \<not> (addr < gs_baseAddr s \<or> gs_baseAddr s + gs_size s < addr + 8)"

definition read_u64_from_storage :: "u64 \<Rightarrow> 'a GmStore_scheme \<Rightarrow> u64 option" where
  "read_u64_from_storage addr s =
     (if \<not> u64_in_range addr s then None
      else if length (gs_storage s) < gs_offset addr s + 8 then None
      else Some (bytes_u64 (get_range (gs_offset addr s) 8 (gs_storage s))))"

definition write_u64_to_storage :: "u64 \<Rightarrow> u64 \<Rightarrow> 'a GmStore_scheme \<Rightarrow> 'a GmStore_scheme option" where
  "write_u64_to_storage addr v s =
     (if \<not> u64_in_range addr s then None
      else if length (gs_storage s) < gs_offset addr s + 8 then None
      else Some (s\<lparr>gs_storage := copy_range (gs_offset addr s) (u64_bytes v) (gs_storage s)\<rparr>))"

definition wr_to_globalmem :: "u64 \<Rightarrow> nat \<Rightarrow> u8 list \<Rightarrow> 'a GmStore_scheme \<Rightarrow> 'a GmStore_scheme option" where
  "wr_to_globalmem addr len data s =
     (if addr < gs_baseAddr s \<or> gs_baseAddr s + gs_size s < addr + of_nat len \<or> length data \<noteq> len then None
      else if length (gs_storage s) < gs_offset addr s + len then None
      else Some (s\<lparr>gs_storage := copy_range (gs_offset addr s) (take len data) (gs_storage s)\<rparr>))"

definition rd_from_globalmem :: "u64 \<Rightarrow> nat \<Rightarrow> 'a GmStore_scheme \<Rightarrow> u8 list option" where
  "rd_from_globalmem addr len s =
     (if addr < gs_baseAddr s \<or> gs_baseAddr s + gs_size s < addr + of_nat len then None
      else if length (gs_storage s) < gs_offset addr s + len then None
      else Some (get_range (gs_offset addr s) len (gs_storage s)))"

definition ctrlReadLocalU64 :: "u64 \<Rightarrow> 'a GmStore_scheme \<Rightarrow> u64 option" where
  "ctrlReadLocalU64 addr s = read_u64_from_storage addr s"

definition ctrlWriteLocalU64 :: "u64 \<Rightarrow> u64 \<Rightarrow> 'a GmStore_scheme \<Rightarrow> 'a GmStore_scheme option" where
  "ctrlWriteLocalU64 addr v s = write_u64_to_storage addr v s"

definition localAccessValid :: "nat \<Rightarrow> u64 \<Rightarrow> nat \<Rightarrow> 'a GmStore_scheme \<Rightarrow> bool" where
  "localAccessValid maxBytes addr len s \<longleftrightarrow>
     (if len = 0 \<or> maxBytes < len \<or> addr < gs_baseAddr s then False
      else (let offset = addr - gs_baseAddr s
            in offset \<le> gs_size s \<and> len \<le> unat (gs_size s - offset)))"

section \<open>The DMA flags at the end of the window\<close>

definition DMA_FLAG_REGION_SIZE :: u64 where "DMA_FLAG_REGION_SIZE = 64"
definition READ0_SEQ_OFFSET :: u64 where "READ0_SEQ_OFFSET = 64"
definition READ0_FLAG_OFFSET :: u64 where "READ0_FLAG_OFFSET = 56"
definition READ1_SEQ_OFFSET :: u64 where "READ1_SEQ_OFFSET = 48"
definition READ1_FLAG_OFFSET :: u64 where "READ1_FLAG_OFFSET = 40"
definition WRITE_SEQ_OFFSET :: u64 where "WRITE_SEQ_OFFSET = 32"
definition WRITE_FLAG_OFFSET :: u64 where "WRITE_FLAG_OFFSET = 24"
definition READ_SLOT_SELECT_OFFSET :: u64 where "READ_SLOT_SELECT_OFFSET = 16"

lemmas dma_offsets = DMA_FLAG_REGION_SIZE_def READ0_SEQ_OFFSET_def READ0_FLAG_OFFSET_def
  READ1_SEQ_OFFSET_def READ1_FLAG_OFFSET_def WRITE_SEQ_OFFSET_def WRITE_FLAG_OFFSET_def
  READ_SLOT_SELECT_OFFSET_def

definition get_dma_flag_addrs :: "bool \<Rightarrow> u8 \<Rightarrow> 'a GmStore_scheme \<Rightarrow> (u64 \<times> u64) option" where
  "get_dma_flag_addrs is_write read_slot s =
     (if gs_size s < DMA_FLAG_REGION_SIZE then None
      else (let end' = gs_baseAddr s + gs_size s in
        if is_write then Some (end' - WRITE_SEQ_OFFSET, end' - WRITE_FLAG_OFFSET)
        else if read_slot = 0 then Some (end' - READ0_SEQ_OFFSET, end' - READ0_FLAG_OFFSET)
        else if read_slot = 1 then Some (end' - READ1_SEQ_OFFSET, end' - READ1_FLAG_OFFSET)
        else None))"

lemma get_dma_flag_addrs_eqs:
  assumes "DMA_FLAG_REGION_SIZE \<le> gs_size s"
  shows "get_dma_flag_addrs True slot s = Some (gs_baseAddr s + gs_size s - 32, gs_baseAddr s + gs_size s - 24)"
    and "get_dma_flag_addrs False 0 s = Some (gs_baseAddr s + gs_size s - 64, gs_baseAddr s + gs_size s - 56)"
    and "get_dma_flag_addrs False 1 s = Some (gs_baseAddr s + gs_size s - 48, gs_baseAddr s + gs_size s - 40)"
proof -
  have "\<not> gs_size s < DMA_FLAG_REGION_SIZE" using assms by (simp add: not_less)
  then show "get_dma_flag_addrs True slot s = Some (gs_baseAddr s + gs_size s - 32, gs_baseAddr s + gs_size s - 24)"
    and "get_dma_flag_addrs False 0 s = Some (gs_baseAddr s + gs_size s - 64, gs_baseAddr s + gs_size s - 56)"
    and "get_dma_flag_addrs False 1 s = Some (gs_baseAddr s + gs_size s - 48, gs_baseAddr s + gs_size s - 40)"
    unfolding get_dma_flag_addrs_def Let_def by (simp_all add: dma_offsets)
qed

definition ctrlGetReadFlagAddr :: "u8 \<Rightarrow> 'a GmStore_scheme \<Rightarrow> u64 option" where
  "ctrlGetReadFlagAddr readSlot s = map_option snd (get_dma_flag_addrs False readSlot s)"

section \<open>The contract of a store of 64-bit cells\<close>

text \<open>
  What the mailbox and flag protocols rely on: a cell that is addressable can be read and
  written, a read returns the last value written to the cell, and cells whose eight bytes do
  not overlap do not disturb each other.
\<close>

definition cells_apart :: "u64 \<Rightarrow> u64 \<Rightarrow> bool" where
  "cells_apart a b \<longleftrightarrow> unat a + 8 \<le> unat b \<or> unat b + 8 \<le> unat a"

lemma cells_apart_sym: "cells_apart a b = cells_apart b a"
  by (auto simp: cells_apart_def)

locale u64_store =
  fixes ok :: "u64 \<Rightarrow> 's \<Rightarrow> bool"
    and rd :: "u64 \<Rightarrow> 's \<Rightarrow> u64 option"
    and wr :: "u64 \<Rightarrow> u64 \<Rightarrow> 's \<Rightarrow> 's option"
  assumes rd_ok: "ok a s \<longleftrightarrow> rd a s \<noteq> None"
    and wr_ok: "ok a s \<longleftrightarrow> wr a v s \<noteq> None"
    and rd_wr_same: "wr a v s = Some s' \<Longrightarrow> rd a s' = Some v"
    and rd_wr_apart: "wr a v s = Some s' \<Longrightarrow> cells_apart a b \<Longrightarrow> rd b s' = rd b s"
    and ok_wr: "wr a v s = Some s' \<Longrightarrow> ok b s' = ok b s"
begin

fun writes :: "(u64 \<times> u64) list \<Rightarrow> 's \<Rightarrow> 's option" where
  "writes [] s = Some s"
| "writes ((a, v) # ws) s = (case wr a v s of None \<Rightarrow> None | Some s' \<Rightarrow> writes ws s')"

lemma writes_Some: "(\<forall>(a, v) \<in> set ws. ok a s) \<Longrightarrow> \<exists>s'. writes ws s = Some s'"
proof (induction ws arbitrary: s)
  case (Cons w ws)
  obtain a v where w: "w = (a, v)" by (cases w)
  from Cons.prems obtain t where t: "wr a v s = Some t" using wr_ok [of a s v] w by auto
  then have "\<forall>(a, v) \<in> set ws. ok a t" using Cons.prems ok_wr [OF t] by auto
  from Cons.IH [OF this] show ?case by (simp add: w t)
qed simp

lemma ok_writes: "writes ws s = Some s' \<Longrightarrow> ok b s' = ok b s"
proof (induction ws arbitrary: s)
  case (Cons w ws)
  then show ?case using ok_wr [of "fst w" "snd w" s _ b] by (cases w) (auto split: option.splits)
qed simp

lemma rd_writes_apart:
  "writes ws s = Some s' \<Longrightarrow> \<forall>(a, v) \<in> set ws. cells_apart a b \<Longrightarrow> rd b s' = rd b s"
  by (induction ws arbitrary: s) (auto split: option.splits dest: rd_wr_apart)

lemma rd_writes_last:
  assumes "writes (ws @ (a, v) # ws') s = Some s'" "\<forall>(b, w) \<in> set ws'. cells_apart b a"
  shows "rd a s' = Some v"
  using assms
proof (induction ws arbitrary: s)
  case Nil
  then obtain t where t: "wr a v s = Some t" "writes ws' t = Some s'" by (auto split: option.splits)
  from rd_writes_apart [OF t(2) Nil(2)] rd_wr_same [OF t(1)] show ?case by simp
qed (auto split: option.splits)

end

definition u64_ok :: "u64 \<Rightarrow> 'a GmStore_scheme \<Rightarrow> bool" where
  "u64_ok a s \<longleftrightarrow> u64_in_range a s \<and> gs_offset a s + 8 \<le> length (gs_storage s)"

lemma get_range_copy_range_same: "off + length ys \<le> length xs \<Longrightarrow>
    get_range off (length ys) (copy_range off ys xs) = ys"
  by (simp add: get_range_def copy_range_def)

lemma get_range_copy_range_apart:
  assumes "off + length ys \<le> length xs" "off' + n \<le> length xs"
    and "off + length ys \<le> off' \<or> off' + n \<le> off"
  shows "get_range off' n (copy_range off ys xs) = get_range off' n xs"
  using assms by (intro nth_equalityI) (auto simp: nth_copy_range)

lemma gs_offset_eq: "gs_baseAddr s \<le> a \<Longrightarrow> gs_offset a s = unat a - unat (gs_baseAddr s)"
  by (simp add: gs_offset_def unat_sub)

lemma write_u64_Some:
  "write_u64_to_storage a v s = Some s' \<longleftrightarrow>
     u64_ok a s \<and> s' = s\<lparr>gs_storage := copy_range (gs_offset a s) (u64_bytes v) (gs_storage s)\<rparr>"
  by (auto simp: write_u64_to_storage_def u64_ok_def)

lemma read_u64_eq:
  "read_u64_from_storage a s =
     (if u64_ok a s then Some (bytes_u64 (get_range (gs_offset a s) 8 (gs_storage s))) else None)"
  by (auto simp: read_u64_from_storage_def u64_ok_def)

lemma u64_ok_update:
  "length st = length (gs_storage s) \<Longrightarrow> u64_ok a (s\<lparr>gs_storage := st\<rparr>) = u64_ok a s"
  by (simp add: u64_ok_def u64_in_range_def gs_offset_def)

lemma u64_ok_offset: "u64_ok a s \<Longrightarrow> gs_offset a s = unat a - unat (gs_baseAddr s) \<and> unat (gs_baseAddr s) \<le> unat a"
  by (auto simp: u64_ok_def u64_in_range_def gs_offset_eq not_less word_le_nat_alt)

interpretation gm_cells: u64_store u64_ok read_u64_from_storage write_u64_to_storage
proof
  fix a b v and s s' :: "'a GmStore_scheme"
  show "u64_ok a s \<longleftrightarrow> read_u64_from_storage a s \<noteq> None" by (simp add: read_u64_eq)
  show "u64_ok a s \<longleftrightarrow> write_u64_to_storage a v s \<noteq> None"
    by (auto simp: write_u64_to_storage_def u64_ok_def)
  assume "write_u64_to_storage a v s = Some s'"
  then have w: "u64_ok a s" and
    s': "s' = s\<lparr>gs_storage := copy_range (gs_offset a s) (u64_bytes v) (gs_storage s)\<rparr>"
    by (auto simp: write_u64_Some)
  from w have le: "gs_offset a s + length (u64_bytes v) \<le> length (gs_storage s)"
    by (simp add: u64_ok_def)
  show ok: "u64_ok b s' = u64_ok b s" for b unfolding s' using le by (intro u64_ok_update) simp
  have off: "gs_offset b s' = gs_offset b s" for b by (simp add: s' gs_offset_def)
  show "read_u64_from_storage a s' = Some v"
    using get_range_copy_range_same [OF le] w unfolding read_u64_eq ok off by (simp add: s')
  assume apart: "cells_apart a b"
  show "read_u64_from_storage b s' = read_u64_from_storage b s"
  proof (cases "u64_ok b s")
    case True
    then have "gs_offset b s + 8 \<le> length (gs_storage s)" by (simp add: u64_ok_def)
    moreover have "gs_offset a s + length (u64_bytes v) \<le> gs_offset b s \<or> gs_offset b s + 8 \<le> gs_offset a s"
      using apart u64_ok_offset [OF w] u64_ok_offset [OF True] by (auto simp: cells_apart_def)
    ultimately show ?thesis
      using get_range_copy_range_apart [OF le] unfolding read_u64_eq ok off by (simp add: s')
  qed (simp add: read_u64_eq ok)
qed

lemma write_u64_frame [golem_frame]:
  "write_u64_to_storage a v s = Some s' \<Longrightarrow>
     gs_baseAddr s' = gs_baseAddr s \<and> gs_size s' = gs_size s \<and> length (gs_storage s') = length (gs_storage s)"
  by (auto simp: write_u64_Some u64_ok_def)

section \<open>Bounds of the range checks\<close>

lemma unat_add_small: "unat (a :: u64) + unat b < 2 ^ 64 \<Longrightarrow> unat (a + b) = unat a + unat b"
  by (simp add: unat_word_ariths)

text \<open>
  \<open>localAccessValid\<close> is exact: on a window that does not wrap around the address space it
  accepts an access exactly when it is non-empty, within the request limit, and every byte of
  it lies inside the window; no address makes its arithmetic overflow.
\<close>

theorem localAccessValid_exact:
  assumes "gs_wf s"
  shows "localAccessValid maxBytes addr len s \<longleftrightarrow>
     0 < len \<and> len \<le> maxBytes \<and> unat (gs_baseAddr s) \<le> unat addr \<and>
     unat addr + len \<le> unat (gs_baseAddr s) + unat (gs_size s)"
proof (cases "addr < gs_baseAddr s")
  case True
  then show ?thesis by (simp add: localAccessValid_def word_less_nat_alt)
next
  case False
  then have le: "gs_baseAddr s \<le> addr" by simp
  have off: "unat (addr - gs_baseAddr s) = unat addr - unat (gs_baseAddr s)"
    using le by (simp add: unat_sub)
  have le': "unat (gs_baseAddr s) \<le> unat addr" using le by (simp add: word_le_nat_alt)
  show ?thesis
  proof (cases "addr - gs_baseAddr s \<le> gs_size s")
    case True
    then have "unat (gs_size s - (addr - gs_baseAddr s)) =
        unat (gs_size s) - (unat addr - unat (gs_baseAddr s))"
      by (simp add: unat_sub off)
    with True False le' off show ?thesis
      by (auto simp: localAccessValid_def Let_def word_le_nat_alt)
  next
    case False
    with \<open>\<not> addr < gs_baseAddr s\<close> le' off show ?thesis
      by (auto simp: localAccessValid_def Let_def word_le_nat_alt)
  qed
qed

lemma localAccessValid_range:
  assumes "gs_wf s" "localAccessValid maxBytes addr len s"
  shows "gs_offset addr s + len \<le> length (gs_storage s)"
proof -
  from assms have le: "gs_baseAddr s \<le> addr" and v: "addr - gs_baseAddr s \<le> gs_size s"
    "len \<le> unat (gs_size s - (addr - gs_baseAddr s))"
    by (auto simp: localAccessValid_def Let_def not_less split: if_splits)
  from v have "len \<le> unat (gs_size s) - unat (addr - gs_baseAddr s)" by (simp add: unat_sub)
  moreover from v(1) have "unat (addr - gs_baseAddr s) \<le> unat (gs_size s)"
    by (simp add: word_le_nat_alt)
  ultimately show ?thesis using assms(1) by (simp add: gs_wf_def gs_offset_def)
qed

lemma u64_guard_exact_or_wraps_aux:
  assumes "gs_wf s"
  shows "(u64_in_range addr s \<longleftrightarrow> unat (gs_baseAddr s) \<le> unat addr \<and>
      (if unat addr + 8 < 2 ^ 64 then unat addr + 8 \<le> unat (gs_baseAddr s) + unat (gs_size s)
       else unat addr + 8 - 2 ^ 64 \<le> unat (gs_baseAddr s) + unat (gs_size s))) \<and>
    (u64_in_range addr s \<longrightarrow> (gs_offset addr s + 8 \<le> length (gs_storage s) \<longleftrightarrow> unat addr + 8 < 2 ^ 64))"
proof -
  have be: "unat (gs_baseAddr s + gs_size s) = unat (gs_baseAddr s) + unat (gs_size s)"
    using assms by (intro unat_add_small) (simp add: gs_wf_def)
  have lt: "unat addr < 2 ^ 64" using unsigned_less [of addr] by simp
  have ae: "unat (addr + 8) = (unat addr + 8) mod 2 ^ 64" by (simp add: unat_word_ariths)
  have in_iff: "u64_in_range addr s \<longleftrightarrow> unat (gs_baseAddr s) \<le> unat addr \<and>
      (unat addr + 8) mod 2 ^ 64 \<le> unat (gs_baseAddr s) + unat (gs_size s)"
    by (simp add: u64_in_range_def word_le_nat_alt word_less_nat_alt be ae not_less)
  have off: "gs_offset addr s = unat addr - unat (gs_baseAddr s)" if "u64_in_range addr s"
    using that by (intro gs_offset_eq) (simp add: u64_in_range_def not_less)
  have len: "length (gs_storage s) = unat (gs_size s)"
    "unat (gs_baseAddr s) + unat (gs_size s) < 2 ^ 64" using assms by (simp_all add: gs_wf_def)
  show ?thesis
  proof (cases "unat addr + 8 < 2 ^ 64")
    case True
    then show ?thesis using in_iff off len by (simp add: le_diff_conv)
  next
    case False
    then have "(unat addr + 8) mod 2 ^ 64 = unat addr + 8 - 2 ^ 64" using lt by (simp add: mod_if)
    then show ?thesis using False in_iff off len by (simp add: le_diff_conv)
  qed
qed

text \<open>(C31)
  The guard of \<open>read_u64_from_storage\<close> and \<open>write_u64_to_storage\<close> is exact except in the last
  eight addresses of the address space: it accepts an address exactly when the eight bytes lie
  inside the window, or when \<open>addr + 8\<close> wraps around, and in the second case the access is
  outside \<open>storage\<close> although the guard let it through.
\<close>

theorem u64_guard_exact_or_wraps:
  assumes "gs_wf s"
  shows "(u64_in_range addr s \<longleftrightarrow> unat (gs_baseAddr s) \<le> unat addr \<and>
      (if unat addr + 8 < 2 ^ 64 then unat addr + 8 \<le> unat (gs_baseAddr s) + unat (gs_size s)
       else unat addr + 8 - 2 ^ 64 \<le> unat (gs_baseAddr s) + unat (gs_size s))) \<and>
    (u64_in_range addr s \<longrightarrow> (gs_offset addr s + 8 \<le> length (gs_storage s) \<longleftrightarrow> unat addr + 8 < 2 ^ 64))"
  using assms by (rule u64_guard_exact_or_wraps_aux)

definition gs_example :: GmStore where
  "gs_example = \<lparr>gs_baseAddr = 4096, gs_size = 128, gs_storage = replicate 128 0\<rparr>"

lemma gs_example_wf: "gs_wf gs_example"
  by (simp add: gs_wf_def gs_example_def)

text \<open>At the last address of the address space the guard passes and the access is out of bounds.\<close>

theorem u64_guard_exact_or_wraps_witness:
  "gs_wf gs_example \<and> u64_in_range 0xFFFFFFFFFFFFFFFF gs_example \<and> \<not> gs_offset 0xFFFFFFFFFFFFFFFF gs_example + 8 \<le> length (gs_storage gs_example)"
  using u64_guard_exact_or_wraps [OF gs_example_wf, of "0xFFFFFFFFFFFFFFFF"] gs_example_wf
  by (simp add: gs_example_def)

theorem localAccessValid_exact_witness:
  "gs_wf gs_example \<and> localAccessValid 64 4200 24 gs_example \<and> \<not> localAccessValid 64 4200 25 gs_example"
  using localAccessValid_exact [OF gs_example_wf, of 64 4200 24]
    localAccessValid_exact [OF gs_example_wf, of 64 4200 25] gs_example_wf
  by (simp add: gs_example_def)

text \<open>The cell \<open>k\<close> bytes before the end of the window.\<close>

lemma flag_cell:
  assumes "gs_wf s" "DMA_FLAG_REGION_SIZE \<le> gs_size s" "8 \<le> unat k" "unat k \<le> 64"
  shows "unat (gs_baseAddr s + gs_size s - k) = unat (gs_baseAddr s) + unat (gs_size s) - unat k"
    and "u64_ok (gs_baseAddr s + gs_size s - k) s"
proof -
  have be: "unat (gs_baseAddr s + gs_size s) = unat (gs_baseAddr s) + unat (gs_size s)"
    using assms by (intro unat_add_small) (simp add: gs_wf_def)
  have sz: "64 \<le> unat (gs_size s)"
    using assms(2) by (simp add: DMA_FLAG_REGION_SIZE_def word_le_nat_alt)
  have "k \<le> gs_baseAddr s + gs_size s" using assms sz by (simp add: word_le_nat_alt be)
  then show u: "unat (gs_baseAddr s + gs_size s - k) = unat (gs_baseAddr s) + unat (gs_size s) - unat k"
    by (simp add: unat_sub be)
  let ?a = "gs_baseAddr s + gs_size s - k"
  have wf: "unat (gs_baseAddr s) + unat (gs_size s) < 2 ^ 64" using assms(1) by (simp add: gs_wf_def)
  have a: "unat (gs_baseAddr s) \<le> unat ?a" "unat ?a + 8 < 2 ^ 64"
    "unat ?a + 8 \<le> unat (gs_baseAddr s) + unat (gs_size s)"
    using u assms(3,4) sz wf by linarith+
  note guard = u64_guard_exact_or_wraps_aux [OF assms(1), of ?a]
  have "u64_in_range ?a s" using conjunct1 [OF guard] a by simp
  moreover have "gs_offset ?a s + 8 \<le> length (gs_storage s)" using conjunct2 [OF guard] a calculation by simp
  ultimately show "u64_ok ?a s" unfolding u64_ok_def by simp
qed

text \<open>
  The seven control words at the end of the window, the sequence and flag words of the two read
  slots and of the write slot and the read-slot selector, are eight bytes apart inside the
  window: a completion that writes its flag disturbs neither another flag nor a sequence number.
\<close>

theorem dma_flags_disjoint:
  assumes "gs_wf s" "DMA_FLAG_REGION_SIZE \<le> gs_size s"
    and "get_dma_flag_addrs True 0 s = Some (wseq, wflag)"
    and "get_dma_flag_addrs False 0 s = Some (seq0, flag0)"
    and "get_dma_flag_addrs False 1 s = Some (seq1, flag1)"
    and "cells = [seq0, flag0, seq1, flag1, wseq, wflag, gs_baseAddr s + gs_size s - READ_SLOT_SELECT_OFFSET]"
    and "i < 7" "j < 7" "i \<noteq> j"
  shows "\<exists>t. write_u64_to_storage (cells ! i) v s = Some t \<and>
          read_u64_from_storage (cells ! i) t = Some v \<and>
          read_u64_from_storage (cells ! j) t = read_u64_from_storage (cells ! j) s \<and>
          read_u64_from_storage (cells ! j) s \<noteq> None"
proof -
  have "cells = map (\<lambda>i. gs_baseAddr s + gs_size s - of_nat (64 - 8 * i)) [0, 1, 2, 3, 4, 5, 6]"
    using assms(3-6) unfolding get_dma_flag_addrs_eqs [OF assms(2)] READ_SLOT_SELECT_OFFSET_def by auto
  also have "[0, 1, 2, 3, 4, 5, 6] = [0..<7]" by (simp add: upt_conv_Cons)
  finally have cells: "cells ! i = gs_baseAddr s + gs_size s - of_nat (64 - 8 * i)" if "i < 7" for i
    using that by simp
  have k: "unat (of_nat (64 - 8 * i) :: u64) = 64 - 8 * i" "8 \<le> 64 - 8 * i" if "i < 7" for i
    using that by (simp_all only: unat_of_nat) simp_all
  have ok: "u64_ok (cells ! i) s" and
    un: "unat (cells ! i) = unat (gs_baseAddr s) + unat (gs_size s) - (64 - 8 * i)" if "i < 7" for i
    unfolding cells [OF that]
    using flag_cell [OF assms(1,2), of "of_nat (64 - 8 * i)", unfolded k(1) [OF that], OF k(2) [OF that]]
    by simp_all
  have "64 \<le> unat (gs_size s)"
    using assms(2) by (simp add: DMA_FLAG_REGION_SIZE_def word_le_nat_alt)
  then have "cells_apart (cells ! i) (cells ! j)"
    using assms(7-9) unfolding cells_apart_def un [OF assms(7)] un [OF assms(8)] by linarith
  moreover obtain t where t: "write_u64_to_storage (cells ! i) v s = Some t"
    using ok [OF assms(7)] by (auto simp: write_u64_Some)
  moreover have "read_u64_from_storage (cells ! j) s \<noteq> None"
    using ok [OF assms(8)] by (simp add: read_u64_eq)
  ultimately show ?thesis
    using gm_cells.rd_wr_same [OF t] gm_cells.rd_wr_apart [OF t, of "cells ! j"] t by blast
qed

theorem dma_flags_disjoint_witness:
  "\<exists>t. write_u64_to_storage 4168 9 gs_example = Some t \<and> read_u64_from_storage 4168 t = Some 9 \<and>
     read_u64_from_storage 4192 t = read_u64_from_storage 4192 gs_example \<and>
     read_u64_from_storage 4192 gs_example \<noteq> None"
proof -
  have size: "DMA_FLAG_REGION_SIZE \<le> gs_size gs_example"
    by (simp add: gs_example_def DMA_FLAG_REGION_SIZE_def)
  have cells: "[gs_baseAddr gs_example + gs_size gs_example - 64, gs_baseAddr gs_example + gs_size gs_example - 56,
      gs_baseAddr gs_example + gs_size gs_example - 48, gs_baseAddr gs_example + gs_size gs_example - 40,
      gs_baseAddr gs_example + gs_size gs_example - 32, gs_baseAddr gs_example + gs_size gs_example - 24,
      gs_baseAddr gs_example + gs_size gs_example - READ_SLOT_SELECT_OFFSET] =
      [4160, 4168, 4176, 4184, 4192, 4200, 4208]"
    by (simp add: gs_example_def READ_SLOT_SELECT_OFFSET_def)
  show ?thesis
    using dma_flags_disjoint [OF gs_example_wf size get_dma_flag_addrs_eqs [OF size] refl, of 1 4 9]
    unfolding cells by simp
qed

end
