(* ===== verification/Gm_Local_Access.thy ===== *)
theory Gm_Local_Access
  imports Gm_Storage Busy_Trackers Cluster_Config "HOL-Library.Monad_Syntax"
begin

text \<open>
  The local-access ports of \<open>globalmemory/globalmemory.cc\<close>: \<open>localReadAsync\<close> and
  \<open>localWriteAsync\<close> queue a request, \<open>tryIssueLocalAccesses\<close> starts queued requests while a
  port is free, and \<open>handleLocalAccessEvent\<close> ends an access and calls the client back.  A
  callback is a value of the type \<open>'cb\<close>; the call the source makes is returned as a value, and
  the client of the model performs it.  The self link is the list of the scheduled events with
  their due times.
\<close>

section \<open>State\<close>

datatype LocalMemoryClient = LmDma | LmRoCC | LmSFU | LmWCP | LmControl

datatype LaKind = LaRead | LaWrite

record 'cb PendingLocalAccess =
  la_kind :: LaKind
  la_requestId :: nat
  la_addr :: u64
  la_length :: nat
  la_client :: LocalMemoryClient
  la_tag :: u64
  la_submitCycle :: nat
  la_ownerGeneration :: u64
  la_issued :: bool
  la_cancelled :: bool
  la_writeData :: "u8 list"
  la_callback :: 'cb

text \<open>The members the source has once for reads and once for writes.\<close>

record LaPort =
  lp_ports :: nat
  lp_inFlight :: nat
  lp_queue :: "nat list"
  lp_requests :: nat
  lp_bytes :: nat
  lp_queueCycles :: nat
  lp_intervals :: BusyIntervalUnion

record 'cb GmLocal = GmStore +
  gl_baseLatencyCycles :: nat
  gl_bytesPerCycle :: nat
  gl_queueDepth :: nat
  gl_maxRequestBytes :: nat
  gl_coreFactor :: nat
  gl_clusterEnable :: bool
  gl_fence :: u64
  gl_nextRequestId :: nat
  gl_queueHighWater :: nat
  gl_rejected :: nat
  gl_rd :: LaPort
  gl_wr :: LaPort
  gl_pending :: "'cb PendingLocalAccess list"
  gl_events :: "(nat \<times> nat) list"

definition gl_port :: "LaKind \<Rightarrow> ('cb, 'z) GmLocal_scheme \<Rightarrow> LaPort" where
  "gl_port k s = (case k of LaRead \<Rightarrow> gl_rd s | LaWrite \<Rightarrow> gl_wr s)"

definition gl_set_port :: "LaKind \<Rightarrow> LaPort \<Rightarrow> ('cb, 'z) GmLocal_scheme \<Rightarrow> ('cb, 'z) GmLocal_scheme" where
  "gl_set_port k p s = (case k of LaRead \<Rightarrow> s\<lparr>gl_rd := p\<rparr> | LaWrite \<Rightarrow> s\<lparr>gl_wr := p\<rparr>)"

definition lp_init :: "nat \<Rightarrow> LaPort" where
  "lp_init ports = \<lparr>lp_ports = ports, lp_inFlight = 0, lp_queue = [], lp_requests = 0, lp_bytes = 0,
     lp_queueCycles = 0, lp_intervals = bi_init\<rparr>"

text \<open>
  The constructor: it refuses a parameter that is zero.  \<open>factor\<close> is what
  \<open>convertToCoreTime\<close> multiplies a local-access cycle with.
\<close>

definition gl_construct ::
    "u64 \<Rightarrow> u64 \<Rightarrow> nat \<Rightarrow> nat \<Rightarrow> nat \<Rightarrow> nat \<Rightarrow> nat \<Rightarrow> nat \<Rightarrow> bool \<Rightarrow> nat \<Rightarrow> 'cb GmLocal option" where
  "gl_construct base bytes baseLat bytesPerCycle rports wports qdepth maxBytes cluster factor =
     (if bytes = 0 then None
      else if baseLat = 0 \<or> bytesPerCycle = 0 \<or> rports = 0 \<or> wports = 0 \<or> qdepth = 0 \<or> maxBytes = 0 then None
      else Some \<lparr>gs_baseAddr = base, gs_size = bytes, gs_storage = replicate (unat bytes) 0,
        gl_baseLatencyCycles = baseLat, gl_bytesPerCycle = bytesPerCycle, gl_queueDepth = qdepth,
        gl_maxRequestBytes = maxBytes, gl_coreFactor = factor, gl_clusterEnable = cluster,
        gl_fence = 0, gl_nextRequestId = 1, gl_queueHighWater = 0, gl_rejected = 0,
        gl_rd = lp_init rports, gl_wr = lp_init wports, gl_pending = [], gl_events = []\<rparr>)"

section \<open>Operations\<close>

definition ceilDivLocalAccess :: "nat \<Rightarrow> nat \<Rightarrow> nat" where
  "ceilDivLocalAccess value divisor = (value + divisor - 1) div divisor"

definition localAccessDelayCycles :: "nat \<Rightarrow> ('cb, 'z) GmLocal_scheme \<Rightarrow> nat" where
  "localAccessDelayCycles len s =
     gl_baseLatencyCycles s + ceilDivLocalAccess len (gl_bytesPerCycle s)"

definition gl_find :: "nat \<Rightarrow> ('cb, 'z) GmLocal_scheme \<Rightarrow> 'cb PendingLocalAccess option" where
  "gl_find rid s = find (\<lambda>r. la_requestId r = rid) (gl_pending s)"

definition gl_mark_issued :: "nat \<Rightarrow> 'cb PendingLocalAccess list \<Rightarrow> 'cb PendingLocalAccess list" where
  "gl_mark_issued rid = map (\<lambda>r. if la_requestId r = rid then r\<lparr>la_issued := True\<rparr> else r)"

definition issueLocalAccess :: "nat \<Rightarrow> nat \<Rightarrow> ('cb, 'z) GmLocal_scheme \<Rightarrow> ('cb, 'z) GmLocal_scheme option" where
  "issueLocalAccess now rid s =
     (case gl_find rid s of None \<Rightarrow> Some s
      | Some request \<Rightarrow>
        (let k = la_kind request;
             p = gl_port k s;
             service = localAccessDelayCycles (la_length request) s;
             p1 = p\<lparr>lp_queueCycles := lp_queueCycles p + sub64 now (la_submitCycle request)\<rparr>;
             (ok, iv) = (if gl_clusterEnable s
                         then bi_add now (now + gl_coreFactor s * service) (lp_intervals p1)
                         else (True, lp_intervals p1))
         in if \<not> ok then None
            else Some (gl_set_port k (p1\<lparr>lp_intervals := iv\<rparr>)
                   (s\<lparr>gl_pending := gl_mark_issued rid (gl_pending s),
                      gl_events := gl_events s @ [(now + gl_coreFactor s * service, rid)]\<rparr>))))"

text \<open>One of the two loops of \<open>tryIssueLocalAccesses\<close>; the list is the queue still to scan.\<close>

fun issueQueued :: "LaKind \<Rightarrow> nat \<Rightarrow> nat list \<Rightarrow> ('cb, 'z) GmLocal_scheme \<Rightarrow> ('cb, 'z) GmLocal_scheme option" where
  "issueQueued k now [] s = Some s"
| "issueQueued k now (rid # q) s =
     (let p = gl_port k s in
      if lp_inFlight p < lp_ports p then
        do { t \<leftarrow> issueLocalAccess now rid
                    (gl_set_port k (p\<lparr>lp_queue := q, lp_inFlight := lp_inFlight p + 1\<rparr>) s);
             issueQueued k now q t }
      else Some s)"

definition tryIssueLocalAccesses :: "nat \<Rightarrow> ('cb, 'z) GmLocal_scheme \<Rightarrow> ('cb, 'z) GmLocal_scheme option" where
  "tryIssueLocalAccesses now s =
     do { t \<leftarrow> issueQueued LaRead now (lp_queue (gl_rd s)) s;
          issueQueued LaWrite now (lp_queue (gl_wr t)) t }"

text \<open>
  \<open>localReadAsync\<close> and \<open>localWriteAsync\<close> differ in the kind, the queue and the data; the callback
  is present (the source refuses an empty one).
\<close>

definition localSubmit ::
    "LaKind \<Rightarrow> nat \<Rightarrow> u64 \<Rightarrow> nat \<Rightarrow> u8 list \<Rightarrow> LocalMemoryClient \<Rightarrow> u64 \<Rightarrow> 'cb \<Rightarrow>
     ('cb, 'z) GmLocal_scheme \<Rightarrow> (bool \<times> ('cb, 'z) GmLocal_scheme) option" where
  "localSubmit k now addr len data client tag cb s =
     (if \<not> localAccessValid (gl_maxRequestBytes s) addr len s \<or> gl_queueDepth s \<le> length (gl_pending s)
      then Some (False, s\<lparr>gl_rejected := gl_rejected s + 1\<rparr>)
      else
        (let rid = gl_nextRequestId s;
             request = \<lparr>la_kind = k, la_requestId = rid, la_addr = addr, la_length = len,
               la_client = client, la_tag = tag, la_submitCycle = now,
               la_ownerGeneration = (if gl_clusterEnable s then gl_fence s else 0),
               la_issued = False, la_cancelled = False, la_writeData = data, la_callback = cb\<rparr>;
             p = gl_port k s;
             s1 = gl_set_port k (p\<lparr>lp_queue := lp_queue p @ [rid], lp_requests := lp_requests p + 1\<rparr>)
                    (s\<lparr>gl_nextRequestId := rid + 1, gl_pending := gl_pending s @ [request]\<rparr>);
             s2 = s1\<lparr>gl_queueHighWater := max (gl_queueHighWater s1) (length (gl_pending s1))\<rparr>
         in map_option (Pair True) (tryIssueLocalAccesses now s2)))"

definition localReadAsync ::
    "nat \<Rightarrow> u64 \<Rightarrow> nat \<Rightarrow> LocalMemoryClient \<Rightarrow> u64 \<Rightarrow> 'cb \<Rightarrow>
     ('cb, 'z) GmLocal_scheme \<Rightarrow> (bool \<times> ('cb, 'z) GmLocal_scheme) option" where
  "localReadAsync now addr len client tag cb s = localSubmit LaRead now addr len [] client tag cb s"

definition localWriteAsync ::
    "nat \<Rightarrow> u64 \<Rightarrow> u8 list \<Rightarrow> LocalMemoryClient \<Rightarrow> u64 \<Rightarrow> 'cb \<Rightarrow>
     ('cb, 'z) GmLocal_scheme \<Rightarrow> (bool \<times> ('cb, 'z) GmLocal_scheme) option" where
  "localWriteAsync now addr data client tag cb s =
     localSubmit LaWrite now addr (length data) data client tag cb s"

text \<open>The call an access ends with: \<open>readCallback(ok, tag, data)\<close> or \<open>writeCallback(ok, tag)\<close>.\<close>

datatype 'cb LaCall = LaCall (lc_callback: 'cb) (lc_ok: bool) (lc_tag: u64) (lc_data: "u8 list")

definition la_finish :: "'cb PendingLocalAccess \<Rightarrow> ('cb, 'z) GmLocal_scheme \<Rightarrow>
     ('cb LaCall \<times> ('cb, 'z) GmLocal_scheme) option" where
  "la_finish r s =
     (let k = la_kind r; p = gl_port k s; off = gs_offset (la_addr r) s;
          p1 = p\<lparr>lp_inFlight := lp_inFlight p - 1\<rparr>
      in if la_cancelled r \<or> \<not> (la_ownerGeneration r = 0 \<or> fence_matches (la_ownerGeneration r) (gl_fence s))
         then Some (LaCall (la_callback r) False (la_tag r) [], gl_set_port k p1 s)
         else if length (gs_storage s) < off + la_length r then None
         else (case k of
             LaRead \<Rightarrow> Some (LaCall (la_callback r) True (la_tag r) (get_range off (la_length r) (gs_storage s)),
                         gl_set_port k (p1\<lparr>lp_bytes := lp_bytes p1 + la_length r\<rparr>) s)
           | LaWrite \<Rightarrow> Some (LaCall (la_callback r) True (la_tag r) [],
                         gl_set_port k (p1\<lparr>lp_bytes := lp_bytes p1 + la_length r\<rparr>)
                           (s\<lparr>gs_storage := copy_range off (la_writeData r) (gs_storage s)\<rparr>))))"

definition handleLocalAccessEvent :: "nat \<Rightarrow> nat \<Rightarrow> ('cb, 'z) GmLocal_scheme \<Rightarrow>
     ('cb LaCall option \<times> ('cb, 'z) GmLocal_scheme) option" where
  "handleLocalAccessEvent now rid s =
     (case gl_find rid s of None \<Rightarrow> Some (None, s)
      | Some r \<Rightarrow>
          do { (call, t) \<leftarrow> la_finish r
                 (s\<lparr>gl_pending := filter (\<lambda>x. la_requestId x \<noteq> rid) (gl_pending s)\<rparr>);
               u \<leftarrow> tryIssueLocalAccesses now t;
               Some (Some call, u) })"

text \<open>The part of \<open>cancelAttentionGeneration\<close> that marks the local accesses of a generation.\<close>

definition cancelLocalAccesses :: "u64 \<Rightarrow> ('cb, 'z) GmLocal_scheme \<Rightarrow> nat \<times> ('cb, 'z) GmLocal_scheme" where
  "cancelLocalAccesses generation s =
     (length (filter (\<lambda>r. la_ownerGeneration r = generation \<and> \<not> la_cancelled r) (gl_pending s)),
      s\<lparr>gl_pending := map (\<lambda>r. if la_ownerGeneration r = generation \<and> \<not> la_cancelled r
                               then r\<lparr>la_cancelled := True\<rparr> else r) (gl_pending s)\<rparr>)"

section \<open>The invariant of the ports\<close>

lemma gl_port_set [simp]:
  "gl_port k' (gl_set_port k p s) = (if k = k' then p else gl_port k' s)"
  by (auto simp: gl_port_def gl_set_port_def split: LaKind.splits)

lemma gl_set_port_frame [simp]:
  "gl_pending (gl_set_port k p s) = gl_pending s" "gl_events (gl_set_port k p s) = gl_events s"
  "gs_storage (gl_set_port k p s) = gs_storage s" "gs_baseAddr (gl_set_port k p s) = gs_baseAddr s"
  "gs_size (gl_set_port k p s) = gs_size s" "gl_queueDepth (gl_set_port k p s) = gl_queueDepth s"
  "gl_maxRequestBytes (gl_set_port k p s) = gl_maxRequestBytes s"
  "gl_coreFactor (gl_set_port k p s) = gl_coreFactor s" "gl_fence (gl_set_port k p s) = gl_fence s"
  "gl_clusterEnable (gl_set_port k p s) = gl_clusterEnable s"
  "gl_nextRequestId (gl_set_port k p s) = gl_nextRequestId s"
  "gl_baseLatencyCycles (gl_set_port k p s) = gl_baseLatencyCycles s"
  "gl_bytesPerCycle (gl_set_port k p s) = gl_bytesPerCycle s"
  by (cases k; simp add: gl_set_port_def)+

lemma gl_port_update [simp]:
  "gl_port k (s\<lparr>gl_pending := ps\<rparr>) = gl_port k s" "gl_port k (s\<lparr>gl_events := es\<rparr>) = gl_port k s"
  "gl_port k (s\<lparr>gs_storage := st\<rparr>) = gl_port k s" "gl_port k (s\<lparr>gl_fence := g\<rparr>) = gl_port k s"
  "gl_port k (s\<lparr>gl_nextRequestId := n\<rparr>) = gl_port k s"
  "gl_port k (s\<lparr>gl_queueHighWater := n\<rparr>) = gl_port k s" "gl_port k (s\<lparr>gl_rejected := n\<rparr>) = gl_port k s"
  by (cases k; simp add: gl_port_def)+

definition ids_of :: "('cb PendingLocalAccess \<Rightarrow> bool) \<Rightarrow> 'cb PendingLocalAccess list \<Rightarrow> nat list" where
  "ids_of P ps = map la_requestId (filter P ps)"

abbreviation waiting :: "LaKind \<Rightarrow> 'cb PendingLocalAccess \<Rightarrow> bool" where
  "waiting k r \<equiv> la_kind r = k \<and> \<not> la_issued r"

abbreviation running :: "LaKind \<Rightarrow> 'cb PendingLocalAccess \<Rightarrow> bool" where
  "running k r \<equiv> la_kind r = k \<and> la_issued r"

definition request_ok :: "nat \<Rightarrow> ('cb, 'z) GmLocal_scheme \<Rightarrow> 'cb PendingLocalAccess \<Rightarrow> bool" where
  "request_ok now s r \<longleftrightarrow> 0 < la_requestId r \<and> la_requestId r < gl_nextRequestId s \<and>
     localAccessValid (gl_maxRequestBytes s) (la_addr r) (la_length r) s \<and>
     (la_kind r = LaWrite \<longrightarrow> length (la_writeData r) = la_length r) \<and> la_submitCycle r \<le> now"

definition port_ok :: "nat \<Rightarrow> 'cb PendingLocalAccess list \<Rightarrow> LaKind \<Rightarrow> LaPort \<Rightarrow> bool" where
  "port_ok now ps k p \<longleftrightarrow> 0 < lp_ports p \<and>
     lp_queue p = ids_of (waiting k) ps \<and> lp_inFlight p = length (ids_of (running k) ps) \<and>
     lp_inFlight p \<le> lp_ports p \<and>
     (bi_hasInterval (lp_intervals p) \<longrightarrow> bi_lastStart (lp_intervals p) \<le> now)"

definition gl_core :: "nat \<Rightarrow> ('cb, 'z) GmLocal_scheme \<Rightarrow> bool" where
  "gl_core now s \<longleftrightarrow> gs_wf s \<and> 0 < gl_coreFactor s \<and> 0 < gl_baseLatencyCycles s \<and>
     distinct (map la_requestId (gl_pending s)) \<and> (\<forall>r \<in> set (gl_pending s). request_ok now s r) \<and>
     0 < gl_nextRequestId s \<and> length (gl_pending s) \<le> gl_queueDepth s \<and>
     (\<forall>k. port_ok now (gl_pending s) k (gl_port k s)) \<and>
     mset (map snd (gl_events s)) = mset (ids_of la_issued (gl_pending s)) \<and>
     (\<forall>(due, rid) \<in> set (gl_events s). now \<le> due)"

text \<open>A port never idles while a request of its kind waits.\<close>

definition settled :: "LaKind \<Rightarrow> ('cb, 'z) GmLocal_scheme \<Rightarrow> bool" where
  "settled k s \<longleftrightarrow> lp_queue (gl_port k s) \<noteq> [] \<longrightarrow> lp_inFlight (gl_port k s) = lp_ports (gl_port k s)"

definition gl_inv :: "nat \<Rightarrow> ('cb, 'z) GmLocal_scheme \<Rightarrow> bool" where
  "gl_inv now s \<longleftrightarrow> gl_core now s \<and> settled LaRead s \<and> settled LaWrite s"

subsection \<open>Marking a request as issued\<close>

lemma mark_issued_ids [simp]: "map la_requestId (gl_mark_issued rid ps) = map la_requestId ps"
  by (simp add: gl_mark_issued_def)

lemma mark_issued_noop: "rid \<notin> la_requestId ` set ps \<Longrightarrow> gl_mark_issued rid ps = ps"
  unfolding gl_mark_issued_def by (rule map_idI) auto

lemma ids_of_waiting_mark:
  "ids_of (waiting k) (gl_mark_issued rid ps) = filter (\<lambda>i. i \<noteq> rid) (ids_of (waiting k) ps)"
  by (induction ps) (auto simp: gl_mark_issued_def ids_of_def)

lemma ids_of_issued_mark:
  assumes "distinct (map la_requestId ps)" "r \<in> set ps" "la_requestId r = rid" "\<not> la_issued r"
  shows "mset (ids_of (\<lambda>r. Q (la_kind r) \<and> la_issued r) (gl_mark_issued rid ps)) =
     (if Q (la_kind r) then {#rid#} else {#}) + mset (ids_of (\<lambda>r. Q (la_kind r) \<and> la_issued r) ps)"
  using assms
proof (induction ps)
  case (Cons x ps)
  show ?case
  proof (cases "x = r")
    case True
    then have "rid \<notin> la_requestId ` set ps" using Cons.prems by auto
    from mark_issued_noop [OF this] True Cons.prems show ?thesis
      by (auto simp: gl_mark_issued_def ids_of_def)
  next
    case False
    then have "la_requestId x \<noteq> rid" using Cons.prems by auto
    with False Cons show ?thesis by (auto simp: gl_mark_issued_def ids_of_def)
  qed
qed simp

lemma find_request:
  assumes "distinct (map la_requestId (gl_pending s))" "r \<in> set (gl_pending s)" "la_requestId r = rid"
  shows "gl_find rid s = Some r"
  using find_unique [OF assms(1,2)] assms(3) by (simp add: gl_find_def)

lemma gl_core_port: "gl_core now s \<Longrightarrow> port_ok now (gl_pending s) k (gl_port k s)"
  by (simp add: gl_core_def)

text \<open>What starting accesses leaves alone: everything but the \<open>issued\<close> marks, the ports and the events.\<close>

definition gl_frame :: "('cb, 'z) GmLocal_scheme \<Rightarrow> ('cb, 'z) GmLocal_scheme \<Rightarrow> bool" where
  "gl_frame s t \<longleftrightarrow> gs_baseAddr t = gs_baseAddr s \<and> gs_size t = gs_size s \<and> gs_storage t = gs_storage s \<and>
     gl_queueDepth t = gl_queueDepth s \<and> gl_maxRequestBytes t = gl_maxRequestBytes s \<and>
     gl_coreFactor t = gl_coreFactor s \<and> gl_baseLatencyCycles t = gl_baseLatencyCycles s \<and>
     gl_bytesPerCycle t = gl_bytesPerCycle s \<and> gl_clusterEnable t = gl_clusterEnable s \<and>
     gl_fence t = gl_fence s \<and> gl_nextRequestId t = gl_nextRequestId s \<and>
     map (la_issued_update (\<lambda>_. True)) (gl_pending t) = map (la_issued_update (\<lambda>_. True)) (gl_pending s)"

lemma gl_frame_refl [simp]: "gl_frame s s"
  by (simp add: gl_frame_def)

lemma gl_frame_trans: "gl_frame s t \<Longrightarrow> gl_frame t u \<Longrightarrow> gl_frame s u"
  by (simp add: gl_frame_def)

lemma mark_issued_frame:
  "map (la_issued_update (\<lambda>_. True)) (gl_mark_issued rid ps) = map (la_issued_update (\<lambda>_. True)) ps"
  by (simp add: gl_mark_issued_def)

lemma gl_frame_pending:
  assumes "gl_frame s t"
  shows "length (gl_pending t) = length (gl_pending s)" "map la_requestId (gl_pending t) = map la_requestId (gl_pending s)"
proof -
  have eq: "map (la_issued_update (\<lambda>_. True)) (gl_pending t) = map (la_issued_update (\<lambda>_. True)) (gl_pending s)"
    using assms by (simp add: gl_frame_def)
  from arg_cong [OF eq, of length] show "length (gl_pending t) = length (gl_pending s)" by simp
  from arg_cong [OF eq, of "map la_requestId"] show "map la_requestId (gl_pending t) = map la_requestId (gl_pending s)"
    by (simp add: comp_def)
qed

lemma localAccessValid_cong:
  "gs_baseAddr t = gs_baseAddr s \<Longrightarrow> gs_size t = gs_size s \<Longrightarrow>
     localAccessValid m a n t = localAccessValid m a n s"
  by (simp add: localAccessValid_def)

lemma request_ok_mark:
  assumes "gl_frame s t"
  shows "request_ok now t (r\<lparr>la_issued := b\<rparr>) = request_ok now s r"
    and "request_ok now t r = request_ok now s r"
  using assms localAccessValid_cong [of t s] by (simp_all add: request_ok_def gl_frame_def)

lemma requests_ok_mark:
  assumes "gl_frame s t" "gl_pending t = gl_mark_issued rid (gl_pending s)" "\<forall>r \<in> set (gl_pending s). request_ok now s r"
  shows "\<forall>r \<in> set (gl_pending t). request_ok now t r"
  using assms(2,3) request_ok_mark(1) [OF assms(1), where b = True] request_ok_mark(2) [OF assms(1)]
  by (auto simp: gl_mark_issued_def)

lemma gs_wf_cong:
  "gs_baseAddr t = gs_baseAddr s \<Longrightarrow> gs_size t = gs_size s \<Longrightarrow>
     length (gs_storage t) = length (gs_storage s) \<Longrightarrow> gs_wf t = gs_wf s"
  by (simp add: gs_wf_def)

lemma bi_add_accepts:
  assumes "start < end'" "bi_hasInterval iv \<longrightarrow> bi_lastStart iv \<le> start"
  obtains iv' where "bi_add start end' iv = (True, iv')" "bi_lastStart iv' = start"
  using assms that by (auto simp: bi_add_def Let_def)

text \<open>The effect of starting the first waiting request of a kind.\<close>

lemma issue_effect:
  assumes core: "gl_core now s" and q: "lp_queue (gl_port k s) = rid # q"
    and s1: "s1 = gl_set_port k ((gl_port k s)\<lparr>lp_queue := q, lp_inFlight := lp_inFlight (gl_port k s) + 1\<rparr>) s"
  obtains t p due r where "issueLocalAccess now rid s1 = Some t"
    "gl_pending t = gl_mark_issued rid (gl_pending s)" "gl_events t = gl_events s @ [(due, rid)]" "now \<le> due"
    "gl_port k t = p" "lp_queue p = q" "lp_inFlight p = lp_inFlight (gl_port k s) + 1"
    "lp_ports p = lp_ports (gl_port k s)" "bi_hasInterval (lp_intervals p) \<longrightarrow> bi_lastStart (lp_intervals p) \<le> now"
    "\<forall>k'. k' \<noteq> k \<longrightarrow> gl_port k' t = gl_port k' s" "gl_frame s t"
    "r \<in> set (gl_pending s)" "la_requestId r = rid" "la_kind r = k" "\<not> la_issued r"
proof -
  have port: "port_ok now (gl_pending s) k (gl_port k s)" using core by (simp add: gl_core_def)
  then have "ids_of (waiting k) (gl_pending s) = rid # q" using q by (simp add: port_ok_def)
  then have "rid \<in> set (ids_of (waiting k) (gl_pending s))" by simp
  then obtain r where r: "r \<in> set (gl_pending s)" "la_requestId r = rid" "la_kind r = k" "\<not> la_issued r"
    by (auto simp: ids_of_def)
  have "gl_find rid s = Some r" using find_request [OF _ r(1,2)] core by (simp add: gl_core_def)
  then have find: "gl_find rid s1 = Some r" by (simp add: gl_find_def s1)
  define service where "service = localAccessDelayCycles (la_length r) s1"
  define due where "due = now + gl_coreFactor s1 * service"
  define p1 where "p1 = (gl_port k s1)\<lparr>lp_queueCycles := lp_queueCycles (gl_port k s1) + sub64 now (la_submitCycle r)\<rparr>"
  have p1: "lp_queue p1 = q" "lp_inFlight p1 = lp_inFlight (gl_port k s) + 1" "lp_ports p1 = lp_ports (gl_port k s)"
    "lp_intervals p1 = lp_intervals (gl_port k s)" by (simp_all add: p1_def s1)
  have "0 < service" using core by (simp add: service_def localAccessDelayCycles_def s1 gl_core_def)
  then have due: "now < due" using core by (simp add: due_def gl_core_def s1)
  obtain ok iv where iv: "(if gl_clusterEnable s1 then bi_add now due (lp_intervals p1)
      else (True, lp_intervals p1)) = (ok, iv)" by fastforce
  have ivok: "ok \<and> (bi_hasInterval iv \<longrightarrow> bi_lastStart iv \<le> now)"
    using bi_add_accepts [OF due, of "lp_intervals p1"] port iv
    by (auto simp: port_ok_def p1 split: if_splits)
  define t where "t = gl_set_port k (p1\<lparr>lp_intervals := iv\<rparr>) (s1\<lparr>gl_pending := gl_mark_issued rid (gl_pending s1),
      gl_events := gl_events s1 @ [(due, rid)]\<rparr>)"
  have "issueLocalAccess now rid s1 = Some t"
    using ivok unfolding issueLocalAccess_def find option.case Let_def r(3) service_def [symmetric]
      due_def [symmetric] p1_def [symmetric] iv by (simp add: t_def)
  moreover have "gl_frame s t" by (simp add: gl_frame_def t_def s1 mark_issued_frame)
  ultimately show thesis
    using that [of t due "p1\<lparr>lp_intervals := iv\<rparr>" r] r due ivok p1 by (simp add: t_def s1)
qed

lemma issue_one:
  assumes core: "gl_core now s" and q: "lp_queue (gl_port k s) = rid # q"
    and free: "lp_inFlight (gl_port k s) < lp_ports (gl_port k s)"
    and s1: "s1 = gl_set_port k ((gl_port k s)\<lparr>lp_queue := q, lp_inFlight := lp_inFlight (gl_port k s) + 1\<rparr>) s"
  obtains t where "issueLocalAccess now rid s1 = Some t" "gl_core now t" "lp_queue (gl_port k t) = q"
    "gl_frame s t" "\<forall>k'. k' \<noteq> k \<longrightarrow> gl_port k' t = gl_port k' s"
proof -
  from issue_effect [OF core q s1] obtain t p due r where t: "issueLocalAccess now rid s1 = Some t"
    and pend: "gl_pending t = gl_mark_issued rid (gl_pending s)" and ev: "gl_events t = gl_events s @ [(due, rid)]"
    and due: "now \<le> due" and p: "gl_port k t = p" "lp_queue p = q" "lp_inFlight p = lp_inFlight (gl_port k s) + 1"
      "lp_ports p = lp_ports (gl_port k s)" "bi_hasInterval (lp_intervals p) \<longrightarrow> bi_lastStart (lp_intervals p) \<le> now"
    and other: "\<forall>k'. k' \<noteq> k \<longrightarrow> gl_port k' t = gl_port k' s" and frame: "gl_frame s t"
    and r: "r \<in> set (gl_pending s)" "la_requestId r = rid" "la_kind r = k" "\<not> la_issued r" .
  have dist: "distinct (map la_requestId (gl_pending s))" using core by (simp add: gl_core_def)
  note issued = ids_of_issued_mark [OF dist r(1,2,4)]
  have ids: "k' = k \<Longrightarrow> ids_of (waiting k') (gl_pending s) = rid # q" for k'
    using core q by (auto simp: gl_core_def port_ok_def)
  have ports: "port_ok now (gl_pending t) k' (gl_port k' t)" for k'
  proof -
    have old: "port_ok now (gl_pending s) k' (gl_port k' s)" using core by (simp add: gl_core_def)
    have "distinct (ids_of (waiting k') (gl_pending s))"
      using dist by (simp add: ids_of_def distinct_map_filter)
    moreover have "length (ids_of (running k') (gl_pending t)) =
        length (ids_of (running k') (gl_pending s)) + (if k = k' then 1 else 0)"
      using arg_cong [OF issued [of "\<lambda>x. x = k'"], of size] unfolding pend r(3) size_mset size_union by simp
    moreover have "rid \<notin> set (ids_of (waiting k') (gl_pending s))" if "k' \<noteq> k"
      using that r dist inj_on_contraD [of la_requestId "set (gl_pending s)"]
      by (auto simp: ids_of_def distinct_map inj_on_def)
    ultimately have "length (ids_of (running k') (gl_pending t)) =
        length (ids_of (running k') (gl_pending s)) + (if k = k' then 1 else 0)"
      and "ids_of (waiting k') (gl_pending t) = (if k' = k then q else ids_of (waiting k') (gl_pending s))"
      using ids [of k'] unfolding pend ids_of_waiting_mark by (auto simp: filter_id_conv)
    with old p free other show ?thesis by (cases "k' = k") (simp_all add: port_ok_def)
  qed
  have "mset (map snd (gl_events t)) = mset (ids_of la_issued (gl_pending t))"
    using issued [of "\<lambda>x. True"] core unfolding ev pend by (simp add: gl_core_def)
  then have "gl_core now t"
    using core ports frame ev due pend dist requests_ok_mark [OF frame pend] gs_wf_cong [of t s]
      gl_frame_pending [OF frame]
    by (auto simp: gl_core_def gl_frame_def)
  with t frame other p show thesis by (intro that [of t]) auto
qed

lemma issueQueued_ok:
  "gl_core now s \<Longrightarrow> lp_queue (gl_port k s) = q \<Longrightarrow>
     \<exists>t. issueQueued k now q s = Some t \<and> gl_core now t \<and> settled k t \<and> gl_frame s t \<and>
       (\<forall>k'. k' \<noteq> k \<longrightarrow> gl_port k' t = gl_port k' s)"
proof (induction q arbitrary: s)
  case Nil
  then show ?case by (simp add: settled_def)
next
  case (Cons rid q)
  show ?case
  proof (cases "lp_inFlight (gl_port k s) < lp_ports (gl_port k s)")
    case True
    from issue_one [OF Cons.prems True refl] obtain t
      where t: "issueLocalAccess now rid (gl_set_port k ((gl_port k s)\<lparr>lp_queue := q,
          lp_inFlight := lp_inFlight (gl_port k s) + 1\<rparr>) s) = Some t"
        "gl_core now t" "lp_queue (gl_port k t) = q" "gl_frame s t" "\<forall>k'. k' \<noteq> k \<longrightarrow> gl_port k' t = gl_port k' s" .
    from Cons.IH [OF t(2,3)] t True show ?thesis by (auto simp: Let_def intro: gl_frame_trans)
  next
    case False
    have "port_ok now (gl_pending s) k (gl_port k s)" using Cons.prems(1) by (simp add: gl_core_def)
    then have "lp_inFlight (gl_port k s) = lp_ports (gl_port k s)" using False by (simp add: port_ok_def)
    with False Cons.prems show ?thesis by (simp add: settled_def Let_def)
  qed
qed

lemma tryIssue_ok:
  assumes "gl_core now s"
  obtains t where "tryIssueLocalAccesses now s = Some t" "gl_inv now t" "gl_frame s t"
proof -
  from issueQueued_ok [OF assms refl, of LaRead] obtain u where u: "issueQueued LaRead now (lp_queue (gl_rd s)) s = Some u"
    "gl_core now u" "settled LaRead u" "gl_frame s u" by (auto simp: gl_port_def)
  from issueQueued_ok [OF u(2) refl, of LaWrite] obtain t where t: "issueQueued LaWrite now (lp_queue (gl_wr u)) u = Some t"
    "gl_core now t" "settled LaWrite t" "gl_frame u t" "gl_port LaRead t = gl_port LaRead u" by (auto simp: gl_port_def)
  have "settled LaRead t" using u(3) t(5) by (simp add: settled_def)
  with u t show thesis
    by (intro that [of t]) (auto simp: tryIssueLocalAccesses_def gl_inv_def intro: gl_frame_trans)
qed

text \<open>Time may pass up to the next scheduled event.\<close>

lemma request_ok_later: "request_ok now s r \<Longrightarrow> now \<le> t \<Longrightarrow> request_ok t s r"
  by (auto simp: request_ok_def)

lemma port_ok_later: "port_ok now ps k p \<Longrightarrow> now \<le> t \<Longrightarrow> port_ok t ps k p"
  by (auto simp: port_ok_def)

lemma gl_inv_later:
  assumes "gl_inv now s" "now \<le> t" "\<forall>(due, rid) \<in> set (gl_events s). t \<le> due"
  shows "gl_inv t s"
proof -
  have "\<forall>r \<in> set (gl_pending s). request_ok t s r" "\<forall>k. port_ok t (gl_pending s) k (gl_port k s)"
    using assms(1,2) by (auto simp: gl_inv_def gl_core_def intro: request_ok_later port_ok_later)
  with assms show ?thesis by (simp add: gl_inv_def gl_core_def)
qed

subsection \<open>Every operation keeps the invariant\<close>

lemma gs_wf_update [simp]:
  "gs_wf (s\<lparr>gl_pending := ps\<rparr>) = gs_wf s" "gs_wf (s\<lparr>gl_events := es\<rparr>) = gs_wf s"
  "gs_wf (s\<lparr>gl_fence := g\<rparr>) = gs_wf s" "gs_wf (s\<lparr>gl_nextRequestId := n\<rparr>) = gs_wf s"
  "gs_wf (s\<lparr>gl_queueHighWater := n\<rparr>) = gs_wf s" "gs_wf (s\<lparr>gl_rejected := n\<rparr>) = gs_wf s"
  "gs_wf (gl_set_port k p s) = gs_wf s"
  by (simp_all add: gs_wf_def)

lemma request_ok_eq:
  assumes "\<forall>r \<in> set ps. request_ok now s r" "gs_baseAddr t = gs_baseAddr s" "gs_size t = gs_size s"
    "gl_maxRequestBytes t = gl_maxRequestBytes s" "gl_nextRequestId s \<le> gl_nextRequestId t"
  shows "\<forall>r \<in> set ps. request_ok now t r"
  using assms localAccessValid_cong [of t s] by (auto simp: request_ok_def)

lemma ids_of_snoc [simp]: "ids_of P (ps @ [r]) = ids_of P ps @ (if P r then [la_requestId r] else [])"
  by (simp add: ids_of_def)

text \<open>The request a submission queues.\<close>

definition la_request :: "LaKind \<Rightarrow> nat \<Rightarrow> u64 \<Rightarrow> nat \<Rightarrow> u8 list \<Rightarrow> LocalMemoryClient \<Rightarrow> u64 \<Rightarrow> 'cb \<Rightarrow>
     ('cb, 'z) GmLocal_scheme \<Rightarrow> 'cb PendingLocalAccess" where
  "la_request k now addr len data client tag cb s =
     \<lparr>la_kind = k, la_requestId = gl_nextRequestId s, la_addr = addr, la_length = len,
      la_client = client, la_tag = tag, la_submitCycle = now,
      la_ownerGeneration = (if gl_clusterEnable s then gl_fence s else 0),
      la_issued = False, la_cancelled = False, la_writeData = data, la_callback = cb\<rparr>"

lemma submit_core:
  assumes core: "gl_core now s" and data: "k = LaWrite \<longrightarrow> length data = len"
    and valid: "localAccessValid (gl_maxRequestBytes s) addr len s" and room: "length (gl_pending s) < gl_queueDepth s"
    and t: "t = gl_set_port k ((gl_port k s)\<lparr>lp_queue := lp_queue (gl_port k s) @ [gl_nextRequestId s],
                   lp_requests := lp_requests (gl_port k s) + 1\<rparr>)
               (s\<lparr>gl_nextRequestId := gl_nextRequestId s + 1,
                  gl_pending := gl_pending s @ [la_request k now addr len data client tag cb s]\<rparr>)"
  shows "gl_core now t"
proof -
  have "\<forall>r \<in> set (gl_pending s). request_ok now t r"
    using core request_ok_eq [of "gl_pending s" now s t] by (simp add: gl_core_def t)
  moreover have "request_ok now t (la_request k now addr len data client tag cb s)"
    using data valid core localAccessValid_cong [of t s] by (auto simp: request_ok_def la_request_def t gl_core_def)
  moreover have "gl_nextRequestId s \<notin> la_requestId ` set (gl_pending s)"
    using core by (auto simp: gl_core_def request_ok_def)
  moreover have "port_ok now (gl_pending t) k' (gl_port k' t)" for k'
    using gl_core_port [OF core, of k'] by (cases "k' = k") (simp_all add: port_ok_def t la_request_def)
  ultimately show ?thesis
    using core room by (auto simp: gl_core_def t la_request_def)
qed

lemma localSubmit_ok:
  assumes "gl_inv now s" and data: "k = LaWrite \<longrightarrow> length data = len"
  obtains (accepted) t where "localSubmit k now addr len data client tag cb s = Some (True, t)" "gl_inv now t"
      "gl_frame (s\<lparr>gl_nextRequestId := gl_nextRequestId s + 1,
                  gl_pending := gl_pending s @ [la_request k now addr len data client tag cb s]\<rparr>) t"
  | (rejected) "localSubmit k now addr len data client tag cb s = Some (False, s\<lparr>gl_rejected := gl_rejected s + 1\<rparr>)"
      "gl_inv now (s\<lparr>gl_rejected := gl_rejected s + 1\<rparr>)"
proof (cases "\<not> localAccessValid (gl_maxRequestBytes s) addr len s \<or> gl_queueDepth s \<le> length (gl_pending s)")
  case True
  have "gl_inv now (s\<lparr>gl_rejected := gl_rejected s + 1\<rparr>)"
    using assms(1) request_ok_eq [of "gl_pending s" now s "s\<lparr>gl_rejected := gl_rejected s + 1\<rparr>"]
    by (simp add: gl_inv_def gl_core_def settled_def)
  with True rejected show thesis by (simp add: localSubmit_def)
next
  case False
  define s1 where "s1 = gl_set_port k ((gl_port k s)\<lparr>lp_queue := lp_queue (gl_port k s) @ [gl_nextRequestId s],
                   lp_requests := lp_requests (gl_port k s) + 1\<rparr>)
               (s\<lparr>gl_nextRequestId := gl_nextRequestId s + 1,
                  gl_pending := gl_pending s @ [la_request k now addr len data client tag cb s]\<rparr>)"
  define s2 where "s2 = s1\<lparr>gl_queueHighWater := max (gl_queueHighWater s1) (length (gl_pending s1))\<rparr>"
  have "gl_core now s1"
    using submit_core [OF _ data _ _ s1_def] assms(1) False by (simp add: gl_inv_def)
  then have "gl_core now s2"
    using request_ok_eq [of "gl_pending s1" now s1 s2] by (simp add: gl_core_def s2_def)
  from tryIssue_ok [OF this] obtain t where t: "tryIssueLocalAccesses now s2 = Some t" "gl_inv now t" "gl_frame s2 t" .
  have "localSubmit k now addr len data client tag cb s = Some (True, t)"
    unfolding localSubmit_def if_not_P [OF False] Let_def la_request_def [symmetric] s1_def [symmetric] s2_def [symmetric]
    by (simp add: t)
  moreover have "gl_frame (s\<lparr>gl_nextRequestId := gl_nextRequestId s + 1,
                  gl_pending := gl_pending s @ [la_request k now addr len data client tag cb s]\<rparr>) t"
    using t(3) by (simp add: gl_frame_def s2_def s1_def)
  ultimately show thesis using t accepted by blast
qed

lemma la_finish_ok:
  assumes wf: "gs_wf s" and r: "request_ok now s r"
  obtains call p st where
    "la_finish r s = Some (call, gl_set_port (la_kind r) p (s\<lparr>gs_storage := st\<rparr>))"
    "length st = length (gs_storage s)" "lp_queue p = lp_queue (gl_port (la_kind r) s)"
    "lp_ports p = lp_ports (gl_port (la_kind r) s)" "lp_intervals p = lp_intervals (gl_port (la_kind r) s)"
    "lp_inFlight p = lp_inFlight (gl_port (la_kind r) s) - 1"
proof -
  have range: "gs_offset (la_addr r) s + la_length r \<le> length (gs_storage s)"
    using r by (intro localAccessValid_range [OF wf, of "gl_maxRequestBytes s"]) (simp add: request_ok_def)
  let ?p = "(gl_port (la_kind r) s)\<lparr>lp_inFlight := lp_inFlight (gl_port (la_kind r) s) - 1\<rparr>"
  consider (cancel) "la_cancelled r \<or> \<not> (la_ownerGeneration r = 0 \<or> fence_matches (la_ownerGeneration r) (gl_fence s))"
    | (read) "\<not> (la_cancelled r \<or> \<not> (la_ownerGeneration r = 0 \<or> fence_matches (la_ownerGeneration r) (gl_fence s)))"
        "la_kind r = LaRead"
    | (wr) "\<not> (la_cancelled r \<or> \<not> (la_ownerGeneration r = 0 \<or> fence_matches (la_ownerGeneration r) (gl_fence s)))"
        "la_kind r = LaWrite" by (cases "la_kind r") auto
  then show thesis
  proof cases
    case cancel
    then show thesis using that [of _ ?p "gs_storage s"] by (simp add: la_finish_def Let_def)
  next
    case read
    then show thesis
      using that [of _ "?p\<lparr>lp_bytes := lp_bytes (gl_port LaRead s) + la_length r\<rparr>" "gs_storage s"] range
      by (simp add: la_finish_def Let_def not_less)
  next
    case wr
    then have "length (la_writeData r) = la_length r" using r by (simp add: request_ok_def)
    with wr show thesis
      using that [of _ "?p\<lparr>lp_bytes := lp_bytes (gl_port LaWrite s) + la_length r\<rparr>"
          "copy_range (gs_offset (la_addr r) s) (la_writeData r) (gs_storage s)"] range
      by (simp add: la_finish_def Let_def not_less)
  qed
qed

text \<open>An event leaves the self link when it is delivered.\<close>

definition gl_take_event :: "nat \<Rightarrow> nat \<Rightarrow> ('cb, 'z) GmLocal_scheme \<Rightarrow> ('cb, 'z) GmLocal_scheme" where
  "gl_take_event due rid s = s\<lparr>gl_events := remove1 (due, rid) (gl_events s)\<rparr>"

lemma ids_of_remove:
  "ids_of P (filter (\<lambda>x. la_requestId x \<noteq> rid) ps) = filter (\<lambda>i. i \<noteq> rid) (ids_of P ps)"
  by (induction ps) (auto simp: ids_of_def)

lemma distinct_ids_of: "distinct (map la_requestId ps) \<Longrightarrow> distinct (ids_of P ps)"
  by (simp add: ids_of_def distinct_map_filter)

lemma mset_filter_neq: "distinct xs \<Longrightarrow> mset (filter (\<lambda>i. i \<noteq> a) xs) = mset xs - {#a#}"
  by (induction xs) (auto simp: filter_id_conv diff_add_mset_swap)

lemma finish_core:
  assumes core: "gl_core now s" and ev: "(now, rid) \<in> set (gl_events s)"
  obtains r call t where "r \<in> set (gl_pending s)" "la_requestId r = rid" "la_issued r"
    "gl_find rid (gl_take_event now rid s) = Some r"
    "la_finish r (gl_take_event now rid s\<lparr>gl_pending := filter (\<lambda>x. la_requestId x \<noteq> rid) (gl_pending s)\<rparr>) = Some (call, t)"
    "gl_core now t" "gl_pending t = filter (\<lambda>x. la_requestId x \<noteq> rid) (gl_pending s)"
    "gl_nextRequestId t = gl_nextRequestId s"
proof -
  have dist: "distinct (map la_requestId (gl_pending s))" using core by (simp add: gl_core_def)
  have "rid \<in># mset (map snd (gl_events s))" using ev by force
  moreover have "mset (map snd (gl_events s)) = mset (ids_of la_issued (gl_pending s))"
    using core by (simp add: gl_core_def)
  ultimately have "rid \<in> set (ids_of la_issued (gl_pending s))" by (metis set_mset_mset)
  then obtain r where r: "r \<in> set (gl_pending s)" "la_requestId r = rid" "la_issued r"
    by (auto simp: ids_of_def)
  have find: "gl_find rid (gl_take_event now rid s) = Some r"
    using find_request [OF dist r(1,2)] by (simp add: gl_find_def gl_take_event_def)
  define u where "u = gl_take_event now rid s\<lparr>gl_pending := filter (\<lambda>x. la_requestId x \<noteq> rid) (gl_pending s)\<rparr>"
  have u: "gs_wf u" "request_ok now u r" "\<forall>x \<in> set (gl_pending s). request_ok now u x"
    using core r request_ok_eq [of "gl_pending s" now s u] by (auto simp: gl_core_def u_def gl_take_event_def)
  from la_finish_ok [OF u(1,2)] obtain call p st where
    fin: "la_finish r u = Some (call, gl_set_port (la_kind r) p (u\<lparr>gs_storage := st\<rparr>))"
    and st: "length st = length (gs_storage u)" and p: "lp_queue p = lp_queue (gl_port (la_kind r) u)"
    "lp_ports p = lp_ports (gl_port (la_kind r) u)" "lp_intervals p = lp_intervals (gl_port (la_kind r) u)"
    "lp_inFlight p = lp_inFlight (gl_port (la_kind r) u) - 1" .
  define t where "t = gl_set_port (la_kind r) p (u\<lparr>gs_storage := st\<rparr>)"
  have pt: "gl_pending t = filter (\<lambda>x. la_requestId x \<noteq> rid) (gl_pending s)" by (simp add: t_def u_def)
  have port: "port_ok now (gl_pending t) k (gl_port k t)" for k
  proof -
    have old: "port_ok now (gl_pending s) k (gl_port k s)" using core by (rule gl_core_port)
    have w: "rid \<notin> set (ids_of (waiting k) (gl_pending s))"
      using r dist by (auto simp: ids_of_def distinct_map inj_on_def)
    have "mset (ids_of (running k) (gl_pending t)) = mset (ids_of (running k) (gl_pending s)) - {#rid#}"
      unfolding pt ids_of_remove by (rule mset_filter_neq [OF distinct_ids_of [OF dist]])
    then have "length (ids_of (running k) (gl_pending t)) = size (mset (ids_of (running k) (gl_pending s)) - {#rid#})"
      by (simp add: size_mset [symmetric] del: size_mset)
    moreover have "rid \<in># mset (ids_of (running k) (gl_pending s)) \<longleftrightarrow> k = la_kind r"
      using r dist by (auto simp: ids_of_def distinct_map inj_on_def)
    ultimately have "length (ids_of (running k) (gl_pending t)) =
        length (ids_of (running k) (gl_pending s)) - (if k = la_kind r then 1 else 0)"
      by (auto simp: size_Diff_singleton diff_single_trivial)
    moreover have "ids_of (waiting k) (gl_pending t) = ids_of (waiting k) (gl_pending s)"
      using w by (simp add: t_def u_def ids_of_remove filter_id_conv) metis
    ultimately show ?thesis
      using old p by (auto simp: port_ok_def t_def u_def gl_take_event_def)
  qed
  have "mset (map snd (gl_events t)) = mset (ids_of la_issued (gl_pending s)) - {#rid#}"
    using core ev by (simp add: t_def u_def gl_take_event_def gl_core_def image_mset_Diff)
  then have "mset (map snd (gl_events t)) = mset (ids_of la_issued (gl_pending t))"
    unfolding pt ids_of_remove mset_filter_neq [OF distinct_ids_of [OF dist]] .
  moreover have "\<forall>x \<in> set (gl_pending t). request_ok now t x"
    using u(3) request_ok_eq [of "gl_pending t" now u t] by (auto simp: t_def u_def)
  moreover have "gs_wf t" using u(1) st by (simp add: t_def gs_wf_def)
  moreover have tf: "gl_coreFactor t = gl_coreFactor s" "gl_baseLatencyCycles t = gl_baseLatencyCycles s"
    "gl_nextRequestId t = gl_nextRequestId s" "gl_queueDepth t = gl_queueDepth s"
    "gl_events t = remove1 (now, rid) (gl_events s)" by (simp_all add: t_def u_def gl_take_event_def)
  moreover have "length (gl_pending t) \<le> gl_queueDepth s"
    using core by (auto simp: pt gl_core_def intro: order_trans [OF length_filter_le])
  moreover have "\<forall>(due, rid) \<in> set (gl_events t). now \<le> due"
    using core set_remove1_subset [of "(now, rid)" "gl_events s"] by (auto simp: tf gl_core_def)
  moreover have "distinct (map la_requestId (gl_pending t))" by (simp add: pt distinct_map_filter dist)
  ultimately have "gl_core now t"
    using core port unfolding gl_core_def by simp
  moreover have "la_finish r (gl_take_event now rid s\<lparr>gl_pending := filter (\<lambda>x. la_requestId x \<noteq> rid) (gl_pending s)\<rparr>)
      = Some (call, t)" using fin by (simp add: t_def u_def)
  ultimately show thesis using that r find pt tf(3) by blast
qed

lemma handleLocalAccessEvent_ok:
  assumes "gl_inv now s" "(now, rid) \<in> set (gl_events s)"
  obtains r call t u where "handleLocalAccessEvent now rid (gl_take_event now rid s) = Some (Some call, u)" "gl_inv now u"
    "r \<in> set (gl_pending s)" "la_requestId r = rid"
    "la_finish r (gl_take_event now rid s\<lparr>gl_pending := filter (\<lambda>x. la_requestId x \<noteq> rid) (gl_pending s)\<rparr>) = Some (call, t)"
    "gl_frame t u" "gl_pending t = filter (\<lambda>x. la_requestId x \<noteq> rid) (gl_pending s)"
    "gl_nextRequestId u = gl_nextRequestId s"
proof -
  have core: "gl_core now s" using assms(1) by (simp add: gl_inv_def)
  from finish_core [OF core assms(2)] obtain r call t where r: "r \<in> set (gl_pending s)" "la_requestId r = rid"
    and find: "gl_find rid (gl_take_event now rid s) = Some r"
    and fin: "la_finish r (gl_take_event now rid s\<lparr>gl_pending := filter (\<lambda>x. la_requestId x \<noteq> rid) (gl_pending s)\<rparr>) = Some (call, t)"
    and t: "gl_core now t" "gl_pending t = filter (\<lambda>x. la_requestId x \<noteq> rid) (gl_pending s)"
      "gl_nextRequestId t = gl_nextRequestId s" .
  from tryIssue_ok [OF t(1)] obtain u where u: "tryIssueLocalAccesses now t = Some u" "gl_inv now u" "gl_frame t u" .
  have "gl_pending (gl_take_event now rid s) = gl_pending s" by (simp add: gl_take_event_def)
  then have "handleLocalAccessEvent now rid (gl_take_event now rid s) = Some (Some call, u)"
    unfolding handleLocalAccessEvent_def find option.case by (simp add: fin u)
  with that r fin t u show thesis by (simp add: gl_frame_def)
qed

lemma ids_of_map_cancel:
  assumes "\<And>r. la_requestId (f r) = la_requestId r" "\<And>r. P (f r) = P r"
  shows "ids_of P (map f ps) = ids_of P ps"
  using assms by (induction ps) (simp_all add: ids_of_def)

lemma cancelLocalAccesses_ok:
  assumes "gl_inv now s" "cancelLocalAccesses g (s\<lparr>gl_fence := f\<rparr>) = (n, t)"
  shows "gl_inv now t" "map la_requestId (gl_pending t) = map la_requestId (gl_pending s)"
    "gl_nextRequestId t = gl_nextRequestId s" "gs_storage t = gs_storage s"
proof -
  define c :: "'a PendingLocalAccess \<Rightarrow> 'a PendingLocalAccess" where
    "c r = (if la_ownerGeneration r = g \<and> \<not> la_cancelled r then r\<lparr>la_cancelled := True\<rparr> else r)" for r
  have t: "t = s\<lparr>gl_fence := f, gl_pending := map c (gl_pending s)\<rparr>"
    using assms(2) by (auto simp: cancelLocalAccesses_def c_def [abs_def])
  have c: "la_requestId (c r) = la_requestId r" "la_issued (c r) = la_issued r" "la_kind (c r) = la_kind r" for r
    by (simp_all add: c_def)
  have ids: "ids_of (waiting k) (map c ps) = ids_of (waiting k) ps" "ids_of (running k) (map c ps) = ids_of (running k) ps"
    "ids_of la_issued (map c ps) = ids_of la_issued ps" for k ps
    by (rule ids_of_map_cancel; simp add: c)+
  have "request_ok now t (c r) = request_ok now s r" for r
    using localAccessValid_cong [of t s] by (auto simp: request_ok_def c_def t)
  moreover have "port_ok now (map c ps) k p = port_ok now ps k p" for k ps p by (simp add: port_ok_def ids)
  ultimately show "gl_inv now t"
    using assms(1) by (simp add: gl_inv_def gl_core_def settled_def t ids comp_def c)
  show "map la_requestId (gl_pending t) = map la_requestId (gl_pending s)"
    "gl_nextRequestId t = gl_nextRequestId s" "gs_storage t = gs_storage s" by (simp_all add: t comp_def c)
qed

lemma gl_construct_ok:
  assumes "gl_construct base bytes bl bpc rp wp qd mb cluster factor = Some s"
    and "0 < factor" "unat base + unat bytes < 2 ^ 64"
  shows "gl_inv now s" "gl_pending s = []" "gl_events s = []" "gl_nextRequestId s = 1"
  using assms
  by (auto simp: gl_construct_def gl_inv_def gl_core_def gs_wf_def settled_def port_ok_def ids_of_def
      gl_port_def lp_init_def bi_init_def split: if_splits LaKind.splits)

end
