(* ===== verification/Gm_Local_Runs.thy ===== *)
theory Gm_Local_Runs
  imports Gm_Local_Access
begin

text \<open>
  Runs of the local-access ports: clients submit reads and writes, the self link delivers its
  events in the order of their due times, and generations begin and are cancelled, in any
  order.  The theorems say what every such run keeps: the port and queue bounds, that every
  accepted request is called back exactly once, that a read returns what the completed writes
  left, and that the pending requests always drain.
\<close>

section \<open>Steps and runs\<close>

datatype 'cb la_obs =
    Accepted "'cb PendingLocalAccess"
  | Refused
  | Called "'cb PendingLocalAccess" "'cb LaCall"
  | Fenced

inductive gl_step :: "nat \<times> 'cb GmLocal \<Rightarrow> 'cb la_obs \<Rightarrow> nat \<times> 'cb GmLocal \<Rightarrow> bool" where
  gl_read: "now \<le> t \<Longrightarrow> \<forall>(due, rid) \<in> set (gl_events s). t \<le> due \<Longrightarrow>
     localReadAsync t addr len client tag cb s = Some (ok, s') \<Longrightarrow>
     gl_step (now, s) (if ok then Accepted (la_request LaRead t addr len [] client tag cb s) else Refused) (t, s')"
| gl_write: "now \<le> t \<Longrightarrow> \<forall>(due, rid) \<in> set (gl_events s). t \<le> due \<Longrightarrow>
     localWriteAsync t addr data client tag cb s = Some (ok, s') \<Longrightarrow>
     gl_step (now, s) (if ok then Accepted (la_request LaWrite t addr (length data) data client tag cb s) else Refused) (t, s')"
| gl_event: "(t, rid) \<in> set (gl_events s) \<Longrightarrow> \<forall>(due, rid') \<in> set (gl_events s). t \<le> due \<Longrightarrow>
     gl_find rid s = Some r \<Longrightarrow>
     handleLocalAccessEvent t rid (gl_take_event t rid s) = Some (Some call, s') \<Longrightarrow>
     gl_step (now, s) (Called r call) (t, s')"
| gl_begin: "fence_begin g (gl_fence s) = (ok, f) \<Longrightarrow> gl_step (now, s) Fenced (now, s\<lparr>gl_fence := f\<rparr>)"
| gl_cancel: "fence_cancel g (gl_fence s) = (ok, f) \<Longrightarrow> cancelLocalAccesses g (s\<lparr>gl_fence := f\<rparr>) = (n, s') \<Longrightarrow>
     gl_step (now, s) Fenced (now, s')"

inductive gl_run :: "nat \<times> 'cb GmLocal \<Rightarrow> 'cb la_obs list \<Rightarrow> nat \<times> 'cb GmLocal \<Rightarrow> bool" where
  run_nil: "gl_run c [] c"
| run_snoc: "gl_run c tr d \<Longrightarrow> gl_step d ob e \<Longrightarrow> gl_run c (tr @ [ob]) e"

fun accepted_ids :: "'cb la_obs list \<Rightarrow> nat list" where
  "accepted_ids [] = []"
| "accepted_ids (Accepted r # tr) = la_requestId r # accepted_ids tr"
| "accepted_ids (Refused # tr) = accepted_ids tr"
| "accepted_ids (Called r call # tr) = accepted_ids tr"
| "accepted_ids (Fenced # tr) = accepted_ids tr"

fun called_ids :: "'cb la_obs list \<Rightarrow> nat list" where
  "called_ids [] = []"
| "called_ids (Accepted r # tr) = called_ids tr"
| "called_ids (Refused # tr) = called_ids tr"
| "called_ids (Called r call # tr) = la_requestId r # called_ids tr"
| "called_ids (Fenced # tr) = called_ids tr"

text \<open>The storage that the successful writes of a trace leave.\<close>

fun replay :: "u64 \<Rightarrow> 'cb la_obs list \<Rightarrow> u8 list \<Rightarrow> u8 list" where
  "replay base [] st = st"
| "replay base (Called r call # tr) st =
     replay base tr (if lc_ok call \<and> la_kind r = LaWrite
       then copy_range (unat (la_addr r - base)) (la_writeData r) st else st)"
| "replay base (Accepted r # tr) st = replay base tr st"
| "replay base (Refused # tr) st = replay base tr st"
| "replay base (Fenced # tr) st = replay base tr st"

lemma obs_append [simp]:
  "accepted_ids (xs @ ys) = accepted_ids xs @ accepted_ids ys"
  "called_ids (xs @ ys) = called_ids xs @ called_ids ys"
  "replay base (xs @ ys) st = replay base ys (replay base xs st)"
  by (induction xs rule: accepted_ids.induct; simp)
    (induction xs rule: called_ids.induct, simp_all,
     induction base xs st rule: replay.induct, simp_all)

section \<open>What a step keeps\<close>

lemma gl_inv_fence [simp]: "gl_inv now (s\<lparr>gl_fence := f\<rparr>) = gl_inv now s"
proof -
  have "request_ok now (s\<lparr>gl_fence := f\<rparr>) r = request_ok now s r" for r
    by (simp add: request_ok_def localAccessValid_def)
  then show ?thesis by (simp add: gl_inv_def gl_core_def settled_def)
qed

text \<open>The effect of one step on the identifiers, the storage and the window.\<close>

definition tracks :: "'cb la_obs \<Rightarrow> 'cb GmLocal \<Rightarrow> 'cb GmLocal \<Rightarrow> bool" where
  "tracks ob s t \<longleftrightarrow>
     accepted_ids [ob] = [gl_nextRequestId s..<gl_nextRequestId t] \<and> gl_nextRequestId s \<le> gl_nextRequestId t \<and>
     mset (called_ids [ob]) + mset (map la_requestId (gl_pending t)) =
       mset (map la_requestId (gl_pending s)) + mset (accepted_ids [ob]) \<and>
     gs_storage t = replay (gs_baseAddr s) [ob] (gs_storage s) \<and> gs_baseAddr t = gs_baseAddr s"

lemma submit_tracks:
  assumes inv: "gl_inv now s" and data: "k = LaWrite \<longrightarrow> length data = len"
    and sub: "localSubmit k now addr len data client tag cb s = Some (ok, t)"
  shows "gl_inv now t \<and> tracks (if ok then Accepted (la_request k now addr len data client tag cb s) else Refused) s t"
proof (cases rule: localSubmit_ok [OF inv data, of addr client tag cb])
  case (1 u)
  note accepted = 1
  let ?r = "la_request k now addr len data client tag cb s"
  have u: "t = u" "ok" using accepted(1) sub by auto
  have "map la_requestId (gl_pending u) = map la_requestId (gl_pending s) @ [gl_nextRequestId s]"
    using gl_frame_pending(2) [OF accepted(3)] by (simp add: la_request_def)
  moreover have "gl_nextRequestId u = gl_nextRequestId s + 1" "gs_storage u = gs_storage s" "gs_baseAddr u = gs_baseAddr s"
    using accepted(3) by (simp_all add: gl_frame_def)
  ultimately show ?thesis using accepted(2) by (simp add: u tracks_def la_request_def)
next
  case 2
  then show ?thesis using sub by (auto simp: tracks_def)
qed

lemma la_finish_storage:
  assumes "la_finish r s = Some (call, t)"
  shows "gs_storage t = replay (gs_baseAddr s) [Called r call] (gs_storage s)" "gs_baseAddr t = gs_baseAddr s"
    "la_kind r = LaRead \<Longrightarrow> lc_ok call \<Longrightarrow>
       lc_data call = get_range (unat (la_addr r - gs_baseAddr s)) (la_length r) (gs_storage s)"
  using assms
  by (auto simp: la_finish_def Let_def gs_offset_def split: if_splits LaKind.splits)

lemma event_tracks:
  assumes inv: "gl_inv now s" and ev: "(now, rid) \<in> set (gl_events s)"
    and find: "gl_find rid s = Some r"
    and h: "handleLocalAccessEvent now rid (gl_take_event now rid s) = Some (Some call, u)"
  shows "gl_inv now u \<and> tracks (Called r call) s u \<and>
     (la_kind r = LaRead \<and> lc_ok call \<longrightarrow>
        lc_data call = get_range (unat (la_addr r - gs_baseAddr s)) (la_length r) (gs_storage s))"
proof -
  from handleLocalAccessEvent_ok [OF inv ev] obtain r' call' t u' where
    eq: "handleLocalAccessEvent now rid (gl_take_event now rid s) = Some (Some call', u')" and u: "gl_inv now u'"
    and r': "r' \<in> set (gl_pending s)" "la_requestId r' = rid"
    and fin: "la_finish r' (gl_take_event now rid s\<lparr>gl_pending := filter (\<lambda>x. la_requestId x \<noteq> rid) (gl_pending s)\<rparr>) = Some (call', t)"
    and t: "gl_frame t u'" "gl_pending t = filter (\<lambda>x. la_requestId x \<noteq> rid) (gl_pending s)"
      "gl_nextRequestId u' = gl_nextRequestId s" .
  have dist: "distinct (map la_requestId (gl_pending s))" using inv by (simp add: gl_inv_def gl_core_def)
  have [simp]: "r' = r" "call' = call" "u' = u"
    using find_request [OF dist r'] find eq h by auto
  have "map la_requestId (gl_pending u) = filter (\<lambda>i. i \<noteq> rid) (map la_requestId (gl_pending s))"
    using gl_frame_pending(2) [OF t(1)] t(2) by (simp add: filter_map comp_def)
  then have "mset (map la_requestId (gl_pending u)) = mset (map la_requestId (gl_pending s)) - {#rid#}"
    using mset_filter_neq [OF dist] by simp
  moreover have "rid \<in># mset (map la_requestId (gl_pending s))" using r' by force
  ultimately have "add_mset rid (mset (map la_requestId (gl_pending u))) = mset (map la_requestId (gl_pending s))"
    by simp
  then show ?thesis
    using la_finish_storage [OF fin] u t r' by (simp add: tracks_def gl_frame_def gl_take_event_def)
qed

lemma gl_step_tracks:
  assumes "gl_step (now, s) ob (t, s')" "gl_inv now s"
  shows "gl_inv t s' \<and> tracks ob s s' \<and>
     (\<forall>r call. ob = Called r call \<and> la_kind r = LaRead \<and> lc_ok call \<longrightarrow>
        lc_data call = get_range (unat (la_addr r - gs_baseAddr s)) (la_length r) (gs_storage s))"
  using assms(1)
proof cases
  case (gl_read addr len client tag cb ok)
  then show ?thesis
    using submit_tracks [OF gl_inv_later [OF assms(2)], where k = LaRead] by (auto simp: localReadAsync_def)
next
  case (gl_write addr data client tag cb ok)
  then show ?thesis
    using submit_tracks [OF gl_inv_later [OF assms(2)], where k = LaWrite] by (auto simp: localWriteAsync_def)
next
  case (gl_event rid r call)
  have "now \<le> t" using assms(2) gl_event(2) by (auto simp: gl_inv_def gl_core_def)
  with gl_event gl_inv_later [OF assms(2)] have "gl_inv t s" by blast
  from event_tracks [OF this] gl_event show ?thesis by auto
next
  case (gl_begin g ok f)
  then show ?thesis using assms(2) by (auto simp: tracks_def)
next
  case (gl_cancel g ok f n)
  then show ?thesis
    using cancelLocalAccesses_ok [OF assms(2), of g f n s'] by (auto simp: tracks_def cancelLocalAccesses_def)
qed

lemma upt_glue: "a \<le> b \<Longrightarrow> b \<le> c \<Longrightarrow> [a..<b] @ [b..<c] = [a..<c]"
  by (metis le_iff_add upt_add_eq_append)

lemma gl_run_tracks:
  assumes "gl_run c tr d" "c = (now, s)" "d = (t, s')" "gl_inv now s"
  shows "gl_inv t s' \<and> accepted_ids tr = [gl_nextRequestId s..<gl_nextRequestId s'] \<and>
     gl_nextRequestId s \<le> gl_nextRequestId s' \<and>
     mset (called_ids tr) + mset (map la_requestId (gl_pending s')) =
       mset (map la_requestId (gl_pending s)) + mset (accepted_ids tr) \<and>
     gs_storage s' = replay (gs_baseAddr s) tr (gs_storage s) \<and> gs_baseAddr s' = gs_baseAddr s"
  using assms
proof (induction arbitrary: t s' rule: gl_run.induct)
  case (run_snoc c tr d ob e)
  obtain t1 s1 where d: "d = (t1, s1)" by (cases d)
  note IH = run_snoc.IH [OF run_snoc.prems(1) d run_snoc.prems(3)]
  have step: "gl_step (t1, s1) ob (t, s')" using run_snoc.hyps(2) d run_snoc.prems(2) by simp
  from gl_step_tracks [OF step] IH have inv: "gl_inv t s'" and tr: "tracks ob s1 s'" by auto
  have "accepted_ids (tr @ [ob]) = [gl_nextRequestId s..<gl_nextRequestId s']"
    using IH tr upt_glue [of "gl_nextRequestId s" "gl_nextRequestId s1" "gl_nextRequestId s'"]
    by (simp add: tracks_def)
  moreover have "mset (called_ids (tr @ [ob])) + mset (map la_requestId (gl_pending s')) =
       mset (map la_requestId (gl_pending s)) + mset (accepted_ids (tr @ [ob]))"
    using IH tr unfolding tracks_def obs_append mset_append by (metis add.assoc add.commute)
  ultimately show ?case using inv IH tr by (simp add: tracks_def)
qed simp

section \<open>Properties of the runs\<close>

text \<open>A memory as the constructor leaves it, on a window inside the address space.\<close>

definition gl_started :: "'cb GmLocal \<Rightarrow> bool" where
  "gl_started s \<longleftrightarrow> (\<exists>base bytes bl bpc rp wp qd mb cluster factor.
     gl_construct base bytes bl bpc rp wp qd mb cluster factor = Some s \<and> 0 < factor \<and>
     unat base + unat bytes < 2 ^ 64)"

lemma gl_startedI:
  "gl_construct base bytes bl bpc rp wp qd mb cluster factor = Some s \<Longrightarrow> 0 < factor \<Longrightarrow>
     unat base + unat bytes < 2 ^ 64 \<Longrightarrow> gl_started s"
  unfolding gl_started_def by blast

lemma started_run:
  assumes "gl_started s0" "gl_run (0, s0) tr (now, s)"
  shows "gl_inv now s \<and> accepted_ids tr = [1..<gl_nextRequestId s] \<and>
     mset (called_ids tr) + mset (map la_requestId (gl_pending s)) = mset (accepted_ids tr) \<and>
     gs_storage s = replay (gs_baseAddr s0) tr (gs_storage s0) \<and> gs_baseAddr s = gs_baseAddr s0"
proof -
  from assms(1) obtain base bytes bl bpc rp wp qd mb cluster factor where
    c: "gl_construct base bytes bl bpc rp wp qd mb cluster factor = Some s0" "0 < factor"
      "unat base + unat bytes < 2 ^ 64" by (auto simp: gl_started_def)
  have "gl_inv 0 s0 \<and> gl_pending s0 = [] \<and> gl_nextRequestId s0 = 1"
    using gl_construct_ok [OF c] by simp
  with gl_run_tracks [OF assms(2) refl refl] show ?thesis by simp
qed

text \<open>A small memory, one read of it, and the event that ends the read.\<close>

definition gl_ex0 :: "unit GmLocal" where
  "gl_ex0 = the (gl_construct 4096 16 1 8 1 1 4 8 False 1)"

definition gl_ex1 :: "unit GmLocal" where
  "gl_ex1 = snd (the (localReadAsync 5 4100 4 LmControl 7 () gl_ex0))"

definition gl_ex2 :: "unit GmLocal" where
  "gl_ex2 = snd (the (handleLocalAccessEvent 7 1 (gl_take_event 7 1 gl_ex1)))"

definition gl_ex_request :: "unit PendingLocalAccess" where
  "gl_ex_request = hd (gl_pending gl_ex1)"

lemma gl_ex_construct: "gl_construct 4096 16 1 8 1 1 4 8 False 1 = Some gl_ex0"
  by (simp add: gl_ex0_def gl_construct_def)

lemma gl_ex_started: "gl_started gl_ex0"
  by (rule gl_startedI [OF gl_ex_construct]) simp_all

lemma gl_ex_read: "localReadAsync 5 4100 4 LmControl 7 () gl_ex0 = Some (True, gl_ex1)"
proof -
  have "map_option fst (localReadAsync 5 4100 4 LmControl 7 () gl_ex0) = Some True" by code_simp
  then show ?thesis by (auto simp: gl_ex1_def)
qed

lemma gl_ex_event:
  "gl_events gl_ex1 = [(7, 1)]" "gl_find 1 gl_ex1 = Some gl_ex_request" "la_kind gl_ex_request = LaRead"
  "handleLocalAccessEvent 7 1 (gl_take_event 7 1 gl_ex1) = Some (Some (LaCall () True 7 [0, 0, 0, 0]), gl_ex2)"
proof -
  show "gl_events gl_ex1 = [(7, 1)]" "la_kind gl_ex_request = LaRead" by code_simp+
  have "map la_requestId (gl_pending gl_ex1) = [1]" by code_simp
  then show "gl_find 1 gl_ex1 = Some gl_ex_request" by (auto simp: gl_find_def gl_ex_request_def)
  have "map_option fst (handleLocalAccessEvent 7 1 (gl_take_event 7 1 gl_ex1)) = Some (Some (LaCall () True 7 [0, 0, 0, 0]))"
    by code_simp
  then show "handleLocalAccessEvent 7 1 (gl_take_event 7 1 gl_ex1) = Some (Some (LaCall () True 7 [0, 0, 0, 0]), gl_ex2)"
    by (auto simp: gl_ex2_def)
qed

lemma gl_ex_run: "gl_run (0, gl_ex0) [Accepted (la_request LaRead 5 4100 4 [] LmControl 7 () gl_ex0)] (5, gl_ex1)"
proof -
  have "gl_events gl_ex0 = []" by (simp add: gl_ex0_def gl_construct_def)
  then have "gl_step (0, gl_ex0) (Accepted (la_request LaRead 5 4100 4 [] LmControl 7 () gl_ex0)) (5, gl_ex1)"
    using gl_read [OF _ _ gl_ex_read, of 0] by simp
  from run_snoc [OF run_nil this] show ?thesis by simp
qed

text \<open>(C9)
  In every run of the local-access ports the accesses in flight never exceed the configured
  ports, the pending requests never exceed the queue depth, a queued request waits only while
  every port of its kind is busy, and the queue of a kind is exactly the accepted requests of
  that kind not yet started.
\<close>

theorem local_ports_bounded:
  assumes "gl_started s0" "gl_run (0, s0) tr (now, s)"
  shows "length (gl_pending s) \<le> gl_queueDepth s \<and>
    lp_inFlight (gl_port k s) \<le> lp_ports (gl_port k s) \<and>
    (lp_queue (gl_port k s) \<noteq> [] \<longrightarrow> lp_inFlight (gl_port k s) = lp_ports (gl_port k s)) \<and>
    lp_queue (gl_port k s) = map la_requestId (filter (\<lambda>r. la_kind r = k \<and> \<not> la_issued r) (gl_pending s))"
proof -
  from started_run [OF assms] have inv: "gl_inv now s" by blast
  then have core: "gl_core now s" by (simp add: gl_inv_def)
  have "settled k s" using inv by (cases k) (simp_all add: gl_inv_def)
  moreover have "length (gl_pending s) \<le> gl_queueDepth s" using core by (simp add: gl_core_def)
  moreover have "lp_inFlight (gl_port k s) \<le> lp_ports (gl_port k s)"
    "lp_queue (gl_port k s) = ids_of (waiting k) (gl_pending s)"
    using gl_core_port [OF core, of k] by (simp_all add: port_ok_def)
  ultimately show ?thesis unfolding settled_def ids_of_def by blast
qed

theorem local_ports_bounded_witness:
  "gl_started gl_ex0 \<and> length (gl_pending gl_ex1) \<le> gl_queueDepth gl_ex1"
  using local_ports_bounded [OF gl_ex_started gl_ex_run] gl_ex_started by blast

text \<open>(C5)
  Every accepted access is called back exactly once: the requests are numbered in the order of
  acceptance, and at every moment the accepted requests are the disjoint union of those called
  back and those pending, each called back at most once.
\<close>

theorem local_access_exactly_once:
  assumes "gl_started s0" "gl_run (0, s0) tr (now, s)"
  shows "accepted_ids tr = [1..<gl_nextRequestId s] \<and> distinct (called_ids tr) \<and>
    set (called_ids tr) \<inter> la_requestId ` set (gl_pending s) = {} \<and>
    set (called_ids tr) \<union> la_requestId ` set (gl_pending s) = set (accepted_ids tr)"
proof -
  note run = started_run [OF assms]
  have "mset (called_ids tr @ map la_requestId (gl_pending s)) = mset [1..<gl_nextRequestId s]"
    using run by simp
  then have "distinct (called_ids tr @ map la_requestId (gl_pending s))"
    and "set (called_ids tr @ map la_requestId (gl_pending s)) = set [1..<gl_nextRequestId s]"
    by (metis distinct_upt mset_eq_imp_distinct_iff, metis mset_eq_setD)
  with run show ?thesis by auto
qed

theorem local_access_exactly_once_witness:
  "gl_started gl_ex0 \<and> la_requestId ` set (gl_pending gl_ex1) = {1}"
  using local_access_exactly_once [OF gl_ex_started gl_ex_run] gl_ex_started
  by (simp add: la_request_def gl_ex0_def gl_construct_def)

text \<open>(C10)
  A read returns memory as the completed writes left it: the bytes handed to the callback of a
  successful read are its range of the initial storage after all writes that were called back
  successfully before it, in that order.
\<close>

theorem local_read_returns_writes:
  assumes "gl_started s0" "gl_run (0, s0) tr (now, s)"
    and "gl_step (now, s) (Called r call) (t, s')" "la_kind r = LaRead" "lc_ok call"
  shows "lc_data call = get_range (unat (la_addr r - gs_baseAddr s0)) (la_length r)
     (replay (gs_baseAddr s0) tr (gs_storage s0))"
  using gl_step_tracks [OF assms(3)] started_run [OF assms(1,2)] assms(4,5) by auto

theorem local_read_returns_writes_witness:
  "\<exists>s r. gl_step (5, gl_ex1) (Called r (LaCall () True 7 [0, 0, 0, 0])) (7, s) \<and>
     [0, 0, 0, 0] = get_range (unat (la_addr r - gs_baseAddr gl_ex0)) (la_length r) (gs_storage gl_ex0)"
proof -
  have step: "gl_step (5, gl_ex1) (Called gl_ex_request (LaCall () True 7 [0, 0, 0, 0])) (7, gl_ex2)"
    using gl_event [OF _ _ gl_ex_event(2) gl_ex_event(4)] gl_ex_event(1) by simp
  from local_read_returns_writes [OF gl_ex_started gl_ex_run step gl_ex_event(3)] step show ?thesis by auto
qed

section \<open>The pending accesses drain\<close>

text \<open>Deliver the earliest scheduled event, \<open>n\<close> times.\<close>

fun gl_drain :: "nat \<Rightarrow> nat \<times> 'cb GmLocal \<Rightarrow> (nat list \<times> nat \<times> 'cb GmLocal) option" where
  "gl_drain 0 c = Some ([], c)"
| "gl_drain (Suc n) (now, s) =
     (if gl_events s = [] then Some ([], now, s)
      else (let (t, rid) = arg_min_list fst (gl_events s) in
        (case handleLocalAccessEvent t rid (gl_take_event t rid s) of
           None \<Rightarrow> None
         | Some (call, s') \<Rightarrow> map_option (apfst (Cons rid)) (gl_drain n (t, s')))))"

lemma arg_min_event:
  assumes "es \<noteq> []" "arg_min_list fst es = (t :: nat, rid :: nat)"
  shows "(t, rid) \<in> set es" "\<forall>(due, rid') \<in> set es. t \<le> due"
proof -
  from arg_min_list_in [OF assms(1), of fst] assms(2) show "(t, rid) \<in> set es" by simp
  have "t = Min (fst ` set es)" using f_arg_min_list_f [OF assms(1), of fst] assms(2) by simp
  then show "\<forall>(due, rid') \<in> set es. t \<le> due" by (force intro: Min_le)
qed

lemma pending_scheduled:
  assumes "gl_inv now s" "gl_events s = []"
  shows "gl_pending s = []"
proof -
  have core: "gl_core now s" using assms(1) by (simp add: gl_inv_def)
  have settled: "settled k s" for k using assms(1) by (cases k) (simp_all add: gl_inv_def)
  have "mset (ids_of la_issued (gl_pending s)) = {#}" using core assms(2) by (auto simp: gl_core_def)
  then have none: "\<not> la_issued r" if "r \<in> set (gl_pending s)" for r
    using that by (auto simp: ids_of_def filter_empty_conv)
  then have "ids_of (running k) (gl_pending s) = []" for k by (auto simp: ids_of_def filter_empty_conv)
  then have "ids_of (waiting k) (gl_pending s) = []" for k
    using gl_core_port [OF core, of k] settled [of k] by (auto simp: port_ok_def settled_def)
  then have "r \<notin> set (gl_pending s)" for r
    using none [of r] by (force simp: ids_of_def filter_empty_conv)
  then show ?thesis by (cases "gl_pending s") auto
qed

lemma drain_inv:
  "gl_inv now s \<Longrightarrow> n = length (gl_pending s) \<Longrightarrow>
     \<exists>called t s'. gl_drain n (now, s) = Some (called, t, s') \<and> gl_inv t s' \<and> gl_pending s' = [] \<and>
       mset called = mset (map la_requestId (gl_pending s))"
proof (induction n arbitrary: now s)
  case 0
  then show ?case by simp
next
  case (Suc n)
  have core: "gl_core now s" using Suc.prems(1) by (simp add: gl_inv_def)
  have "gl_events s \<noteq> []" using pending_scheduled [OF Suc.prems(1)] Suc.prems(2) by auto
  moreover obtain t rid where min: "arg_min_list fst (gl_events s) = (t, rid)" by fastforce
  ultimately have ev: "(t, rid) \<in> set (gl_events s)" "\<forall>(due, rid') \<in> set (gl_events s). t \<le> due"
    using arg_min_event by blast+
  have "now \<le> t" using core ev(1) by (auto simp: gl_core_def)
  then have inv: "gl_inv t s" using gl_inv_later [OF Suc.prems(1)] ev(2) by blast
  from handleLocalAccessEvent_ok [OF inv ev(1)] obtain r call t1 u where
    h: "handleLocalAccessEvent t rid (gl_take_event t rid s) = Some (Some call, u)" "gl_inv t u"
    and r: "r \<in> set (gl_pending s)" "la_requestId r = rid"
    and t1: "gl_frame t1 u" "gl_pending t1 = filter (\<lambda>x. la_requestId x \<noteq> rid) (gl_pending s)" .
  have dist: "distinct (map la_requestId (gl_pending s))" using core by (simp add: gl_core_def)
  have "map la_requestId (gl_pending u) = filter (\<lambda>i. i \<noteq> rid) (map la_requestId (gl_pending s))"
    using gl_frame_pending(2) [OF t1(1)] t1(2) by (simp add: filter_map comp_def)
  then have "mset (map la_requestId (gl_pending u)) = mset (map la_requestId (gl_pending s)) - {#rid#}"
    using mset_filter_neq [OF dist] by simp
  moreover have "rid \<in># mset (map la_requestId (gl_pending s))" using r by force
  ultimately have m: "add_mset rid (mset (map la_requestId (gl_pending u))) = mset (map la_requestId (gl_pending s))"
    by simp
  from arg_cong [OF m, of size] Suc.prems(2) have "n = length (gl_pending u)" by simp
  from Suc.IH [OF h(2) this] m obtain called t' s' where "gl_drain n (t, u) = Some (called, t', s')" "gl_inv t' s'"
    "gl_pending s' = []" "mset (rid # called) = mset (map la_requestId (gl_pending s))" by auto
  then show ?case using \<open>gl_events s \<noteq> []\<close> min h(1) by auto
qed

text \<open>(C8)
  The ports never get stuck: from every state a run can reach, delivering the scheduled events
  as many times as there are pending accesses ends with nothing pending, and the accesses
  ended on the way are exactly those that were pending.
\<close>

theorem local_accesses_drain:
  assumes "gl_started s0" "gl_run (0, s0) tr (now, s)"
  shows "\<exists>called t s'. gl_drain (length (gl_pending s)) (now, s) = Some (called, t, s') \<and>
     gl_pending s' = [] \<and> gl_events s' = [] \<and> mset called = mset (map la_requestId (gl_pending s))"
proof -
  from drain_inv [OF _ refl] started_run [OF assms] obtain called t s' where
    d: "gl_drain (length (gl_pending s)) (now, s) = Some (called, t, s')" "gl_inv t s'" "gl_pending s' = []"
      "mset called = mset (map la_requestId (gl_pending s))" by blast
  then have "gl_events s' = []" by (simp add: gl_inv_def gl_core_def ids_of_def)
  with d show ?thesis by blast
qed

theorem local_accesses_drain_witness:
  "gl_started gl_ex0 \<and> gl_events gl_ex1 \<noteq> [] \<and>
     (\<exists>called t s'. gl_drain (length (gl_pending gl_ex1)) (5, gl_ex1) = Some (called, t, s') \<and> gl_events s' = [])"
  using local_accesses_drain [OF gl_ex_started gl_ex_run] gl_ex_started gl_ex_event(1) by auto

end
