(* ===== verification/Gm_Requests.thy ===== *)
theory Gm_Requests
  imports Gm_Storage "HOL-Library.Monad_Syntax"
begin

text \<open>
  The requested reads of \<open>GlobalMemoryImplement\<close> (\<open>request_pending\<close>): a worker registers a read, the
  memory nodes answer in chunks, and the last chunk writes the completion flag, forgets the request
  and notifies the controller.
\<close>

section \<open>State and operations\<close>

record PendingReadRequest =
  pq_gm_dst_addr :: u64
  pq_completion_flag_addr :: u64
  pq_completion_value :: u64
  pq_total_len :: nat
  pq_received_len :: nat
  pq_submit_cycle :: nat

record GmReqs = GmStore +
  gr_pending :: "u64 \<rightharpoonup> PendingReadRequest"
  gr_readySamples :: nat
  gr_readyCyclesSum :: nat
  gr_readyCyclesMax :: nat
  gr_readCompletions :: nat
  gr_notified :: "u64 list"

definition ctrlRegisterPendingReadRequest :: "nat \<Rightarrow> u64 \<Rightarrow> u64 \<Rightarrow> u64 \<Rightarrow> u64 \<Rightarrow> nat \<Rightarrow> GmReqs \<Rightarrow> GmReqs" where
  "ctrlRegisterPendingReadRequest now rid dst flagAddr value totalLength g =
     (if rid = 0 then g
      else g\<lparr>gr_pending := (gr_pending g)(rid \<mapsto>
             \<lparr>pq_gm_dst_addr = dst, pq_completion_flag_addr = flagAddr, pq_completion_value = value,
              pq_total_len = totalLength, pq_received_len = 0, pq_submit_cycle = now\<rparr>)\<rparr>)"

definition ctrlIsReadRequestPending :: "u64 \<Rightarrow> GmReqs \<Rightarrow> bool" where
  "ctrlIsReadRequestPending rid g \<longleftrightarrow> gr_pending g rid \<noteq> None"

definition notifyCtrlReadComplete :: "u64 \<Rightarrow> GmReqs \<Rightarrow> GmReqs" where
  "notifyCtrlReadComplete rid g = g\<lparr>gr_notified := gr_notified g @ [rid]\<rparr>"

definition sampleReady :: "nat \<Rightarrow> PendingReadRequest \<Rightarrow> GmReqs \<Rightarrow> GmReqs" where
  "sampleReady now p g =
     (if pq_submit_cycle p \<le> now
      then g\<lparr>gr_readySamples := gr_readySamples g + 1, gr_readyCyclesSum := gr_readyCyclesSum g + (now - pq_submit_cycle p),
             gr_readyCyclesMax := max (gr_readyCyclesMax g) (now - pq_submit_cycle p)\<rparr>
      else g)"

text \<open>
  A chunk for a registered request \<open>p\<close>. The same code is in the branches for writes and for
  completed DMA reads; only the latter count the completion (\<open>counts\<close>).
\<close>

definition receiveRequested ::
    "bool \<Rightarrow> nat \<Rightarrow> u64 \<Rightarrow> PendingReadRequest \<Rightarrow> u64 \<Rightarrow> u8 list \<Rightarrow> GmReqs \<Rightarrow> GmReqs option" where
  "receiveRequested counts now rid p addr data g =
     do { let writeAddr = (if 0 < pq_total_len p then addr else pq_gm_dst_addr p);
          g1 \<leftarrow> wr_to_globalmem writeAddr (length data) data g;
          let p' = p\<lparr>pq_received_len := pq_received_len p + length data\<rparr>;
          let g2 = g1\<lparr>gr_pending := (gr_pending g1)(rid \<mapsto> p')\<rparr>;
          if pq_total_len p' = 0 \<or> pq_total_len p' \<le> pq_received_len p'
          then do { g3 \<leftarrow> write_u64_to_storage (pq_completion_flag_addr p) (pq_completion_value p) (sampleReady now p' g2);
                    let g4 = (if counts then g3\<lparr>gr_readCompletions := gr_readCompletions g3 + 1\<rparr> else g3);
                    Some (notifyCtrlReadComplete rid (g4\<lparr>gr_pending := (gr_pending g4)(rid := None)\<rparr>)) }
          else Some g2 }"

text \<open>The chunks of one request as they arrive.\<close>

fun receiveChunks :: "nat \<Rightarrow> u64 \<Rightarrow> (u64 \<times> u8 list) list \<Rightarrow> GmReqs \<Rightarrow> GmReqs option" where
  "receiveChunks now rid [] g = Some g"
| "receiveChunks now rid ((addr, data) # xs) g =
     do { p \<leftarrow> gr_pending g rid;
          g' \<leftarrow> receiveRequested True now rid p addr data g;
          receiveChunks (now + 1) rid xs g' }"

section \<open>A request completes with its last byte\<close>

definition chunk_inside :: "GmReqs \<Rightarrow> u64 \<times> u8 list \<Rightarrow> bool" where
  "chunk_inside g x \<longleftrightarrow> unat (gs_baseAddr g) \<le> unat (fst x) \<and>
     unat (fst x) + length (snd x) \<le> unat (gs_baseAddr g) + unat (gs_size g)"

lemma inside_offset:
  assumes "gs_wf g" "chunk_inside g (addr, data)"
  shows "gs_offset addr g + length data \<le> length (gs_storage g)"
proof -
  have "gs_baseAddr g \<le> addr" using assms(2) by (simp add: chunk_inside_def word_le_nat_alt)
  then show ?thesis using assms gs_offset_eq [of g addr] by (auto simp: gs_wf_def chunk_inside_def)
qed

lemma wr_inside:
  assumes "gs_wf g" "chunk_inside g (addr, data)"
  shows "wr_to_globalmem addr (length data) data g = Some (g\<lparr>gs_storage := copy_range (gs_offset addr g) data (gs_storage g)\<rparr>)"
proof -
  have b: "unat (gs_baseAddr g + gs_size g) = unat (gs_baseAddr g) + unat (gs_size g)"
    using assms(1) by (intro unat_add_small) (simp add: gs_wf_def)
  have le: "gs_baseAddr g \<le> addr" using assms(2) by (simp add: chunk_inside_def word_le_nat_alt)
  have s: "unat addr + length data < 2 ^ 64" using assms by (simp add: gs_wf_def chunk_inside_def)
  then have "unat (of_nat (length data) :: u64) = length data" by (simp add: unat_of_nat)
  then have "unat (addr + of_nat (length data)) = unat addr + length data" using s by (simp add: unat_add_small)
  then have "\<not> gs_baseAddr g + gs_size g < addr + of_nat (length data)"
    using assms(2) b by (simp add: word_less_nat_alt chunk_inside_def)
  then show ?thesis using le inside_offset [OF assms] by (simp add: wr_to_globalmem_def not_less)
qed

text \<open>What chunks leave alone.\<close>

definition same_window :: "GmReqs \<Rightarrow> GmReqs \<Rightarrow> bool" where
  "same_window g g' \<longleftrightarrow> gs_baseAddr g' = gs_baseAddr g \<and> gs_size g' = gs_size g \<and> length (gs_storage g') = length (gs_storage g)"

lemma same_window_rules:
  assumes "same_window g g'"
  shows "gs_wf g' = gs_wf g" "chunk_inside g' = chunk_inside g" "u64_ok a g' = u64_ok a g"
  using assms by (auto simp: same_window_def gs_wf_def chunk_inside_def u64_ok_def u64_in_range_def gs_offset_def fun_eq_iff)

lemma chunk_more:
  assumes "gs_wf g" "chunk_inside g (addr, data)" "pq_received_len p + length data < pq_total_len p"
  shows "\<exists>g'. receiveRequested counts now rid p addr data g = Some g' \<and> same_window g g' \<and> gr_notified g' = gr_notified g \<and>
    gr_pending g' = (gr_pending g)(rid \<mapsto> p\<lparr>pq_received_len := pq_received_len p + length data\<rparr>)"
  using assms(3) wr_inside [OF assms(1,2)] inside_offset [OF assms(1,2)]
  by (auto simp: receiveRequested_def Let_def same_window_def)

lemma read_same:
  "gs_baseAddr g' = gs_baseAddr g \<Longrightarrow> gs_size g' = gs_size g \<Longrightarrow> gs_storage g' = gs_storage g \<Longrightarrow>
   ctrlReadLocalU64 a g' = ctrlReadLocalU64 a (g :: GmReqs)" for g' :: GmReqs
  by (simp add: ctrlReadLocalU64_def read_u64_from_storage_def u64_in_range_def gs_offset_def)

lemma chunk_last:
  assumes "gs_wf g" "chunk_inside g (addr, data)" "0 < pq_total_len p" "pq_total_len p \<le> pq_received_len p + length data"
    "u64_ok (pq_completion_flag_addr p) g"
  shows "\<exists>g'. receiveRequested counts now rid p addr data g = Some g' \<and> gr_notified g' = gr_notified g @ [rid] \<and>
    gr_pending g' rid = None \<and> ctrlReadLocalU64 (pq_completion_flag_addr p) g' = Some (pq_completion_value p)"
proof -
  let ?a = "pq_completion_flag_addr p" and ?v = "pq_completion_value p"
  let ?p = "p\<lparr>pq_received_len := pq_received_len p + length data\<rparr>"
  define g2 where "g2 = sampleReady now ?p ((g\<lparr>gs_storage := copy_range (gs_offset addr g) data (gs_storage g)\<rparr>)
    \<lparr>gr_pending := (gr_pending g)(rid \<mapsto> ?p)\<rparr>)"
  have w: "same_window g g2" using inside_offset [OF assms(1,2)] by (simp add: g2_def same_window_def sampleReady_def)
  have k: "gr_pending g2 = (gr_pending g)(rid \<mapsto> ?p)" "gr_notified g2 = gr_notified g" by (simp_all add: g2_def sampleReady_def)
  have "u64_ok ?a g2" using assms(5) same_window_rules(3) [OF w] by simp
  then obtain g3 where g3: "write_u64_to_storage ?a ?v g2 = Some g3" using gm_cells.wr_ok by blast
  have rd: "read_u64_from_storage ?a g3 = Some ?v" by (rule gm_cells.rd_wr_same [OF g3])
  have k3: "gr_pending g3 = gr_pending g2" "gr_notified g3 = gr_notified g2" using g3 by (auto simp: write_u64_Some)
  define g' where "g' = notifyCtrlReadComplete rid ((if counts then g3\<lparr>gr_readCompletions := gr_readCompletions g3 + 1\<rparr> else g3)
      \<lparr>gr_pending := (gr_pending g)(rid := None)\<rparr>)"
  have "receiveRequested counts now rid p addr data g = Some g'"
    using assms(3,4) wr_inside [OF assms(1,2)] g3 k k3 by (simp add: receiveRequested_def Let_def g2_def g'_def)
  moreover have "ctrlReadLocalU64 ?a g' = ctrlReadLocalU64 ?a g3" by (rule read_same) (simp_all add: g'_def notifyCtrlReadComplete_def)
  moreover have "gr_notified g' = gr_notified g @ [rid]" "gr_pending g' rid = None"
    using k k3 by (simp_all add: g'_def notifyCtrlReadComplete_def)
  ultimately show ?thesis using rd by (simp add: ctrlReadLocalU64_def)
qed

lemma receive_chunks:
  assumes "gs_wf g" "gr_pending g rid = Some p" "0 < pq_total_len p" "\<forall>x \<in> set xs. chunk_inside g x \<and> snd x \<noteq> []" "xs \<noteq> []"
    "pq_received_len p + sum_list (map (\<lambda>x. length (snd x)) xs) = pq_total_len p" "u64_ok (pq_completion_flag_addr p) g"
  shows "\<exists>g'. receiveChunks now rid xs g = Some g' \<and> gr_notified g' = gr_notified g @ [rid] \<and> gr_pending g' rid = None \<and>
    ctrlReadLocalU64 (pq_completion_flag_addr p) g' = Some (pq_completion_value p)"
  using assms
proof (induction xs arbitrary: g p now)
  case (Cons x xs)
  obtain addr data where x: "x = (addr, data)" by (cases x)
  have inside: "chunk_inside g (addr, data)" using Cons.prems(4) x by simp
  show ?case
  proof (cases "xs = []")
    case True
    then have "\<exists>g'. receiveRequested True now rid p addr data g = Some g' \<and> gr_notified g' = gr_notified g @ [rid] \<and>
      gr_pending g' rid = None \<and> ctrlReadLocalU64 (pq_completion_flag_addr p) g' = Some (pq_completion_value p)"
      using Cons.prems x by (intro chunk_last [OF Cons.prems(1) inside]) simp_all
    then show ?thesis using Cons.prems(2) True x by auto
  next
    case False
    then obtain y ys where "xs = y # ys" by (cases xs) auto
    then have "0 < sum_list (map (\<lambda>x. length (snd x)) xs)" using Cons.prems(4) by auto
    then have lt: "pq_received_len p + length data < pq_total_len p" using Cons.prems(6) x by simp
    from chunk_more [OF Cons.prems(1) inside lt, of True now rid] obtain g1 where
      g1: "receiveRequested True now rid p addr data g = Some g1" "same_window g g1" "gr_notified g1 = gr_notified g"
        "gr_pending g1 = (gr_pending g)(rid \<mapsto> p\<lparr>pq_received_len := pq_received_len p + length data\<rparr>)" by blast
    note sw = same_window_rules [OF g1(2)]
    have "\<exists>g'. receiveChunks (now + 1) rid xs g1 = Some g' \<and> gr_notified g' = gr_notified g1 @ [rid] \<and>
      gr_pending g' rid = None \<and> ctrlReadLocalU64 (pq_completion_flag_addr p) g' = Some (pq_completion_value p)"
      using Cons.IH [of g1 "p\<lparr>pq_received_len := pq_received_len p + length data\<rparr>" "now + 1"] Cons.prems False g1 sw x by simp
    then show ?thesis using Cons.prems(2) x g1 by auto
  qed
qed simp

text \<open>(C13)
  A requested read completes exactly with its last byte: once a read of some bytes is registered, chunks
  of it may arrive in any order and split in any way; all of them are accepted, the request
  stays pending until the lengths add up to the requested one, and then the completion flag
  holds the completion value, the request is forgotten and the controller is notified once.
\<close>

theorem request_read_completes:
  assumes "gs_wf g" "rid \<noteq> 0" "u64_ok flagAddr g" "\<forall>x \<in> set xs. chunk_inside g x \<and> snd x \<noteq> []" "xs \<noteq> []"
    and "g0 = ctrlRegisterPendingReadRequest now rid dst flagAddr value (sum_list (map (\<lambda>x. length (snd x)) xs)) g"
  shows "ctrlIsReadRequestPending rid g0 \<and>
    (\<exists>g'. receiveChunks now' rid xs g0 = Some g' \<and> \<not> ctrlIsReadRequestPending rid g' \<and>
       gr_notified g' = gr_notified g @ [rid] \<and> ctrlReadLocalU64 flagAddr g' = Some value)"
proof -
  let ?p = "\<lparr>pq_gm_dst_addr = dst, pq_completion_flag_addr = flagAddr, pq_completion_value = value,
    pq_total_len = sum_list (map (\<lambda>x. length (snd x)) xs), pq_received_len = 0, pq_submit_cycle = now\<rparr>"
  have p: "gr_pending g0 = (gr_pending g)(rid \<mapsto> ?p)" "gr_notified g0 = gr_notified g" "same_window g g0"
    using assms(2,6) by (simp_all add: ctrlRegisterPendingReadRequest_def same_window_def)
  note sw = same_window_rules [OF p(3)]
  obtain y ys where "xs = y # ys" using assms(5) by (cases xs) auto
  then have pos: "0 < sum_list (map (\<lambda>x. length (snd x)) xs)" using assms(4) by auto
  have "\<exists>g'. receiveChunks now' rid xs g0 = Some g' \<and> gr_notified g' = gr_notified g0 @ [rid] \<and>
    gr_pending g' rid = None \<and> ctrlReadLocalU64 (pq_completion_flag_addr ?p) g' = Some (pq_completion_value ?p)"
    by (rule receive_chunks) (use assms p sw pos in simp_all)
  then show ?thesis using p by (auto simp: ctrlIsReadRequestPending_def)
qed

definition gr_example :: GmReqs where
  "gr_example = \<lparr>gs_baseAddr = 4096, gs_size = 128, gs_storage = replicate 128 0, gr_pending = Map.empty,
     gr_readySamples = 0, gr_readyCyclesSum = 0, gr_readyCyclesMax = 0, gr_readCompletions = 0, gr_notified = []\<rparr>"

theorem request_read_completes_witness:
  "\<exists>g'. receiveChunks 9 5 [(4098, [3]), (4096, [1, 2])] (ctrlRegisterPendingReadRequest 3 5 4096 4168 7 3 gr_example) = Some g' \<and>
     gr_notified g' = [5] \<and> ctrlReadLocalU64 4168 g' = Some 7"
proof -
  let ?xs = "[(4098, [3]), (4096, [1, 2])] :: (u64 \<times> u8 list) list"
  have "gs_wf gr_example" "u64_ok 4168 gr_example" "\<forall>x \<in> set ?xs. chunk_inside gr_example x \<and> snd x \<noteq> []"
    by (simp_all add: gr_example_def gs_wf_def u64_ok_def u64_in_range_def gs_offset_def chunk_inside_def)
  moreover have len: "sum_list (map (\<lambda>x. length (snd x)) ?xs) = 3" and n: "gr_notified gr_example = []"
    by (simp_all add: gr_example_def)
  moreover have "(5 :: u64) \<noteq> 0" "?xs \<noteq> []" by simp_all
  ultimately have "\<exists>g'. receiveChunks 9 5 ?xs (ctrlRegisterPendingReadRequest 3 5 4096 4168 7 3 gr_example) = Some g' \<and>
     \<not> ctrlIsReadRequestPending 5 g' \<and> gr_notified g' = [] @ [5] \<and> ctrlReadLocalU64 4168 g' = Some 7"
    using request_read_completes [of gr_example 5 4168 ?xs _ 3 4096 7 9] by metis
  then show ?thesis by auto
qed

end
