(* ===== verification/Group_Ctrl_Msg.thy ===== *)
theory Group_Ctrl_Msg
  imports Golem_Prelude "HOL-Library.Monad_Syntax"
begin

text \<open>
  Messages, configuration and constants of the group controller, \<open>groupctrl/groupctrl.h\<close> and
  the first part of \<open>groupctrl/groupctrl.cc\<close>: the message record with its default values, the
  conversions between a message and an attention K/V request, and the checks of the
  constructor and of \<open>setup\<close>.
\<close>

section \<open>Messages\<close>

datatype GroupCtrlMsgType =
    REQUEST | GRANT | DONE | FINISHED | GROUP_DONE
  | ATTENTION_KV_REQUEST | ATTENTION_KV_DELIVERY | ATTENTION_KV_ACK | ATTENTION_KV_CANCEL

datatype GroupCtrlRole = WORKER | MANAGER

record GroupCtrlMsg =
  msg_type :: GroupCtrlMsgType
  msg_groupId :: u8
  msg_workerSlot :: u8
  msg_window :: u8
  msg_status :: u8
  msg_reqSeq :: u64
  msg_srcAddr :: u64
  msg_dstAddr :: u64
  msg_bytes :: u32
  msg_targetNode :: u16
  msg_generation :: u64
  msg_jobTag :: u64
  msg_queryGroup :: u32
  msg_kvTileIndex :: u32
  msg_physicalKvTileIndex :: u32
  msg_numKvTiles :: u32
  msg_kvLength :: u32
  msg_kvTileRows :: u32
  msg_tileRows :: u32
  msg_rowsPerBand :: u32
  msg_headDim :: u32
  msg_nodeStrideBytes :: u64
  msg_kAddr :: u64
  msg_vAddr :: u64
  msg_kDstAddr :: u64
  msg_vDstAddr :: u64
  msg_kData :: "u8 list"
  msg_vData :: "u8 list"

definition GroupCtrlMsg_of :: "GroupCtrlMsgType \<Rightarrow> GroupCtrlMsg" where
  "GroupCtrlMsg_of t = \<lparr>msg_type = t, msg_groupId = 0, msg_workerSlot = 0, msg_window = 0, msg_status = 0,
     msg_reqSeq = 0, msg_srcAddr = 0, msg_dstAddr = 0, msg_bytes = 0, msg_targetNode = 0, msg_generation = 0,
     msg_jobTag = 0, msg_queryGroup = 0, msg_kvTileIndex = 0, msg_physicalKvTileIndex = 0, msg_numKvTiles = 0,
     msg_kvLength = 0, msg_kvTileRows = 0, msg_tileRows = 0, msg_rowsPerBand = 0, msg_headDim = 0,
     msg_nodeStrideBytes = 0, msg_kAddr = 0, msg_vAddr = 0, msg_kDstAddr = 0, msg_vDstAddr = 0,
     msg_kData = [], msg_vData = []\<rparr>"

record AttentionKvRequest =
  kvr_generation :: u64
  kvr_jobTag :: u64
  kvr_queryGroup :: u32
  kvr_kvTileIndex :: u32
  kvr_physicalKvTileIndex :: u32
  kvr_numKvTiles :: u32
  kvr_kvLength :: u32
  kvr_kvTileRows :: u32
  kvr_tileRows :: u32
  kvr_rowsPerBand :: u32
  kvr_headDim :: u32
  kvr_nodeStrideBytes :: u64
  kvr_kAddr :: u64
  kvr_vAddr :: u64
  kvr_kDstAddr :: u64
  kvr_vDstAddr :: u64

definition attentionKvRequestFromMessage :: "GroupCtrlMsg \<Rightarrow> AttentionKvRequest" where
  "attentionKvRequestFromMessage m = \<lparr>kvr_generation = msg_generation m, kvr_jobTag = msg_jobTag m,
     kvr_queryGroup = msg_queryGroup m, kvr_kvTileIndex = msg_kvTileIndex m,
     kvr_physicalKvTileIndex = msg_physicalKvTileIndex m, kvr_numKvTiles = msg_numKvTiles m,
     kvr_kvLength = msg_kvLength m, kvr_kvTileRows = msg_kvTileRows m, kvr_tileRows = msg_tileRows m,
     kvr_rowsPerBand = msg_rowsPerBand m, kvr_headDim = msg_headDim m,
     kvr_nodeStrideBytes = msg_nodeStrideBytes m, kvr_kAddr = msg_kAddr m, kvr_vAddr = msg_vAddr m,
     kvr_kDstAddr = msg_kDstAddr m, kvr_vDstAddr = msg_vDstAddr m\<rparr>"

definition fillAttentionKvMessage :: "AttentionKvRequest \<Rightarrow> GroupCtrlMsg \<Rightarrow> GroupCtrlMsg" where
  "fillAttentionKvMessage r m = m\<lparr>msg_generation := kvr_generation r, msg_jobTag := kvr_jobTag r,
     msg_queryGroup := kvr_queryGroup r, msg_kvTileIndex := kvr_kvTileIndex r,
     msg_physicalKvTileIndex := kvr_physicalKvTileIndex r, msg_numKvTiles := kvr_numKvTiles r,
     msg_kvLength := kvr_kvLength r, msg_kvTileRows := kvr_kvTileRows r, msg_tileRows := kvr_tileRows r,
     msg_rowsPerBand := kvr_rowsPerBand r, msg_headDim := kvr_headDim r,
     msg_nodeStrideBytes := kvr_nodeStrideBytes r, msg_kAddr := kvr_kAddr r, msg_vAddr := kvr_vAddr r,
     msg_kDstAddr := kvr_kDstAddr r, msg_vDstAddr := kvr_vDstAddr r\<rparr>"

lemma request_message_roundtrip [simp]: "attentionKvRequestFromMessage (fillAttentionKvMessage r m) = r"
  by (simp add: attentionKvRequestFromMessage_def fillAttentionKvMessage_def)

lemma message_request_roundtrip [simp]: "fillAttentionKvMessage (attentionKvRequestFromMessage m) m = m"
  by (simp add: attentionKvRequestFromMessage_def fillAttentionKvMessage_def)

section \<open>Configuration\<close>

record GcConfig =
  cf_role :: GroupCtrlRole
  cf_coreId :: u32
  cf_groupId :: u32
  cf_workerSlot :: int
  cf_queueDepth :: nat
  cf_maxInflightPerNode :: nat
  cf_maxGrantsPerSchedule :: nat
  cf_numMemoryNodes :: nat
  cf_gmBaseAddr :: u64
  cf_gmSize :: u64
  cf_kvEnable :: bool
  cf_kvLookahead :: bool
  cf_kvSlots :: nat
  cf_kvTileBytes :: u32
  cf_kvScratchOffset :: u64
  cf_kvExpectedWorkers :: nat
  cf_reqOut :: bool
  cf_rspOut :: "bool list"

definition parseRole :: "string \<Rightarrow> GroupCtrlRole" where
  "parseRole role = (if role = ''manager'' then MANAGER else WORKER)"

text \<open>
  \<open>std::stoull\<close> and \<open>std::stoll\<close> with base 0: white space, an optional sign, a prefix that selects
  the base (\<open>0x\<close> hexadecimal, \<open>0\<close> octal, otherwise decimal), and the longest run of digits of
  that base; what follows is ignored.  No digits is \<open>invalid_argument\<close> and a value outside
  the type is \<open>out_of_range\<close>, both \<open>None\<close>.
\<close>

definition digit_value :: "char \<Rightarrow> nat" where
  "digit_value c = (let n = of_char c in
     if 48 \<le> n \<and> n \<le> 57 then n - 48 else if 97 \<le> n \<and> n \<le> 122 then n - 87
     else if 65 \<le> n \<and> n \<le> 90 then n - 55 else 36)"

definition is_space :: "char \<Rightarrow> bool" where
  "is_space c = (let n = of_char c :: nat in n = 32 \<or> 9 \<le> n \<and> n \<le> 13)"

definition digits_of :: "nat \<Rightarrow> string \<Rightarrow> nat list" where
  "digits_of base s = takeWhile (\<lambda>d. d < base) (map digit_value s)"

definition number_of :: "nat \<Rightarrow> nat list \<Rightarrow> nat option" where
  "number_of base ds = (if ds = [] then None else Some (foldl (\<lambda>acc d. acc * base + d) 0 ds))"

fun magnitude :: "string \<Rightarrow> nat option" where
  "magnitude (a # x # s) =
     (if digit_value a = 0 \<and> digit_value x = 33 \<and> digits_of 16 s \<noteq> [] then number_of 16 (digits_of 16 s)
      else if digit_value a = 0 then number_of 8 (digits_of 8 (a # x # s))
      else number_of 10 (digits_of 10 (a # x # s)))"
| "magnitude s = number_of 10 (digits_of 10 s)"

fun sign_split :: "string \<Rightarrow> bool \<times> string" where
  "sign_split [] = (False, [])"
| "sign_split (c # s) =
     (if c = CHR ''-'' then (True, s) else if c = CHR ''+'' then (False, s) else (False, c # s))"

definition stoull :: "string \<Rightarrow> nat option" where
  "stoull v = (case sign_split (dropWhile is_space v) of (neg, s) \<Rightarrow>
     (case magnitude s of None \<Rightarrow> None
      | Some n \<Rightarrow> if 2 ^ 64 \<le> n then None else Some (if neg then (2 ^ 64 - n) mod 2 ^ 64 else n)))"

definition stoll :: "string \<Rightarrow> int option" where
  "stoll v = (case sign_split (dropWhile is_space v) of (neg, s) \<Rightarrow>
     (case magnitude s of None \<Rightarrow> None
      | Some n \<Rightarrow> if neg then (if 2 ^ 63 < n then None else Some (- int n))
                  else if 2 ^ 63 \<le> n then None else Some (int n)))"

text \<open>
  The parameter parsers: an absent or empty parameter gives the default, and a parse error is
  the \<open>runtime_error\<close> of the source.
\<close>

definition parseU32Param :: "string option \<Rightarrow> u32 \<Rightarrow> u32 option" where
  "parseU32Param value dflt =
     (case value of None \<Rightarrow> Some dflt
      | Some v \<Rightarrow> if v = [] then Some dflt else map_option of_nat (stoull v))"

definition parseI32Param :: "string option \<Rightarrow> int \<Rightarrow> int option" where
  "parseI32Param value dflt =
     (case value of None \<Rightarrow> Some dflt
      | Some v \<Rightarrow> if v = [] then Some dflt else map_option (\<lambda>i. sint (of_int i :: u32)) (stoll v))"

definition parseU64Param :: "string option \<Rightarrow> u64 \<Rightarrow> u64 option" where
  "parseU64Param value dflt =
     (case value of None \<Rightarrow> Some dflt
      | Some v \<Rightarrow> if v = [] then Some dflt else map_option of_nat (stoull v))"

lemma stoull_examples:
  "stoull ''0x40000'' = Some 0x40000" "stoull ''16384'' = Some 16384" "stoull ''nodes'' = None"
  "stoull '' 017'' = Some 15" "stoull ''-1'' = Some (2 ^ 64 - 1)"
  by (simp_all add: stoull_def is_space_def digits_of_def number_of_def digit_value_def Let_def)

text \<open>The clamps and the dimension check of the constructor; \<open>None\<close> is the \<open>runtime_error\<close>.\<close>

definition gc_configure :: "GcConfig \<Rightarrow> GcConfig option" where
  "gc_configure c =
     (let c1 = (if cf_maxInflightPerNode c = 0 then c\<lparr>cf_maxInflightPerNode := 1\<rparr> else c);
          c2 = (if cf_maxGrantsPerSchedule c1 = 0 then c1\<lparr>cf_maxGrantsPerSchedule := 1\<rparr> else c1)
      in if cf_kvSlots c2 = 0 \<or> cf_kvTileBytes c2 = 0 \<or> cf_kvExpectedWorkers c2 = 0 \<or> 4 < cf_kvExpectedWorkers c2
         then None else Some c2)"

text \<open>
  The constructor: every parameter with its default, then the checks.  \<open>params\<close> is the lookup of a
  string parameter and \<open>findBool\<close> the boolean one; both belong to the simulator core.  The links
  are those \<open>configureLinks\<close> finds connected for the role.
\<close>

definition gc_construct ::
    "(string \<Rightarrow> string option) \<Rightarrow> (string \<Rightarrow> bool \<Rightarrow> bool) \<Rightarrow> bool \<Rightarrow> bool list \<Rightarrow> GcConfig option" where
  "gc_construct params findBool reqOut rspOut =
     do { let role = parseRole (case params ''role'' of Some v \<Rightarrow> v | None \<Rightarrow> ''worker'');
          coreId \<leftarrow> parseU32Param (params ''core_id'') 0;
          groupId \<leftarrow> parseU32Param (params ''group_id'') 0;
          workerSlot \<leftarrow> parseI32Param (params ''worker_slot'') (-1);
          queueDepth \<leftarrow> parseU32Param (params ''queue_depth'') 32;
          maxInflight \<leftarrow> parseU32Param (params ''max_inflight_per_node'') 2;
          maxGrants \<leftarrow> parseU32Param (params ''max_grants_per_schedule'') 1;
          memNodes \<leftarrow> parseU32Param (params ''num_memory_nodes'') 5;
          gmBase \<leftarrow> parseU64Param (params ''gm_base_addr'') 0;
          gmBytes \<leftarrow> parseU64Param (params ''gm_size'') 0;
          slots \<leftarrow> parseU32Param (params ''attention_kv_distribution_slots'') 2;
          tileBytes \<leftarrow> parseU32Param (params ''attention_kv_distribution_tile_bytes'') 16384;
          scratch \<leftarrow> parseU64Param (params ''attention_kv_distribution_scratch_offset'') 0x40000;
          expected \<leftarrow> parseU32Param (params ''attention_kv_distribution_expected_workers'') 4;
          verbosity \<leftarrow> parseI32Param (params ''verbose'') 0;
          gc_configure \<lparr>cf_role = role, cf_coreId = coreId, cf_groupId = groupId, cf_workerSlot = workerSlot,
            cf_queueDepth = unat queueDepth, cf_maxInflightPerNode = unat maxInflight,
            cf_maxGrantsPerSchedule = unat maxGrants, cf_numMemoryNodes = unat memNodes, cf_gmBaseAddr = gmBase,
            cf_gmSize = gmBytes, cf_kvEnable = findBool ''attention_kv_distribution_enable'' False,
            cf_kvLookahead = findBool ''attention_kv_manager_lookahead'' False, cf_kvSlots = unat slots,
            cf_kvTileBytes = tileBytes, cf_kvScratchOffset = scratch, cf_kvExpectedWorkers = unat expected,
            cf_reqOut = (role = WORKER \<and> reqOut),
            cf_rspOut = (if role = WORKER then replicate 4 False else rspOut)\<rparr> }"

text \<open>
  \<open>setup\<close>: the link checks of both roles, the memory requirement and the placement of the
  manager's scratch tiles, in 64-bit arithmetic; \<open>False\<close> is a \<open>fatal\<close> stop.
\<close>

definition gc_scratchBytes :: "GcConfig \<Rightarrow> u64" where
  "gc_scratchBytes c = of_nat (cf_kvSlots c) * 2 * ucast (cf_kvTileBytes c)"

definition gc_setup_ok :: "GcConfig \<Rightarrow> bool \<Rightarrow> bool list \<Rightarrow> bool \<Rightarrow> bool" where
  "gc_setup_ok c rspIn reqIn gm \<longleftrightarrow>
     (if cf_role c = WORKER then cf_reqOut c \<and> rspIn
      else list_all (\<lambda>b. b) reqIn \<and> list_all (\<lambda>b. b) (cf_rspOut c)) \<and>
     \<not> (cf_kvEnable c \<and> \<not> gm) \<and>
     \<not> (cf_kvEnable c \<and> cf_role c = MANAGER \<and>
        (cf_kvScratchOffset c < 0x2000 \<or> cf_gmSize c < cf_kvScratchOffset c \<or>
         cf_gmSize c - cf_kvScratchOffset c < gc_scratchBytes c \<or>
         cf_gmSize c - 64 < cf_kvScratchOffset c + gc_scratchBytes c))"

section \<open>Mailbox layout\<close>

definition CTRL_LOCAL_MAILBOX_BASE :: u64 where "CTRL_LOCAL_MAILBOX_BASE = 0x1900"
definition CTRL_LOCAL_REQ_SEQ_OFF :: u64 where "CTRL_LOCAL_REQ_SEQ_OFF = 0x00"
definition CTRL_LOCAL_REQ_VALID_OFF :: u64 where "CTRL_LOCAL_REQ_VALID_OFF = 0x08"
definition CTRL_LOCAL_GRANT_SEQ_OFF :: u64 where "CTRL_LOCAL_GRANT_SEQ_OFF = 0x10"
definition CTRL_LOCAL_GRANT_WINDOW_OFF :: u64 where "CTRL_LOCAL_GRANT_WINDOW_OFF = 0x18"
definition CTRL_LOCAL_DONE_SEQ_OFF :: u64 where "CTRL_LOCAL_DONE_SEQ_OFF = 0x20"
definition CTRL_LOCAL_DONE_VALID_OFF :: u64 where "CTRL_LOCAL_DONE_VALID_OFF = 0x28"
definition CTRL_LOCAL_FINISHED_OFF :: u64 where "CTRL_LOCAL_FINISHED_OFF = 0x30"
definition CTRL_LOCAL_GROUP_DONE_OFF :: u64 where "CTRL_LOCAL_GROUP_DONE_OFF = 0x38"
definition CTRL_LOCAL_REQ_SRC_OFF :: u64 where "CTRL_LOCAL_REQ_SRC_OFF = 0x40"
definition CTRL_LOCAL_REQ_DST_OFF :: u64 where "CTRL_LOCAL_REQ_DST_OFF = 0x48"
definition CTRL_LOCAL_REQ_BYTES_OFF :: u64 where "CTRL_LOCAL_REQ_BYTES_OFF = 0x50"
definition CTRL_LOCAL_REQ_NODE_OFF :: u64 where "CTRL_LOCAL_REQ_NODE_OFF = 0x58"
definition CTRL_LOCAL_REQ_WINDOW_OFF :: u64 where "CTRL_LOCAL_REQ_WINDOW_OFF = 0x60"

lemmas mailbox_offsets = CTRL_LOCAL_MAILBOX_BASE_def CTRL_LOCAL_REQ_SEQ_OFF_def CTRL_LOCAL_REQ_VALID_OFF_def
  CTRL_LOCAL_GRANT_SEQ_OFF_def CTRL_LOCAL_GRANT_WINDOW_OFF_def CTRL_LOCAL_DONE_SEQ_OFF_def
  CTRL_LOCAL_DONE_VALID_OFF_def CTRL_LOCAL_FINISHED_OFF_def CTRL_LOCAL_GROUP_DONE_OFF_def
  CTRL_LOCAL_REQ_SRC_OFF_def CTRL_LOCAL_REQ_DST_OFF_def CTRL_LOCAL_REQ_BYTES_OFF_def
  CTRL_LOCAL_REQ_NODE_OFF_def CTRL_LOCAL_REQ_WINDOW_OFF_def

definition GOLEM_WCP_COARSE_FINISHED_FLAG :: u64 where
  "GOLEM_WCP_COARSE_FINISHED_FLAG = 0x8000000000000000"

section \<open>Sending to a worker\<close>

text \<open>
  \<open>sendRsp\<close>: a message for a slot without a link is dropped; the result is what leaves on the
  response links.
\<close>

definition sendRsp :: "GcConfig \<Rightarrow> nat \<Rightarrow> GroupCtrlMsg \<Rightarrow> (nat \<times> GroupCtrlMsg) list" where
  "sendRsp c slot m =
     (if length (cf_rspOut c) \<le> slot \<or> \<not> cf_rspOut c ! slot then []
      else [(slot, if msg_type m = GRANT \<and> msg_reqSeq m = 0 then m\<lparr>msg_window := 0\<rparr> else m)])"

section \<open>Accepted configurations\<close>

definition gc_wf :: "GcConfig \<Rightarrow> bool" where
  "gc_wf c \<longleftrightarrow> 0 < cf_maxInflightPerNode c \<and> 0 < cf_maxGrantsPerSchedule c \<and> 0 < cf_kvSlots c \<and> cf_kvSlots c < 2 ^ 32 \<and>
     cf_kvTileBytes c \<noteq> 0 \<and> 0 < cf_kvExpectedWorkers c \<and> cf_kvExpectedWorkers c \<le> 4 \<and>
     - (2 ^ 31) \<le> cf_workerSlot c \<and> cf_workerSlot c < 2 ^ 31"

lemma parseI32Param_range:
  assumes "parseI32Param v d = Some i" "- (2 ^ 31) \<le> d" "d < 2 ^ 31"
  shows "- (2 ^ 31) \<le> i \<and> i < 2 ^ 31"
  using assms sint_greater_eq [where 'a = 32] sint_less [where 'a = 32]
  by (auto simp: parseI32Param_def split: option.splits if_splits)

text \<open>(C40)
  Whatever the parameters are, a constructed endpoint is well formed: it can grant at least one
  request per node and pass, has at least one K/V slot of a non-zero tile size, waits for one to
  four workers, and its slot number is a 32-bit integer.  Parameters that break this, or that are
  not numbers, stop the construction.
\<close>

theorem gc_construct_wf:
  assumes "gc_construct params findBool reqOut rspOut = Some c"
  shows "gc_wf c"
proof -
  obtain d where d: "gc_configure d = Some c" "- (2 ^ 31) \<le> cf_workerSlot d" "cf_workerSlot d < 2 ^ 31" "cf_kvSlots d < 2 ^ 32"
    using assms parseI32Param_range [of "params ''worker_slot''" "-1"] unsigned_less [where 'b = 32 and 'a = nat]
    by (auto simp: gc_construct_def Let_def split: bind_splits)
  then show ?thesis by (auto simp: gc_configure_def gc_wf_def Let_def split: if_splits)
qed

theorem gc_construct_wf_witness:
  "\<exists>c. gc_construct (\<lambda>k. if k = ''worker_slot'' then Some ''3'' else None) (\<lambda>k d. d) True [] = Some c \<and> gc_wf c"
proof -
  have "gc_construct (\<lambda>k. if k = ''worker_slot'' then Some ''3'' else None) (\<lambda>k d. d) True [] \<noteq> None"
    by (simp add: gc_construct_def parseU32Param_def parseI32Param_def parseU64Param_def gc_configure_def stoll_def
        is_space_def digits_of_def number_of_def digit_value_def Let_def)
  then show ?thesis using gc_construct_wf by blast
qed

end
