(* ===== verification/Group_Ctrl_Sched.thy ===== *)
theory Group_Ctrl_Sched
  imports Group_Ctrl_Msg "HOL-Library.Multiset"
begin

text \<open>
  The grant scheduler of the manager endpoint in \<open>groupctrl/groupctrl.cc\<close>: the \<open>REQUEST\<close>,
  \<open>DONE\<close> and \<open>FINISHED\<close> cases of \<open>handleReq\<close>, \<open>trySchedule\<close>, \<open>groupDrained\<close> and
  \<open>maybeSendGroupDone\<close>.  An operation returns the messages it sends, with the response slot of
  each, and the new state.
\<close>

unbundle bit_operations_syntax

section \<open>State\<close>

record PendingReq =
  pr_workerSlot :: nat
  pr_reqSeq :: u64
  pr_window :: u8
  pr_srcAddr :: u64
  pr_dstAddr :: u64
  pr_bytes :: u32
  pr_targetNode :: u16

record WorkerState =
  ws_lastReqSeq :: u64
  ws_lastGrantSeq :: u64
  ws_lastDoneSeq :: u64
  ws_finished :: bool
  ws_inflight :: bool
  ws_inflightNode :: u16

definition ws_init :: WorkerState where
  "ws_init = \<lparr>ws_lastReqSeq = 0, ws_lastGrantSeq = 0, ws_lastDoneSeq = 0, ws_finished = False,
     ws_inflight = False, ws_inflightNode = 0\<rparr>"

record GcSched =
  sch_pendingQ :: "PendingReq list"
  sch_workers :: "WorkerState list"
  sch_inflightPerNode :: "nat list"
  sch_scheduleCursor :: nat

definition sch_init :: "GcConfig \<Rightarrow> GcSched" where
  "sch_init c = \<lparr>sch_pendingQ = [], sch_workers = replicate 4 ws_init,
     sch_inflightPerNode = replicate (cf_numMemoryNodes c) 0, sch_scheduleCursor = 0\<rparr>"

section \<open>trySchedule\<close>

text \<open>The guards of the scan: a request passes when no \<open>continue\<close> is taken.\<close>

definition grantable :: "GcConfig \<Rightarrow> GcSched \<Rightarrow> PendingReq \<Rightarrow> bool" where
  "grantable c s req \<longleftrightarrow>
     (let slot = pr_workerSlot req; node = unat (pr_targetNode req) in
      if length (sch_workers s) \<le> slot then False
      else if ws_inflight (sch_workers s ! slot) then False
      else if length (sch_inflightPerNode s) \<le> node then False
      else \<not> cf_maxInflightPerNode c \<le> sch_inflightPerNode s ! node)"

definition scanQueue :: "GcConfig \<Rightarrow> GcSched \<Rightarrow> nat option" where
  "scanQueue c s = (let qsize = length (sch_pendingQ s) in
     find (\<lambda>idx. grantable c s (sch_pendingQ s ! idx))
       (map (\<lambda>scanned. (sch_scheduleCursor s + scanned) mod qsize) [0..<qsize]))"

definition grantMsg :: "GcConfig \<Rightarrow> PendingReq \<Rightarrow> GroupCtrlMsg" where
  "grantMsg c req = (GroupCtrlMsg_of GRANT)\<lparr>msg_groupId := ucast (cf_groupId c),
     msg_workerSlot := of_nat (pr_workerSlot req), msg_reqSeq := pr_reqSeq req,
     msg_window := (if pr_window req = 0 then 1 else pr_window req), msg_targetNode := pr_targetNode req\<rparr>"

definition grantAt :: "GcConfig \<Rightarrow> nat \<Rightarrow> GcSched \<Rightarrow> (nat \<times> GroupCtrlMsg) list \<times> GcSched" where
  "grantAt c idx s =
     (let req = sch_pendingQ s ! idx; slot = pr_workerSlot req; node = unat (pr_targetNode req);
          w = sch_workers s ! slot;
          seq = (if 1 < pr_window req then pr_reqSeq req OR GOLEM_WCP_COARSE_FINISHED_FLAG else pr_reqSeq req);
          w' = w\<lparr>ws_lastGrantSeq := seq, ws_inflight := True, ws_inflightNode := pr_targetNode req\<rparr>;
          q' = take idx (sch_pendingQ s) @ drop (idx + 1) (sch_pendingQ s)
      in (sendRsp c slot (grantMsg c req),
          s\<lparr>sch_workers := (sch_workers s)[slot := w'],
            sch_inflightPerNode := (sch_inflightPerNode s)[node := sch_inflightPerNode s ! node + 1],
            sch_pendingQ := q',
            sch_scheduleCursor := (if q' = [] then 0 else idx mod length q')\<rparr>))"

lemma scanQueue_Some:
  assumes "scanQueue c s = Some idx"
  shows "idx < length (sch_pendingQ s)" "grantable c s (sch_pendingQ s ! idx)"
  using assms by (auto simp: scanQueue_def Let_def find_Some_iff intro!: mod_less_divisor)

lemma grantAt_length:
  "idx < length (sch_pendingQ s) \<Longrightarrow> length (sch_pendingQ (snd (grantAt c idx s))) < length (sch_pendingQ s)"
  by (simp add: grantAt_def Let_def)

lemma scanQueue_cursor_length [simp]:
  "length (sch_pendingQ (s\<lparr>sch_scheduleCursor := n\<rparr>)) = length (sch_pendingQ s)"
  by simp

text \<open>The \<open>while\<close> loop; its argument \<open>grantsIssued\<close> counts up, the queue gets shorter.\<close>

function scheduleLoop :: "GcConfig \<Rightarrow> nat \<Rightarrow> GcSched \<Rightarrow> (nat \<times> GroupCtrlMsg) list \<times> GcSched" where
  "scheduleLoop c grantsIssued s =
     (if sch_pendingQ s = [] \<or> cf_maxGrantsPerSchedule c \<le> grantsIssued then ([], s)
      else
        (let s1 = (if length (sch_pendingQ s) \<le> sch_scheduleCursor s then s\<lparr>sch_scheduleCursor := 0\<rparr> else s)
         in case scanQueue c s1 of
              None \<Rightarrow> ([], s1)
            | Some idx \<Rightarrow>
                (case scheduleLoop c (grantsIssued + 1) (snd (grantAt c idx s1)) of
                   (ms, s3) \<Rightarrow> (fst (grantAt c idx s1) @ ms, s3))))"
  by pat_completeness auto
termination
proof (relation "measure (\<lambda>(c, g, s). length (sch_pendingQ s))", goal_cases)
  case (2 c g s s1 idx)
  then have "sch_pendingQ s1 = sch_pendingQ s" by auto
  with grantAt_length [OF scanQueue_Some(1) [OF 2(3)], of c] show ?case by simp
qed simp

declare scheduleLoop.simps [simp del]

definition trySchedule :: "GcConfig \<Rightarrow> GcSched \<Rightarrow> (nat \<times> GroupCtrlMsg) list \<times> GcSched" where
  "trySchedule c s = (if cf_role c \<noteq> MANAGER then ([], s) else scheduleLoop c 0 s)"

section \<open>Completion of the group\<close>

definition allWorkersFinished :: "GcSched \<Rightarrow> bool" where
  "allWorkersFinished s = list_all ws_finished (sch_workers s)"

definition groupDrained :: "GcSched \<Rightarrow> bool" where
  "groupDrained s = (if sch_pendingQ s \<noteq> [] then False
     else list_all (\<lambda>w. \<not> ws_inflight w) (sch_workers s) \<and> list_all (\<lambda>n. n = 0) (sch_inflightPerNode s))"

definition groupDoneMsg :: "GcConfig \<Rightarrow> nat \<Rightarrow> GroupCtrlMsg" where
  "groupDoneMsg c slot = (GroupCtrlMsg_of GROUP_DONE)\<lparr>msg_groupId := ucast (cf_groupId c), msg_workerSlot := of_nat slot\<rparr>"

definition maybeSendGroupDone :: "GcConfig \<Rightarrow> GcSched \<Rightarrow> (nat \<times> GroupCtrlMsg) list" where
  "maybeSendGroupDone c s =
     (if cf_role c \<noteq> MANAGER then []
      else if \<not> allWorkersFinished s \<or> \<not> groupDrained s then []
      else concat (map (\<lambda>slot. sendRsp c slot (groupDoneMsg c slot)) [0..<length (cf_rspOut c)]))"

section \<open>The scheduling cases of handleReq\<close>

definition handleRequest :: "GcConfig \<Rightarrow> GroupCtrlMsg \<Rightarrow> nat \<Rightarrow> GcSched \<Rightarrow> (nat \<times> GroupCtrlMsg) list \<times> GcSched" where
  "handleRequest c msg slot s =
     (if cf_queueDepth c \<le> length (sch_pendingQ s) then ([], s)
      else
        (let req = \<lparr>pr_workerSlot = slot, pr_reqSeq = msg_reqSeq msg, pr_window = msg_window msg,
               pr_srcAddr = msg_srcAddr msg, pr_dstAddr = msg_dstAddr msg, pr_bytes = msg_bytes msg,
               pr_targetNode = msg_targetNode msg\<rparr>
         in trySchedule c (s\<lparr>sch_workers := (sch_workers s)[slot := (sch_workers s ! slot)\<lparr>ws_lastReqSeq := msg_reqSeq msg\<rparr>],
                             sch_pendingQ := sch_pendingQ s @ [req]\<rparr>)))"

text \<open>\<open>--inflightPerNode_[node]\<close> under the guard both release paths have.\<close>

definition releaseNode :: "u16 \<Rightarrow> nat list \<Rightarrow> nat list" where
  "releaseNode node counts =
     (if unat node < length counts \<and> 0 < counts ! unat node
      then counts[unat node := counts ! unat node - 1] else counts)"

definition handleDone :: "GcConfig \<Rightarrow> GroupCtrlMsg \<Rightarrow> nat \<Rightarrow> GcSched \<Rightarrow> (nat \<times> GroupCtrlMsg) list \<times> GcSched" where
  "handleDone c msg slot s =
     (let w = sch_workers s ! slot;
          s1 = s\<lparr>sch_workers := (sch_workers s)[slot := w\<lparr>ws_lastDoneSeq := msg_reqSeq msg, ws_inflight := False,
                   ws_inflightNode := 0\<rparr>],
                 sch_inflightPerNode := releaseNode (ws_inflightNode w) (sch_inflightPerNode s)\<rparr>
      in case trySchedule c s1 of (ms, s2) \<Rightarrow> (ms @ maybeSendGroupDone c s2, s2))"

definition handleFinished :: "GcConfig \<Rightarrow> nat \<Rightarrow> GcSched \<Rightarrow> (nat \<times> GroupCtrlMsg) list \<times> GcSched" where
  "handleFinished c slot s =
     (let w = (sch_workers s ! slot)\<lparr>ws_finished := True\<rparr>;
          s1 = (if ws_lastGrantSeq w AND GOLEM_WCP_COARSE_FINISHED_FLAG \<noteq> 0
                then s\<lparr>sch_workers := (sch_workers s)[slot := w\<lparr>ws_inflight := False, ws_inflightNode := 0\<rparr>],
                       sch_inflightPerNode := (if ws_inflight w then releaseNode (ws_inflightNode w) (sch_inflightPerNode s)
                                               else sch_inflightPerNode s)\<rparr>
                else s\<lparr>sch_workers := (sch_workers s)[slot := w]\<rparr>)
      in (maybeSendGroupDone c s1, s1))"

section \<open>One scheduling pass\<close>

text \<open>The scan reaches every position of the queue.\<close>

lemma rotation_reaches:
  assumes "i < (n :: nat)"
  shows "\<exists>k < n. (cur + k) mod n = i"
proof (intro exI conjI)
  let ?k = "(i + n - cur mod n) mod n"
  show "?k < n" using assms by (intro mod_less_divisor) simp
  have "(cur + ?k) mod n = (cur mod n + (i + n - cur mod n)) mod n" by (simp add: mod_simps)
  moreover have "cur mod n < n" using assms by (intro mod_less_divisor) simp
  then have "cur mod n + (i + n - cur mod n) = i + n" by linarith
  ultimately show "(cur + ?k) mod n = i" using assms by simp
qed

lemma scanQueue_None:
  assumes "scanQueue c s = None" "req \<in> set (sch_pendingQ s)"
  shows "\<not> grantable c s req"
proof -
  obtain i where i: "i < length (sch_pendingQ s)" "req = sch_pendingQ s ! i"
    using assms(2) by (auto simp: in_set_conv_nth)
  obtain k where "k < length (sch_pendingQ s)" "(sch_scheduleCursor s + k) mod length (sch_pendingQ s) = i"
    using rotation_reaches [OF i(1)] by blast
  with assms(1) i(2) show ?thesis by (force simp: scanQueue_def Let_def find_None_iff)
qed

lemma grantable_cursor [simp]: "grantable c (s\<lparr>sch_scheduleCursor := n\<rparr>) req = grantable c s req"
  by (simp add: grantable_def)

lemma mset_remove_nth:
  assumes "i < length xs"
  shows "mset xs = add_mset (xs ! i) (mset (take i xs @ drop (i + 1) xs))"
proof -
  have "mset xs = mset (take i xs @ xs ! i # drop (Suc i) xs)" using id_take_nth_drop [OF assms] by simp
  then show ?thesis by simp
qed

text \<open>
  A pass grants some requests of the queue, each with one message to its worker; it stops when
  the grant budget is used up or when no request left can be granted.
\<close>

lemma scheduleLoop_grants:
  "scheduleLoop c g s = (ms, t) \<Longrightarrow> g \<le> cf_maxGrantsPerSchedule c \<Longrightarrow>
     \<exists>reqs. mset (sch_pendingQ s) = mset reqs + mset (sch_pendingQ t) \<and>
       ms = concat (map (\<lambda>r. sendRsp c (pr_workerSlot r) (grantMsg c r)) reqs) \<and>
       g + length reqs \<le> cf_maxGrantsPerSchedule c \<and>
       (g + length reqs = cf_maxGrantsPerSchedule c \<or> (\<forall>r \<in> set (sch_pendingQ t). \<not> grantable c t r))"
proof (induction c g s arbitrary: ms t rule: scheduleLoop.induct)
  case (1 c g s)
  define s1 where "s1 = (if length (sch_pendingQ s) \<le> sch_scheduleCursor s then s\<lparr>sch_scheduleCursor := 0\<rparr> else s)"
  have q1: "sch_pendingQ s1 = sch_pendingQ s" by (simp add: s1_def)
  show ?case
  proof (cases "sch_pendingQ s = [] \<or> cf_maxGrantsPerSchedule c \<le> g")
    case True
    with 1(2,3) have "ms = []" "t = s" by (simp_all add: scheduleLoop.simps [of c g s])
    with True 1(3) show ?thesis by (intro exI [of _ "[]"]) auto
  next
    case False
    note eq = 1(2) [unfolded scheduleLoop.simps [of c g s] if_not_P [OF False] Let_def s1_def [symmetric]]
    show ?thesis
    proof (cases "scanQueue c s1")
      case None
      then have "ms = []" "t = s1" using eq by simp_all
      with scanQueue_None [OF None] q1 1(3) show ?thesis by (intro exI [of _ "[]"]) auto
    next
      case (Some idx)
      obtain ms2 where ms2: "scheduleLoop c (g + 1) (snd (grantAt c idx s1)) = (ms2, t)"
        "ms = fst (grantAt c idx s1) @ ms2" using eq Some by (auto split: prod.splits)
      note idx = scanQueue_Some [OF Some]
      from "1.IH" [OF False s1_def Some ms2(1)] False obtain reqs where reqs:
        "mset (sch_pendingQ (snd (grantAt c idx s1))) = mset reqs + mset (sch_pendingQ t)"
        "ms2 = concat (map (\<lambda>r. sendRsp c (pr_workerSlot r) (grantMsg c r)) reqs)"
        "g + 1 + length reqs \<le> cf_maxGrantsPerSchedule c"
        "g + 1 + length reqs = cf_maxGrantsPerSchedule c \<or> (\<forall>r \<in> set (sch_pendingQ t). \<not> grantable c t r)"
        by auto
      have "mset (sch_pendingQ s) = add_mset (sch_pendingQ s ! idx) (mset (sch_pendingQ (snd (grantAt c idx s1))))"
        using mset_remove_nth [of idx "sch_pendingQ s"] idx(1) q1 by (simp add: grantAt_def Let_def)
      then show ?thesis
        using reqs ms2(2) q1
        by (intro exI [of _ "sch_pendingQ s ! idx # reqs"]) (simp add: grantAt_def Let_def)
    qed
  qed
qed

section \<open>Invariants of the manager\<close>

definition on_node :: "nat \<Rightarrow> WorkerState \<Rightarrow> bool" where
  "on_node n w \<longleftrightarrow> ws_inflight w \<and> unat (ws_inflightNode w) = n"

text \<open>
  \<open>sch_inv\<close> holds whatever the workers send; \<open>accounted\<close>, that a node's counter is the number of
  workers with a grant for it, needs that a worker reports \<open>DONE\<close> only for a grant it holds.
\<close>

definition sch_inv :: "GcConfig \<Rightarrow> GcSched \<Rightarrow> bool" where
  "sch_inv c s \<longleftrightarrow> length (sch_workers s) = 4 \<and> length (sch_inflightPerNode s) = cf_numMemoryNodes c \<and>
     (\<forall>n < cf_numMemoryNodes c. sch_inflightPerNode s ! n \<le> cf_maxInflightPerNode c) \<and>
     (\<forall>w \<in> set (sch_workers s). ws_inflight w \<longrightarrow> unat (ws_inflightNode w) < cf_numMemoryNodes c) \<and>
     (\<forall>r \<in> set (sch_pendingQ s). pr_workerSlot r < 4) \<and> length (sch_pendingQ s) \<le> cf_queueDepth c"

definition accounted :: "GcConfig \<Rightarrow> GcSched \<Rightarrow> bool" where
  "accounted c s \<longleftrightarrow> (\<forall>n < cf_numMemoryNodes c. sch_inflightPerNode s ! n = length (filter (on_node n) (sch_workers s)))"

lemma sch_inv_init: "sch_inv c (sch_init c) \<and> accounted c (sch_init c)"
  by (simp add: sch_inv_def accounted_def sch_init_def ws_init_def on_node_def)

lemma grantable_iff:
  "grantable c s r \<longleftrightarrow> pr_workerSlot r < length (sch_workers s) \<and> \<not> ws_inflight (sch_workers s ! pr_workerSlot r) \<and>
     unat (pr_targetNode r) < length (sch_inflightPerNode s) \<and>
     sch_inflightPerNode s ! unat (pr_targetNode r) < cf_maxInflightPerNode c"
  by (auto simp: grantable_def Let_def)

lemma grantAt_inv:
  assumes inv: "sch_inv c s" and idx: "idx < length (sch_pendingQ s)" "grantable c s (sch_pendingQ s ! idx)"
  shows "sch_inv c (snd (grantAt c idx s))" "accounted c s \<Longrightarrow> accounted c (snd (grantAt c idx s))"
proof -
  let ?r = "sch_pendingQ s ! idx"
  note g = idx(2) [unfolded grantable_iff]
  show "sch_inv c (snd (grantAt c idx s))"
    using inv idx(1) g
    by (auto simp: sch_inv_def grantAt_def Let_def nth_list_update dest!: set_update_subset_insert [THEN subsetD]
        in_set_takeD in_set_dropD)
  assume acc: "accounted c s"
  show "accounted c (snd (grantAt c idx s))"
    unfolding accounted_def
  proof (intro allI impI)
    fix n
    assume n: "n < cf_numMemoryNodes c"
    define w where "w = (sch_workers s ! pr_workerSlot ?r)\<lparr>ws_lastGrantSeq :=
        (if 1 < pr_window ?r then pr_reqSeq ?r OR GOLEM_WCP_COARSE_FINISHED_FLAG else pr_reqSeq ?r),
        ws_inflight := True, ws_inflightNode := pr_targetNode ?r\<rparr>"
    have "length (filter (on_node n) ((sch_workers s)[pr_workerSlot ?r := w])) =
        length (filter (on_node n) (sch_workers s)) + (if unat (pr_targetNode ?r) = n then 1 else 0)"
      using length_filter_update [of "pr_workerSlot ?r" "sch_workers s" "on_node n" w] g
      by (auto simp: on_node_def w_def split: if_splits)
    then show "sch_inflightPerNode (snd (grantAt c idx s)) ! n =
        length (filter (on_node n) (sch_workers (snd (grantAt c idx s))))"
      using acc n g inv by (auto simp: grantAt_def Let_def w_def accounted_def sch_inv_def nth_list_update)
  qed
qed

lemma scheduleLoop_inv:
  "sch_inv c s \<Longrightarrow> sch_inv c (snd (scheduleLoop c g s)) \<and>
     (accounted c s \<longrightarrow> accounted c (snd (scheduleLoop c g s)))"
proof (induction c g s rule: scheduleLoop.induct)
  case (1 c g s)
  define s1 where "s1 = (if length (sch_pendingQ s) \<le> sch_scheduleCursor s then s\<lparr>sch_scheduleCursor := 0\<rparr> else s)"
  have inv1: "sch_inv c s1" "accounted c s \<Longrightarrow> accounted c s1"
    using 1(2) by (simp_all add: s1_def sch_inv_def accounted_def)
  show ?case
  proof (cases "sch_pendingQ s = [] \<or> cf_maxGrantsPerSchedule c \<le> g")
    case True
    then show ?thesis using 1(2) by (simp add: scheduleLoop.simps [of c g s])
  next
    case False
    note eq = scheduleLoop.simps [of c g s, unfolded if_not_P [OF False] Let_def s1_def [symmetric]]
    show ?thesis
    proof (cases "scanQueue c s1")
      case None
      then show ?thesis using inv1 by (simp add: eq)
    next
      case (Some idx)
      from grantAt_inv [OF inv1(1) scanQueue_Some [OF Some]] inv1(2)
      have "sch_inv c (snd (grantAt c idx s1))" "accounted c s \<Longrightarrow> accounted c (snd (grantAt c idx s1))" by auto
      with "1.IH" [OF False s1_def Some] show ?thesis
        by (cases "scheduleLoop c (g + 1) (snd (grantAt c idx s1))") (simp add: eq Some)
    qed
  qed
qed

lemma trySchedule_inv:
  "sch_inv c s \<Longrightarrow> sch_inv c (snd (trySchedule c s)) \<and> (accounted c s \<longrightarrow> accounted c (snd (trySchedule c s)))"
  by (simp add: trySchedule_def scheduleLoop_inv)

section \<open>Message sequences\<close>

datatype gc_in = InRequest GroupCtrlMsg nat | InDone GroupCtrlMsg nat | InFinished nat

fun gc_slot :: "gc_in \<Rightarrow> nat" where
  "gc_slot (InRequest msg slot) = slot"
| "gc_slot (InDone msg slot) = slot"
| "gc_slot (InFinished slot) = slot"

fun gc_feed :: "GcConfig \<Rightarrow> gc_in \<Rightarrow> GcSched \<Rightarrow> (nat \<times> GroupCtrlMsg) list \<times> GcSched" where
  "gc_feed c (InRequest msg slot) s = handleRequest c msg slot s"
| "gc_feed c (InDone msg slot) s = handleDone c msg slot s"
| "gc_feed c (InFinished slot) s = handleFinished c slot s"

text \<open>The manager has four request links, so a message has a slot below four.\<close>

fun gc_run :: "GcConfig \<Rightarrow> gc_in list \<Rightarrow> GcSched \<Rightarrow> GcSched" where
  "gc_run c [] s = s"
| "gc_run c (i # is) s = gc_run c is (if gc_slot i < 4 then snd (gc_feed c i s) else s)"

text \<open>Every \<open>DONE\<close> comes from a worker that holds a grant.\<close>

fun disciplined :: "GcConfig \<Rightarrow> gc_in list \<Rightarrow> GcSched \<Rightarrow> bool" where
  "disciplined c [] s = True"
| "disciplined c (i # is) s =
     ((case i of InDone msg slot \<Rightarrow> slot < 4 \<longrightarrow> ws_inflight (sch_workers s ! slot) | _ \<Rightarrow> True) \<and>
      disciplined c is (if gc_slot i < 4 then snd (gc_feed c i s) else s))"

lemma releaseNode_nth:
  "n < length cs \<Longrightarrow> releaseNode k cs ! n = (if unat k = n then cs ! n - 1 else cs ! n)"
  by (auto simp: releaseNode_def nth_list_update)

lemma length_releaseNode [simp]: "length (releaseNode k cs) = length cs"
  by (simp add: releaseNode_def)

text \<open>Dropping a worker's grant lowers the count of its node by one and no other.\<close>

lemma accounted_release:
  assumes inv: "sch_inv c s" and slot: "slot < 4" and acc: "accounted c s"
    and fl: "ws_inflight (sch_workers s ! slot)" and w: "\<not> ws_inflight w"
  shows "accounted c (s\<lparr>sch_workers := (sch_workers s)[slot := w],
     sch_inflightPerNode := releaseNode (ws_inflightNode (sch_workers s ! slot)) (sch_inflightPerNode s)\<rparr>)"
  unfolding accounted_def
proof (intro allI impI)
  fix n
  assume "n < cf_numMemoryNodes c"
  then show "sch_inflightPerNode (s\<lparr>sch_workers := (sch_workers s)[slot := w],
      sch_inflightPerNode := releaseNode (ws_inflightNode (sch_workers s ! slot)) (sch_inflightPerNode s)\<rparr>) ! n =
    length (filter (on_node n) (sch_workers (s\<lparr>sch_workers := (sch_workers s)[slot := w],
      sch_inflightPerNode := releaseNode (ws_inflightNode (sch_workers s ! slot)) (sch_inflightPerNode s)\<rparr>)))"
    using length_filter_update [of slot "sch_workers s" "on_node n" w] inv slot acc fl w
    by (auto simp: accounted_def sch_inv_def releaseNode_nth on_node_def split: if_splits)
qed

lemma accounted_same:
  assumes "sch_inv c s" "slot < 4" "accounted c s"
    and "\<And>n. on_node n w = on_node n (sch_workers s ! slot)"
  shows "accounted c (s\<lparr>sch_workers := (sch_workers s)[slot := w]\<rparr>)"
proof -
  have "length (filter (on_node n) ((sch_workers s)[slot := w])) = length (filter (on_node n) (sch_workers s))" for n
    using length_filter_update [of slot "sch_workers s" "on_node n" w] assms
    by (simp add: sch_inv_def split: if_splits)
  with assms(3) show ?thesis by (simp add: accounted_def)
qed

lemma sch_inv_worker:
  assumes "sch_inv c s" "slot < 4" "ws_inflight w \<longrightarrow> unat (ws_inflightNode w) < cf_numMemoryNodes c"
  shows "sch_inv c (s\<lparr>sch_workers := (sch_workers s)[slot := w]\<rparr>)"
  using assms by (auto simp: sch_inv_def dest!: set_update_subset_insert [THEN subsetD])

lemma sch_inv_release:
  assumes "sch_inv c s"
  shows "sch_inv c (s\<lparr>sch_inflightPerNode := releaseNode k (sch_inflightPerNode s)\<rparr>)"
  using assms by (auto simp: sch_inv_def releaseNode_nth intro: order_trans [OF diff_le_self])

lemma sch_inv_node: "sch_inv c s \<Longrightarrow> slot < 4 \<Longrightarrow> ws_inflight (sch_workers s ! slot) \<Longrightarrow>
    unat (ws_inflightNode (sch_workers s ! slot)) < cf_numMemoryNodes c"
  by (simp add: sch_inv_def)

lemma handleRequest_inv:
  assumes inv: "sch_inv c s" and slot: "slot < 4"
  shows "sch_inv c (snd (handleRequest c msg slot s))" "accounted c s \<Longrightarrow> accounted c (snd (handleRequest c msg slot s))"
proof -
  let ?w = "(sch_workers s ! slot)\<lparr>ws_lastReqSeq := msg_reqSeq msg\<rparr>"
  have i1: "sch_inv c (s\<lparr>sch_workers := (sch_workers s)[slot := ?w]\<rparr>)"
    using sch_inv_worker [OF inv slot, of ?w] sch_inv_node [OF inv slot] by simp
  have a1: "accounted c (s\<lparr>sch_workers := (sch_workers s)[slot := ?w]\<rparr>)" if "accounted c s"
    using accounted_same [OF inv slot that, of ?w] by (simp add: on_node_def)
  define req where "req = \<lparr>pr_workerSlot = slot, pr_reqSeq = msg_reqSeq msg, pr_window = msg_window msg,
      pr_srcAddr = msg_srcAddr msg, pr_dstAddr = msg_dstAddr msg, pr_bytes = msg_bytes msg,
      pr_targetNode = msg_targetNode msg\<rparr>"
  define t where "t = s\<lparr>sch_workers := (sch_workers s)[slot := ?w], sch_pendingQ := sch_pendingQ s @ [req]\<rparr>"
  have i2: "sch_inv c t" if "length (sch_pendingQ s) < cf_queueDepth c"
    using i1 slot that by (simp add: sch_inv_def t_def req_def)
  have a2: "accounted c t" if "accounted c s" using a1 [OF that] by (simp add: accounted_def t_def)
  have eq: "handleRequest c msg slot s = (if cf_queueDepth c \<le> length (sch_pendingQ s) then ([], s) else trySchedule c t)"
    by (simp add: handleRequest_def t_def req_def)
  show "sch_inv c (snd (handleRequest c msg slot s))" "accounted c s \<Longrightarrow> accounted c (snd (handleRequest c msg slot s))"
    unfolding eq using inv i2 a2 trySchedule_inv [of c t] by (auto simp: not_le)
qed

lemma handleDone_inv:
  assumes inv: "sch_inv c s" and slot: "slot < 4"
  shows "sch_inv c (snd (handleDone c msg slot s))"
    "accounted c s \<Longrightarrow> ws_inflight (sch_workers s ! slot) \<Longrightarrow> accounted c (snd (handleDone c msg slot s))"
proof -
  define w where "w = (sch_workers s ! slot)\<lparr>ws_lastDoneSeq := msg_reqSeq msg, ws_inflight := False, ws_inflightNode := 0\<rparr>"
  define t where "t = s\<lparr>sch_workers := (sch_workers s)[slot := w],
      sch_inflightPerNode := releaseNode (ws_inflightNode (sch_workers s ! slot)) (sch_inflightPerNode s)\<rparr>"
  have "sch_inv c t"
    using sch_inv_release [OF sch_inv_worker [OF inv slot, of w]] by (simp add: t_def w_def)
  moreover have "accounted c t" if "accounted c s" "ws_inflight (sch_workers s ! slot)"
    using accounted_release [OF inv slot that] by (simp add: t_def w_def)
  moreover have "snd (handleDone c msg slot s) = snd (trySchedule c t)"
    by (simp add: handleDone_def Let_def t_def w_def split: prod.splits)
  ultimately show "sch_inv c (snd (handleDone c msg slot s))"
    "accounted c s \<Longrightarrow> ws_inflight (sch_workers s ! slot) \<Longrightarrow> accounted c (snd (handleDone c msg slot s))"
    using trySchedule_inv [of c t] by auto
qed

lemma handleFinished_inv:
  assumes inv: "sch_inv c s" and slot: "slot < 4"
  shows "sch_inv c (snd (handleFinished c slot s))" "accounted c s \<Longrightarrow> accounted c (snd (handleFinished c slot s))"
proof -
  let ?old = "sch_workers s ! slot"
  define w where "w = ?old\<lparr>ws_finished := True\<rparr>"
  define w' where "w' = w\<lparr>ws_inflight := False, ws_inflightNode := 0\<rparr>"
  define a where "a = s\<lparr>sch_workers := (sch_workers s)[slot := w']\<rparr>"
  define b where "b = s\<lparr>sch_workers := (sch_workers s)[slot := w'],
      sch_inflightPerNode := releaseNode (ws_inflightNode ?old) (sch_inflightPerNode s)\<rparr>"
  define d where "d = s\<lparr>sch_workers := (sch_workers s)[slot := w]\<rparr>"
  have "snd (handleFinished c slot s) = (if ws_lastGrantSeq ?old AND GOLEM_WCP_COARSE_FINISHED_FLAG \<noteq> 0
      then if ws_inflight ?old then b else a else d)"
    by (simp add: handleFinished_def Let_def a_def b_def d_def w_def w'_def)
  moreover have "sch_inv c a" "sch_inv c d" "sch_inv c b"
    using sch_inv_worker [OF inv slot, of w'] sch_inv_worker [OF inv slot, of w] sch_inv_node [OF inv slot]
      sch_inv_release [of c a] by (simp_all add: a_def b_def d_def w_def w'_def)
  moreover have "accounted c d" if "accounted c s"
    using accounted_same [OF inv slot that, of w] by (simp add: d_def w_def on_node_def)
  moreover have "accounted c a" if "accounted c s" "\<not> ws_inflight ?old"
    using accounted_same [OF inv slot that(1), of w'] that(2) by (simp add: a_def w'_def on_node_def)
  moreover have "accounted c b" if "accounted c s" "ws_inflight ?old"
    using accounted_release [OF inv slot that] by (simp add: b_def w'_def)
  ultimately show "sch_inv c (snd (handleFinished c slot s))" "accounted c s \<Longrightarrow> accounted c (snd (handleFinished c slot s))"
    by auto
qed

lemmas feed_inv [golem_inv] = handleRequest_inv handleDone_inv handleFinished_inv

lemma gc_run_inv: "sch_inv c s \<Longrightarrow> sch_inv c (gc_run c is s)"
proof (induction "is" arbitrary: s)
  case (Cons i "is")
  then show ?case by (cases i) (auto intro: golem_inv)
qed simp

lemma gc_run_accounted: "sch_inv c s \<Longrightarrow> accounted c s \<Longrightarrow> disciplined c is s \<Longrightarrow> accounted c (gc_run c is s)"
proof (induction "is" arbitrary: s)
  case (Cons i "is")
  then show ?case by (cases i) (auto simp: golem_inv)
qed simp

section \<open>Properties\<close>

text \<open>An example manager: one memory node, one grant per node and per pass, all links wired.\<close>

definition gc_ex :: GcConfig where
  "gc_ex = \<lparr>cf_role = MANAGER, cf_coreId = 0, cf_groupId = 0, cf_workerSlot = -1, cf_queueDepth = 8,
     cf_maxInflightPerNode = 1, cf_maxGrantsPerSchedule = 1, cf_numMemoryNodes = 1, cf_gmBaseAddr = 0,
     cf_gmSize = 0x100000, cf_kvEnable = False, cf_kvLookahead = False, cf_kvSlots = 2, cf_kvTileBytes = 16384,
     cf_kvScratchOffset = 0x40000, cf_kvExpectedWorkers = 4, cf_reqOut = False,
     cf_rspOut = [True, True, True, True]\<rparr>"

definition req_msg :: "u64 \<Rightarrow> u8 \<Rightarrow> GroupCtrlMsg" where
  "req_msg seq window = (GroupCtrlMsg_of REQUEST)\<lparr>msg_reqSeq := seq, msg_window := window\<rparr>"

definition done_msg :: "u64 \<Rightarrow> GroupCtrlMsg" where
  "done_msg seq = (GroupCtrlMsg_of DONE)\<lparr>msg_reqSeq := seq\<rparr>"

text \<open>(C14)
  As long as workers report \<open>DONE\<close> only for a grant they hold, the manager's counter of a
  memory node is exactly the number of workers with a grant for it and never exceeds the
  configured cap, and the request queue stays within its depth, for every sequence of messages.
\<close>

theorem group_grants_within_cap:
  assumes "disciplined c is (sch_init c)" "n < cf_numMemoryNodes c"
  shows "case gc_run c is (sch_init c) of s \<Rightarrow>
     sch_inflightPerNode s ! n = length (filter (\<lambda>w. ws_inflight w \<and> unat (ws_inflightNode w) = n) (sch_workers s)) \<and>
     sch_inflightPerNode s ! n \<le> cf_maxInflightPerNode c \<and> length (sch_pendingQ s) \<le> cf_queueDepth c"
proof -
  note init = sch_inv_init [of c]
  have "sch_inv c (gc_run c is (sch_init c))" using init by (intro gc_run_inv) simp
  moreover have "accounted c (gc_run c is (sch_init c))" using init assms(1) by (intro gc_run_accounted) simp_all
  ultimately show ?thesis using assms(2) by (simp add: sch_inv_def accounted_def on_node_def [abs_def])
qed

theorem group_grants_within_cap_witness:
  "case gc_run gc_ex [InRequest (req_msg 1 1) 0, InRequest (req_msg 1 1) 1, InDone (done_msg 1) 0] (sch_init gc_ex) of s \<Rightarrow>
     sch_inflightPerNode s ! 0 = 1 \<and> sch_inflightPerNode s ! 0 \<le> cf_maxInflightPerNode gc_ex"
proof -
  have d: "disciplined gc_ex [InRequest (req_msg 1 1) 0, InRequest (req_msg 1 1) 1, InDone (done_msg 1) 0] (sch_init gc_ex)"
    by code_simp
  have n: "0 < cf_numMemoryNodes gc_ex" by (simp add: gc_ex_def)
  have "sch_inflightPerNode (gc_run gc_ex [InRequest (req_msg 1 1) 0, InRequest (req_msg 1 1) 1, InDone (done_msg 1) 0]
      (sch_init gc_ex)) ! 0 = 1" by code_simp
  with group_grants_within_cap [OF d n] show ?thesis by simp
qed


text \<open>(C34)
  A scheduling pass serves requests of the queue and nothing else: the requests it removes are
  exactly those it grants, it sends one grant for each, it grants no more than the budget, and
  if it stops below the budget then no request left in the queue could be granted.
\<close>

theorem schedule_pass_maximal:
  "cf_role c = MANAGER \<longrightarrow> (case trySchedule c s of (ms, t) \<Rightarrow>
     \<exists>reqs. mset (sch_pendingQ s) = mset reqs + mset (sch_pendingQ t) \<and>
       ms = concat (map (\<lambda>r. sendRsp c (pr_workerSlot r) (grantMsg c r)) reqs) \<and>
       length reqs \<le> cf_maxGrantsPerSchedule c \<and>
       (length reqs = cf_maxGrantsPerSchedule c \<or> (\<forall>r \<in> set (sch_pendingQ t). \<not> grantable c t r)))"
  using scheduleLoop_grants [of c 0 s] by (cases "scheduleLoop c 0 s") (auto simp: trySchedule_def)

theorem schedule_pass_maximal_witness:
  "cf_role gc_ex = MANAGER \<and> (case trySchedule gc_ex (sch_init gc_ex) of (ms, t) \<Rightarrow>
     length ms \<le> length (sch_pendingQ (sch_init gc_ex)))"
proof -
  have "cf_role gc_ex = MANAGER" by (simp add: gc_ex_def)
  then obtain ms t reqs where "trySchedule gc_ex (sch_init gc_ex) = (ms, t)"
    "mset (sch_pendingQ (sch_init gc_ex)) = mset reqs + mset (sch_pendingQ t)"
    "ms = concat (map (\<lambda>r. sendRsp gc_ex (pr_workerSlot r) (grantMsg gc_ex r)) reqs)"
    using schedule_pass_maximal [of gc_ex "sch_init gc_ex"] by (cases "trySchedule gc_ex (sch_init gc_ex)") auto
  with \<open>cf_role gc_ex = MANAGER\<close> show ?thesis by (simp add: sch_init_def)
qed



end
