(* ===== verification/Group_Ctrl_Kv.thy ===== *)
theory Group_Ctrl_Kv
  imports Group_Ctrl_Msg Gm_Local_Access
begin

text \<open>
  The attention K/V distribution of the manager endpoint in \<open>groupctrl/groupctrl.cc\<close>: the
  slots that hold one K and one V tile each, the queue of requests that wait for a slot, the
  DMA that fills a slot, the local reads that collect its bytes, the deliveries, the
  acknowledgements and cancellations, and the speculative load of the next tile.  An operation
  returns the new state, with the messages and DMA requests it issues appended to an output
  list; \<open>None\<close> is a run that stops (a division by zero, or a stop of the local memory).
\<close>

unbundle bit_operations_syntax

section \<open>State\<close>

record KvSubscriber =
  sub_present :: bool
  sub_requestId :: u64
  sub_generation :: u64
  sub_kDstAddr :: u64
  sub_vDstAddr :: u64

definition sub_init :: KvSubscriber where
  "sub_init = \<lparr>sub_present = False, sub_requestId = 0, sub_generation = 0, sub_kDstAddr = 0, sub_vDstAddr = 0\<rparr>"

record KvSlot =
  sl_occupied :: bool
  sl_failed :: bool
  sl_speculative :: bool
  sl_readInflight :: bool
  sl_readingV :: bool
  sl_epoch :: nat
  sl_generation :: u64
  sl_jobTag :: u64
  sl_queryGroup :: u32
  sl_kvTileIndex :: u32
  sl_physicalKvTileIndex :: u32
  sl_numKvTiles :: u32
  sl_kvLength :: u32
  sl_kvTileRows :: u32
  sl_tileRows :: u32
  sl_rowsPerBand :: u32
  sl_headDim :: u32
  sl_nodeStrideBytes :: u64
  sl_kAddr :: u64
  sl_vAddr :: u64
  sl_bytes :: u32
  sl_kLoadsPending :: nat
  sl_vLoadsPending :: nat
  sl_requestedMask :: u8
  sl_deliveredMask :: u8
  sl_completedMask :: u8
  sl_cancelledMask :: u8
  sl_readOffset :: nat
  sl_subscribers :: "KvSubscriber list"
  sl_kData :: "u8 list"
  sl_vData :: "u8 list"

definition sl_init :: KvSlot where
  "sl_init = \<lparr>sl_occupied = False, sl_failed = False, sl_speculative = False, sl_readInflight = False,
     sl_readingV = False, sl_epoch = 0, sl_generation = 0, sl_jobTag = 0, sl_queryGroup = 0,
     sl_kvTileIndex = 0, sl_physicalKvTileIndex = 0, sl_numKvTiles = 0, sl_kvLength = 0, sl_kvTileRows = 0,
     sl_tileRows = 0, sl_rowsPerBand = 0, sl_headDim = 0, sl_nodeStrideBytes = 0, sl_kAddr = 0, sl_vAddr = 0,
     sl_bytes = 0, sl_kLoadsPending = 0, sl_vLoadsPending = 0, sl_requestedMask = 0, sl_deliveredMask = 0,
     sl_completedMask = 0, sl_cancelledMask = 0, sl_readOffset = 0, sl_subscribers = replicate 4 sub_init,
     sl_kData = [], sl_vData = []\<rparr>"

record PendingKvRequest =
  pk_workerSlot :: nat
  pk_requestId :: u64
  pk_request :: AttentionKvRequest

text \<open>The callbacks the endpoint hands to the local memory, with what they capture.\<close>

datatype GcCb =
    KvReadCb nat nat u64
  | KvWriteCb u64 u64 nat

datatype KvOut =
    KvRsp nat GroupCtrlMsg
  | KvDma u64 nat u64 nat nat bool

record KvStats =
  kst_managerLoads :: nat
  kst_managerBytes :: nat
  kst_coalesced :: nat
  kst_deliveries :: nat
  kst_deliveryBytes :: nat
  kst_slotStalls :: nat
  kst_cancels :: nat
  kst_maxSlots :: nat
  kst_lookaheadLoads :: nat
  kst_lookaheadHits :: nat

record GcKv =
  kv_slots :: "KvSlot list"
  kv_pendingRequests :: "PendingKvRequest list"
  kv_nextSlotEpoch :: nat
  kv_nextLocalTag :: u64
  kv_stats :: KvStats
  kv_mem :: "GcCb GmLocal"
  kv_out :: "KvOut list"

definition kv_init :: "GcConfig \<Rightarrow> GcCb GmLocal \<Rightarrow> GcKv" where
  "kv_init c mem = \<lparr>kv_slots = replicate (cf_kvSlots c) sl_init, kv_pendingRequests = [], kv_nextSlotEpoch = 1,
     kv_nextLocalTag = 1, kv_stats = \<lparr>kst_managerLoads = 0, kst_managerBytes = 0, kst_coalesced = 0,
       kst_deliveries = 0, kst_deliveryBytes = 0, kst_slotStalls = 0, kst_cancels = 0, kst_maxSlots = 0,
       kst_lookaheadLoads = 0, kst_lookaheadHits = 0\<rparr>, kv_mem = mem, kv_out = []\<rparr>"

definition kv_set_slot :: "nat \<Rightarrow> KvSlot \<Rightarrow> GcKv \<Rightarrow> GcKv" where
  "kv_set_slot i sl kv = kv\<lparr>kv_slots := (kv_slots kv)[i := sl]\<rparr>"

definition kv_send :: "GcConfig \<Rightarrow> nat \<Rightarrow> GroupCtrlMsg \<Rightarrow> GcKv \<Rightarrow> GcKv" where
  "kv_send c slot m kv = kv\<lparr>kv_out := kv_out kv @ map (\<lambda>(k, m). KvRsp k m) (sendRsp c slot m)\<rparr>"

definition slot_bit :: "nat \<Rightarrow> u8" where
  "slot_bit w = push_bit w 1"

section \<open>Finding slots\<close>

definition slot_matches :: "GroupCtrlMsg \<Rightarrow> KvSlot \<Rightarrow> bool" where
  "slot_matches m sl \<longleftrightarrow> sl_occupied sl \<and> sl_jobTag sl = msg_jobTag m \<and> sl_queryGroup sl = msg_queryGroup m \<and>
     sl_kvTileIndex sl = msg_kvTileIndex m \<and> sl_physicalKvTileIndex sl = msg_physicalKvTileIndex m"

definition findAttentionKvSlot :: "GroupCtrlMsg \<Rightarrow> GcKv \<Rightarrow> nat option" where
  "findAttentionKvSlot m kv = find (\<lambda>i. slot_matches m (kv_slots kv ! i)) [0..<length (kv_slots kv)]"

definition findFreeAttentionKvSlot :: "GcKv \<Rightarrow> nat option" where
  "findFreeAttentionKvSlot kv = find (\<lambda>i. \<not> sl_occupied (kv_slots kv ! i)) [0..<length (kv_slots kv)]"

section \<open>Starting a slot\<close>

definition slot_of_message :: "nat \<Rightarrow> GroupCtrlMsg \<Rightarrow> KvSlot" where
  "slot_of_message epoch m = sl_init\<lparr>sl_occupied := True, sl_epoch := epoch, sl_generation := msg_generation m,
     sl_jobTag := msg_jobTag m, sl_queryGroup := msg_queryGroup m, sl_kvTileIndex := msg_kvTileIndex m,
     sl_physicalKvTileIndex := msg_physicalKvTileIndex m, sl_numKvTiles := msg_numKvTiles m,
     sl_kvLength := msg_kvLength m, sl_kvTileRows := msg_kvTileRows m, sl_tileRows := msg_tileRows m,
     sl_rowsPerBand := msg_rowsPerBand m, sl_headDim := msg_headDim m,
     sl_nodeStrideBytes := msg_nodeStrideBytes m, sl_kAddr := msg_kAddr m, sl_vAddr := msg_vAddr m,
     sl_bytes := msg_bytes m\<rparr>"

definition startAttentionKvSlot :: "nat \<Rightarrow> GroupCtrlMsg \<Rightarrow> GcKv \<Rightarrow> GcKv" where
  "startAttentionKvSlot i m kv =
     (let kv1 = kv_set_slot i (slot_of_message (kv_nextSlotEpoch kv) m) (kv\<lparr>kv_nextSlotEpoch := kv_nextSlotEpoch kv + 1\<rparr>);
          occupied = length (filter sl_occupied (kv_slots kv1)); st = kv_stats kv1
      in kv1\<lparr>kv_stats := st\<lparr>kst_managerLoads := kst_managerLoads st + 1,
           kst_managerBytes := kst_managerBytes st + 2 * unat (msg_bytes m),
           kst_maxSlots := kst_maxSlots st + occupied\<rparr>\<rparr>)"

definition addAttentionKvSubscriber :: "nat \<Rightarrow> GroupCtrlMsg \<Rightarrow> nat \<Rightarrow> GcKv \<Rightarrow> GcKv" where
  "addAttentionKvSubscriber i m w kv =
     (let sl = kv_slots kv ! i; st = kv_stats kv;
          sub = \<lparr>sub_present = True, sub_requestId = msg_reqSeq m, sub_generation = msg_generation m,
                 sub_kDstAddr = msg_kDstAddr m, sub_vDstAddr = msg_vDstAddr m\<rparr>
      in kv_set_slot i (sl\<lparr>sl_speculative := False, sl_subscribers := (sl_subscribers sl)[w := sub],
             sl_requestedMask := sl_requestedMask sl OR slot_bit w\<rparr>)
           (if sl_speculative sl then kv\<lparr>kv_stats := st\<lparr>kst_lookaheadHits := kst_lookaheadHits st + 1\<rparr>\<rparr> else kv))"

section \<open>DMA of a tile\<close>

definition kv_scratch :: "GcConfig \<Rightarrow> nat \<Rightarrow> bool \<Rightarrow> u64" where
  "kv_scratch c i v = cf_gmBaseAddr c + cf_kvScratchOffset c + of_nat i * 2 * ucast (cf_kvTileBytes c) +
     (if v then ucast (cf_kvTileBytes c) else 0)"

text \<open>One iteration of the loop of \<open>issueAttentionKvDma\<close>: the rows it takes and their addresses.\<close>

definition dma_rows :: "KvSlot \<Rightarrow> u32 \<Rightarrow> u32" where
  "dma_rows sl issued =
     (let globalRow = sl_physicalKvTileIndex sl * sl_kvTileRows sl + issued
      in min (sl_tileRows sl - issued) (sl_rowsPerBand sl - globalRow mod sl_rowsPerBand sl))"

definition dma_chunk :: "KvSlot \<Rightarrow> u64 \<Rightarrow> u64 \<Rightarrow> u32 \<Rightarrow> u64 \<times> nat \<times> u64" where
  "dma_chunk sl tensorBase scratchBase issued =
     (let globalRow = sl_physicalKvTileIndex sl * sl_kvTileRows sl + issued;
          nodeBand = globalRow div sl_rowsPerBand sl; rowInBand = globalRow mod sl_rowsPerBand sl;
          rowBytes = ucast (sl_headDim sl) * 4 :: u64
      in (tensorBase + ucast nodeBand * sl_nodeStrideBytes sl + ucast rowInBand * rowBytes,
          unat (ucast (dma_rows sl issued) * rowBytes),
          scratchBase + ucast issued * rowBytes))"

lemma dma_rows_progress:
  assumes "0 < sl_rowsPerBand sl" "issued < sl_tileRows sl"
  shows "0 < dma_rows sl issued" "issued < issued + dma_rows sl issued"
    "issued + dma_rows sl issued \<le> sl_tileRows sl"
proof -
  let ?g = "(sl_physicalKvTileIndex sl * sl_kvTileRows sl + issued) mod sl_rowsPerBand sl"
  have g: "?g < sl_rowsPerBand sl" using assms(1) by (rule word_mod_less_divisor)
  have "0 < sl_rowsPerBand sl - ?g" "0 < sl_tileRows sl - issued"
    using g assms(2) by (auto simp: word_less_nat_alt unat_sub less_imp_le)
  then show pos: "0 < dma_rows sl issued" by (simp add: dma_rows_def Let_def)
  have le: "dma_rows sl issued \<le> sl_tileRows sl - issued" by (simp add: dma_rows_def Let_def)
  then have n: "unat (dma_rows sl issued) \<le> unat (sl_tileRows sl) - unat issued"
    by (simp add: word_le_nat_alt unat_sub [OF less_imp_le [OF assms(2)]])
  have lt: "unat issued < unat (sl_tileRows sl)" using assms(2) by (simp add: word_less_nat_alt)
  have "unat (sl_tileRows sl) < 2 ^ 32" using unsigned_less [of "sl_tileRows sl"] by simp
  then have sum: "unat (issued + dma_rows sl issued) = unat issued + unat (dma_rows sl issued)"
    using n lt by (subst unat_add_lem [THEN iffD1]) simp_all
  have "0 < unat (dma_rows sl issued)" using pos by (simp add: word_less_nat_alt)
  with sum n lt show "issued < issued + dma_rows sl issued" "issued + dma_rows sl issued \<le> sl_tileRows sl"
    by (simp_all add: word_less_nat_alt word_le_nat_alt)
qed

text \<open>The loop of \<open>issueAttentionKvDma\<close>; a zero \<open>rowsPerBand\<close> is the division by zero of the source.\<close>

function dma_chunks :: "KvSlot \<Rightarrow> u64 \<Rightarrow> u64 \<Rightarrow> u32 \<Rightarrow> (u64 \<times> nat \<times> u64) list option" where
  "dma_chunks sl tensorBase scratchBase issued =
     (if \<not> issued < sl_tileRows sl then Some []
      else if sl_rowsPerBand sl = 0 then None
      else map_option (Cons (dma_chunk sl tensorBase scratchBase issued))
             (dma_chunks sl tensorBase scratchBase (issued + dma_rows sl issued)))"
  by pat_completeness auto
termination
proof (relation "measure (\<lambda>(sl, tb, sb, issued). unat (sl_tileRows sl) - unat issued)", goal_cases)
  case (2 sl tb sb issued)
  then have "0 < sl_rowsPerBand sl" "issued < sl_tileRows sl" by (simp_all add: word_gt_0)
  from dma_rows_progress [OF this] this(2) show ?case by (simp add: word_less_nat_alt diff_less_mono2)
qed simp

declare dma_chunks.simps [simp del]

definition issueAttentionKvDma :: "GcConfig \<Rightarrow> nat \<Rightarrow> bool \<Rightarrow> GcKv \<Rightarrow> GcKv option" where
  "issueAttentionKvDma c i v kv =
     (let sl = kv_slots kv ! i in
      do { chunks \<leftarrow> dma_chunks sl (if v then sl_vAddr sl else sl_kAddr sl) (kv_scratch c i v) 0;
           Some (kv_set_slot i
             (if v then sl\<lparr>sl_vLoadsPending := sl_vLoadsPending sl + length chunks\<rparr>
              else sl\<lparr>sl_kLoadsPending := sl_kLoadsPending sl + length chunks\<rparr>)
             (kv\<lparr>kv_out := kv_out kv @ map (\<lambda>(src, n, dst). KvDma src n dst i (sl_epoch sl) v) chunks\<rparr>)) })"

section \<open>Delivery\<close>

definition kv_delivery :: "GcConfig \<Rightarrow> nat \<Rightarrow> KvSlot \<Rightarrow> GroupCtrlMsg" where
  "kv_delivery c w sl = (let sub = sl_subscribers sl ! w in
     (GroupCtrlMsg_of ATTENTION_KV_DELIVERY)\<lparr>msg_groupId := ucast (cf_groupId c), msg_workerSlot := of_nat w,
       msg_reqSeq := sub_requestId sub, msg_generation := sub_generation sub,
       msg_kDstAddr := sub_kDstAddr sub, msg_vDstAddr := sub_vDstAddr sub,
       msg_status := (if sl_failed sl then 0 else 1),
       msg_kData := (if sl_failed sl then [] else sl_kData sl),
       msg_vData := (if sl_failed sl then [] else sl_vData sl)\<rparr>)"

definition deliverOne :: "GcConfig \<Rightarrow> nat \<Rightarrow> nat \<Rightarrow> GcKv \<Rightarrow> GcKv" where
  "deliverOne c i w kv =
     (let sl = kv_slots kv ! i; st = kv_stats kv in
      if \<not> sub_present (sl_subscribers sl ! w) \<or> sl_deliveredMask sl AND slot_bit w \<noteq> 0 then kv
      else kv_set_slot i (sl\<lparr>sl_deliveredMask := sl_deliveredMask sl OR slot_bit w\<rparr>)
             ((kv_send c w (kv_delivery c w sl) kv)
               \<lparr>kv_stats := st\<lparr>kst_deliveries := kst_deliveries st + 1,
                  kst_deliveryBytes := kst_deliveryBytes st +
                    (if sl_failed sl then 0 else length (sl_kData sl) + length (sl_vData sl))\<rparr>\<rparr>))"

definition slot_ready :: "KvSlot \<Rightarrow> bool" where
  "slot_ready sl \<longleftrightarrow> sl_failed sl \<or>
     length (sl_kData sl) = unat (sl_bytes sl) \<and> length (sl_vData sl) = unat (sl_bytes sl)"

definition deliverAttentionKvSlot :: "GcConfig \<Rightarrow> nat \<Rightarrow> GcKv \<Rightarrow> GcKv" where
  "deliverAttentionKvSlot c i kv =
     (if length (kv_slots kv) \<le> i then kv
      else if \<not> sl_occupied (kv_slots kv ! i) \<or> \<not> slot_ready (kv_slots kv ! i) then kv
      else fold (deliverOne c i) [0..<4] kv)"

section \<open>Requests\<close>

definition kv_failure :: "GroupCtrlMsg \<Rightarrow> GroupCtrlMsg" where
  "kv_failure m = (GroupCtrlMsg_of ATTENTION_KV_DELIVERY)\<lparr>msg_reqSeq := msg_reqSeq m,
     msg_generation := msg_generation m, msg_status := 0\<rparr>"

definition slot_compatible :: "GroupCtrlMsg \<Rightarrow> KvSlot \<Rightarrow> bool" where
  "slot_compatible m sl \<longleftrightarrow> sl_bytes sl = msg_bytes m \<and> sl_kvTileRows sl = msg_kvTileRows m \<and>
     sl_numKvTiles sl = msg_numKvTiles m \<and> sl_kvLength sl = msg_kvLength m \<and> sl_tileRows sl = msg_tileRows m \<and>
     sl_rowsPerBand sl = msg_rowsPerBand m \<and> sl_headDim sl = msg_headDim m \<and>
     sl_nodeStrideBytes sl = msg_nodeStrideBytes m \<and> sl_kAddr sl = msg_kAddr m \<and> sl_vAddr sl = msg_vAddr m"

definition kv_request_invalid :: "GcConfig \<Rightarrow> GroupCtrlMsg \<Rightarrow> nat \<Rightarrow> bool" where
  "kv_request_invalid c m w \<longleftrightarrow> \<not> cf_kvEnable c \<or> cf_role c \<noteq> MANAGER \<or> 4 \<le> w \<or> msg_generation m = 0 \<or>
     msg_bytes m = 0 \<or> msg_numKvTiles m = 0 \<or> msg_kvLength m = 0 \<or> msg_numKvTiles m \<le> msg_kvTileIndex m \<or>
     cf_kvTileBytes c < msg_bytes m"

definition handleAttentionKvRequest :: "GcConfig \<Rightarrow> GroupCtrlMsg \<Rightarrow> nat \<Rightarrow> GcKv \<Rightarrow> GcKv option" where
  "handleAttentionKvRequest c m w kv =
     (if kv_request_invalid c m w then Some (kv_send c w (kv_failure m) kv)
      else case findAttentionKvSlot m kv of
        Some i \<Rightarrow>
          (let sl = kv_slots kv ! i; st = kv_stats kv in
           if \<not> slot_compatible m sl \<or> sub_present (sl_subscribers sl ! w)
           then Some (kv_send c w (kv_failure m) kv)
           else Some (deliverAttentionKvSlot c i (addAttentionKvSubscriber i m w
                  (kv\<lparr>kv_stats := st\<lparr>kst_coalesced := kst_coalesced st + 1\<rparr>\<rparr>))))
      | None \<Rightarrow>
          (case findFreeAttentionKvSlot kv of
             None \<Rightarrow>
               (let st = kv_stats kv in
                if cf_queueDepth c \<le> length (kv_pendingRequests kv) then Some (kv_send c w (kv_failure m) kv)
                else Some (kv\<lparr>kv_pendingRequests := kv_pendingRequests kv @
                       [\<lparr>pk_workerSlot = w, pk_requestId = msg_reqSeq m, pk_request = attentionKvRequestFromMessage m\<rparr>],
                     kv_stats := st\<lparr>kst_slotStalls := kst_slotStalls st + 1\<rparr>\<rparr>))
           | Some i \<Rightarrow>
               do { kv1 \<leftarrow> issueAttentionKvDma c i False
                            (addAttentionKvSubscriber i m w (startAttentionKvSlot i m kv));
                    issueAttentionKvDma c i True kv1 }))"

text \<open>The message \<open>processPendingAttentionKvRequests\<close> rebuilds from a waiting request.\<close>

definition pending_message :: "PendingKvRequest \<Rightarrow> GroupCtrlMsg" where
  "pending_message p = fillAttentionKvMessage (pk_request p) ((GroupCtrlMsg_of ATTENTION_KV_REQUEST)
     \<lparr>msg_reqSeq := pk_requestId p, msg_bytes := kvr_tileRows (pk_request p) * kvr_headDim (pk_request p) * 4\<rparr>)"

section \<open>Pending list frames\<close>

lemma kv_frame [simp]:
  "kv_pendingRequests (kv_set_slot i sl kv) = kv_pendingRequests kv"
  "kv_pendingRequests (kv_send c w m kv) = kv_pendingRequests kv"
  "length (kv_slots (kv_set_slot i sl kv)) = length (kv_slots kv)"
  "kv_slots (kv_send c w m kv) = kv_slots kv"
  "kv_out (kv_set_slot i sl kv) = kv_out kv"
  by (simp_all add: kv_set_slot_def kv_send_def)

lemma deliverOne_pending [simp]: "kv_pendingRequests (deliverOne c i w kv) = kv_pendingRequests kv"
  by (simp add: deliverOne_def Let_def)

lemma fold_deliver_pending [simp]: "kv_pendingRequests (fold (deliverOne c i) ws kv) = kv_pendingRequests kv"
  by (induction ws arbitrary: kv) simp_all

lemma deliver_pending [simp]: "kv_pendingRequests (deliverAttentionKvSlot c i kv) = kv_pendingRequests kv"
  by (simp add: deliverAttentionKvSlot_def)

lemma start_add_pending [simp]:
  "kv_pendingRequests (startAttentionKvSlot i m kv) = kv_pendingRequests kv"
  "kv_pendingRequests (addAttentionKvSubscriber i m w kv) = kv_pendingRequests kv"
  by (simp_all add: startAttentionKvSlot_def addAttentionKvSubscriber_def Let_def)

lemma issue_pending: "issueAttentionKvDma c i v kv = Some kv' \<Longrightarrow> kv_pendingRequests kv' = kv_pendingRequests kv"
  by (auto simp: issueAttentionKvDma_def Let_def split: bind_splits)

text \<open>A request that finds a slot is not queued.\<close>

lemma handle_pending:
  assumes "handleAttentionKvRequest c m w kv = Some kv'"
    and "\<not> (findAttentionKvSlot m kv = None \<and> findFreeAttentionKvSlot kv = None)"
  shows "kv_pendingRequests kv' = kv_pendingRequests kv"
  using assms
  by (auto simp: handleAttentionKvRequest_def Let_def dest!: issue_pending
      split: if_splits option.splits bind_splits)

lemma find_slot_cong:
  "kv_slots kv = kv_slots kv' \<Longrightarrow> findAttentionKvSlot m kv = findAttentionKvSlot m kv'"
  "kv_slots kv = kv_slots kv' \<Longrightarrow> findFreeAttentionKvSlot kv = findFreeAttentionKvSlot kv'"
  by (simp_all add: findAttentionKvSlot_def findFreeAttentionKvSlot_def)

function processPendingAttentionKvRequests :: "GcConfig \<Rightarrow> GcKv \<Rightarrow> GcKv option" where
  "processPendingAttentionKvRequests c kv =
     (if kv_pendingRequests kv = [] then Some kv
      else
        (let p = hd (kv_pendingRequests kv); m = pending_message p in
         if findAttentionKvSlot m kv = None \<and> findFreeAttentionKvSlot kv = None then Some kv
         else case handleAttentionKvRequest c m (pk_workerSlot p)
                     (kv\<lparr>kv_pendingRequests := tl (kv_pendingRequests kv)\<rparr>) of
                None \<Rightarrow> None
              | Some kv' \<Rightarrow> processPendingAttentionKvRequests c kv'))"
  by pat_completeness auto
termination
proof (relation "measure (\<lambda>(c, kv). length (kv_pendingRequests kv))", goal_cases)
  case (2 c kv p m kv')
  have "kv_pendingRequests kv' = kv_pendingRequests (kv\<lparr>kv_pendingRequests := tl (kv_pendingRequests kv)\<rparr>)"
    using 2 find_slot_cong [of kv "kv\<lparr>kv_pendingRequests := tl (kv_pendingRequests kv)\<rparr>"]
    by (intro handle_pending) auto
  with 2 show ?case by simp
qed simp

declare processPendingAttentionKvRequests.simps [simp del]

section \<open>Release and lookahead\<close>

definition farthestOrdinal :: "KvSlot \<Rightarrow> KvSlot list \<Rightarrow> u32" where
  "farthestOrdinal released sls =
     fold (\<lambda>sl far. if sl_occupied sl \<and> sl_jobTag sl = sl_jobTag released \<and>
                       sl_queryGroup sl = sl_queryGroup released \<and> sl_numKvTiles sl = sl_numKvTiles released
                    then max far (sl_kvTileIndex sl) else far) sls (sl_kvTileIndex released)"

definition lookahead_message :: "KvSlot \<Rightarrow> u32 \<Rightarrow> u32 \<Rightarrow> u32 \<Rightarrow> GroupCtrlMsg" where
  "lookahead_message released nextOrdinal nextTile tileRows = (GroupCtrlMsg_of ATTENTION_KV_REQUEST)
     \<lparr>msg_generation := sl_generation released, msg_jobTag := sl_jobTag released,
      msg_queryGroup := sl_queryGroup released, msg_kvTileIndex := nextOrdinal,
      msg_physicalKvTileIndex := nextTile, msg_numKvTiles := sl_numKvTiles released,
      msg_kvLength := sl_kvLength released, msg_kvTileRows := sl_kvTileRows released,
      msg_tileRows := tileRows, msg_rowsPerBand := sl_rowsPerBand released, msg_headDim := sl_headDim released,
      msg_nodeStrideBytes := sl_nodeStrideBytes released, msg_kAddr := sl_kAddr released,
      msg_vAddr := sl_vAddr released, msg_bytes := tileRows * sl_headDim released * 4\<rparr>"

definition maybeStartAttentionKvLookahead :: "GcConfig \<Rightarrow> KvSlot \<Rightarrow> GcKv \<Rightarrow> GcKv option" where
  "maybeStartAttentionKvLookahead c released kv =
     (if \<not> cf_kvLookahead c \<or> cf_role c \<noteq> MANAGER \<or> sl_failed released \<or> sl_numKvTiles released = 0 \<or>
         sl_kvLength released = 0 \<or> kv_pendingRequests kv \<noteq> [] then Some kv
      else case findFreeAttentionKvSlot kv of None \<Rightarrow> Some kv
      | Some i \<Rightarrow>
        (let nextOrdinal = farthestOrdinal released (kv_slots kv) + 1 in
         if sl_numKvTiles released \<le> nextOrdinal then Some kv
         else
           (let ordinalDelta = nextOrdinal - sl_kvTileIndex released;
                nextTile = (sl_physicalKvTileIndex released + ordinalDelta) mod sl_numKvTiles released;
                firstRow = ucast nextTile * ucast (sl_kvTileRows released) :: u64
            in if ucast (sl_kvLength released) \<le> firstRow then Some kv
               else
                 (let tileRows = ucast (min (ucast (sl_kvTileRows released)) (ucast (sl_kvLength released) - firstRow)) :: u32;
                      kv1 = startAttentionKvSlot i (lookahead_message released nextOrdinal nextTile tileRows) kv;
                      st = kv_stats kv1;
                      kv2 = kv_set_slot i ((kv_slots kv1 ! i)\<lparr>sl_speculative := True\<rparr>)
                              (kv1\<lparr>kv_stats := st\<lparr>kst_lookaheadLoads := kst_lookaheadLoads st + 1\<rparr>\<rparr>)
                  in do { kv3 \<leftarrow> issueAttentionKvDma c i False kv2; issueAttentionKvDma c i True kv3 }))))"

definition expectedMask :: "GcConfig \<Rightarrow> u8" where
  "expectedMask c = push_bit (cf_kvExpectedWorkers c) 1 - 1"

definition slot_releasable :: "GcConfig \<Rightarrow> KvSlot \<Rightarrow> bool" where
  "slot_releasable c sl \<longleftrightarrow>
     \<not> ((sl_requestedMask sl OR sl_cancelledMask sl) AND expectedMask c \<noteq> expectedMask c \<or>
        (sl_completedMask sl OR sl_cancelledMask sl) AND expectedMask c \<noteq> expectedMask c)"

definition maybeReleaseAttentionKvSlot :: "GcConfig \<Rightarrow> nat \<Rightarrow> bool \<Rightarrow> GcKv \<Rightarrow> GcKv option" where
  "maybeReleaseAttentionKvSlot c i allowLookahead kv =
     (if length (kv_slots kv) \<le> i \<or> \<not> sl_occupied (kv_slots kv ! i) then Some kv
      else if \<not> slot_releasable c (kv_slots kv ! i) then Some kv
      else do { kv1 \<leftarrow> processPendingAttentionKvRequests c (kv_set_slot i sl_init kv);
                if allowLookahead then maybeStartAttentionKvLookahead c (kv_slots kv ! i) kv1 else Some kv1 })"

section \<open>Filling a slot\<close>

text \<open>
  \<open>pumpAttentionKvManagerRead\<close> reads the scratch tile in pieces of at most the request limit of
  the local memory, first K and then V; the call it makes to itself switches to V, so it is
  made at most once.
\<close>

function pumpAttentionKvManagerRead :: "GcConfig \<Rightarrow> nat \<Rightarrow> nat \<Rightarrow> GcKv \<Rightarrow> GcKv option" where
  "pumpAttentionKvManagerRead c now i kv =
     (if length (kv_slots kv) \<le> i then Some kv
      else
        (let sl = kv_slots kv ! i in
         if \<not> sl_occupied sl \<or> sl_failed sl \<or> sl_readInflight sl \<or> sl_kLoadsPending sl \<noteq> 0 \<or> sl_vLoadsPending sl \<noteq> 0
         then Some kv
         else if sl_readOffset sl = unat (sl_bytes sl) then
           (if \<not> sl_readingV sl
            then pumpAttentionKvManagerRead c now i (kv_set_slot i (sl\<lparr>sl_readingV := True, sl_readOffset := 0\<rparr>) kv)
            else Some (deliverAttentionKvSlot c i kv))
         else
           (let chunk = min (sub64 (unat (sl_bytes sl)) (sl_readOffset sl)) (gl_maxRequestBytes (kv_mem kv));
                source = kv_scratch c i (sl_readingV sl) + of_nat (sl_readOffset sl);
                tag = kv_nextLocalTag kv
            in do { (accepted, mem) \<leftarrow> localReadAsync now source chunk LmControl tag (KvReadCb i (sl_epoch sl) tag) (kv_mem kv);
                    Some (kv_set_slot i (sl\<lparr>sl_readInflight := accepted\<rparr>)
                       (kv\<lparr>kv_nextLocalTag := tag + 1, kv_mem := mem\<rparr>)) })))"
  by pat_completeness auto
termination
  by (relation "measure (\<lambda>(c, now, i, kv). if sl_readingV (kv_slots kv ! i) then 0 else 1)")
    (auto simp: kv_set_slot_def)

declare pumpAttentionKvManagerRead.simps [simp del]

definition completeAttentionKvDma :: "GcConfig \<Rightarrow> nat \<Rightarrow> nat \<Rightarrow> nat \<Rightarrow> bool \<Rightarrow> bool \<Rightarrow> GcKv \<Rightarrow> GcKv option" where
  "completeAttentionKvDma c now i epoch v ok kv =
     (if length (kv_slots kv) \<le> i then Some kv
      else
        (let sl = kv_slots kv ! i in
         if \<not> sl_occupied sl \<or> sl_epoch sl \<noteq> epoch then Some kv
         else if (if v then sl_vLoadsPending sl else sl_kLoadsPending sl) = 0 then Some kv
         else
           (let sl1 = sl\<lparr>sl_failed := sl_failed sl \<or> \<not> ok\<rparr>;
                sl2 = (if v then sl1\<lparr>sl_vLoadsPending := sl_vLoadsPending sl1 - 1\<rparr>
                       else sl1\<lparr>sl_kLoadsPending := sl_kLoadsPending sl1 - 1\<rparr>);
                kv1 = kv_set_slot i sl2 kv
            in if sl_kLoadsPending sl2 = 0 \<and> sl_vLoadsPending sl2 = 0 then
                 (if sl_failed sl2 then Some (deliverAttentionKvSlot c i kv1)
                  else pumpAttentionKvManagerRead c now i kv1)
               else Some kv1)))"

text \<open>The callback of the local read.\<close>

definition kvReadCallback :: "GcConfig \<Rightarrow> nat \<Rightarrow> nat \<Rightarrow> nat \<Rightarrow> u64 \<Rightarrow> bool \<Rightarrow> u64 \<Rightarrow> u8 list \<Rightarrow> GcKv \<Rightarrow> GcKv option" where
  "kvReadCallback c now i epoch tag ok callbackTag bytes kv =
     (if length (kv_slots kv) \<le> i then Some kv
      else
        (let sl = kv_slots kv ! i in
         if \<not> sl_occupied sl \<or> sl_epoch sl \<noteq> epoch then Some kv
         else
           (let sl1 = sl\<lparr>sl_readInflight := False\<rparr> in
            if \<not> ok \<or> callbackTag \<noteq> tag \<or> bytes = []
            then Some (deliverAttentionKvSlot c i (kv_set_slot i (sl1\<lparr>sl_failed := True\<rparr>) kv))
            else
              (let sl2 = (if sl_readingV sl1 then sl1\<lparr>sl_vData := sl_vData sl1 @ bytes\<rparr>
                          else sl1\<lparr>sl_kData := sl_kData sl1 @ bytes\<rparr>);
                   sl3 = sl2\<lparr>sl_readOffset := sl_readOffset sl2 + length bytes\<rparr>
               in pumpAttentionKvManagerRead c now i (kv_set_slot i sl3 kv)))))"

section \<open>Acknowledgements and cancellation\<close>

definition ack_matches :: "GroupCtrlMsg \<Rightarrow> nat \<Rightarrow> KvSlot \<Rightarrow> bool" where
  "ack_matches m w sl \<longleftrightarrow> \<not> (\<not> sl_occupied sl \<or> \<not> sub_present (sl_subscribers sl ! w) \<or>
     sub_requestId (sl_subscribers sl ! w) \<noteq> msg_reqSeq m \<or> sub_generation (sl_subscribers sl ! w) \<noteq> msg_generation m)"

definition handleAttentionKvAck :: "GcConfig \<Rightarrow> GroupCtrlMsg \<Rightarrow> nat \<Rightarrow> GcKv \<Rightarrow> GcKv option" where
  "handleAttentionKvAck c m w kv =
     (if \<not> cf_kvEnable c \<or> cf_role c \<noteq> MANAGER \<or> 4 \<le> w then Some kv
      else case find (\<lambda>i. ack_matches m w (kv_slots kv ! i)) [0..<length (kv_slots kv)] of
        None \<Rightarrow> Some kv
      | Some i \<Rightarrow>
          (let sl = kv_slots kv ! i in
           maybeReleaseAttentionKvSlot c i True
             (kv_set_slot i (sl\<lparr>sl_completedMask := sl_completedMask sl OR slot_bit w\<rparr>) kv)))"

text \<open>One iteration of the slot loop of \<open>handleAttentionKvCancel\<close>; the counter is \<open>cancelled\<close>.\<close>

definition cancelSlot :: "GcConfig \<Rightarrow> GroupCtrlMsg \<Rightarrow> nat \<Rightarrow> nat \<Rightarrow> nat \<times> GcKv \<Rightarrow> (nat \<times> GcKv) option" where
  "cancelSlot c m w i st =
     (case st of (cancelled, kv) \<Rightarrow>
        (let sl = kv_slots kv ! i; sub = sl_subscribers sl ! w in
         if \<not> sl_occupied sl \<or> sl_generation sl \<noteq> msg_generation m then Some (cancelled, kv)
         else if sub_present sub \<and> sub_generation sub = msg_generation m
         then map_option (Pair (cancelled + 1)) (maybeReleaseAttentionKvSlot c i False
                (kv_set_slot i (sl\<lparr>sl_completedMask := sl_completedMask sl OR slot_bit w\<rparr>) kv))
         else map_option (Pair cancelled) (maybeReleaseAttentionKvSlot c i False
                (kv_set_slot i (sl\<lparr>sl_cancelledMask := sl_cancelledMask sl OR slot_bit w\<rparr>) kv))))"

fun cancelSlots :: "GcConfig \<Rightarrow> GroupCtrlMsg \<Rightarrow> nat \<Rightarrow> nat list \<Rightarrow> nat \<times> GcKv \<Rightarrow> (nat \<times> GcKv) option" where
  "cancelSlots c m w [] st = Some st"
| "cancelSlots c m w (i # is) st = do { st' \<leftarrow> cancelSlot c m w i st; cancelSlots c m w is st' }"

definition cancel_matches :: "GroupCtrlMsg \<Rightarrow> nat \<Rightarrow> PendingKvRequest \<Rightarrow> bool" where
  "cancel_matches m w p \<longleftrightarrow> pk_workerSlot p = w \<and> kvr_generation (pk_request p) = msg_generation m"

definition handleAttentionKvCancel :: "GcConfig \<Rightarrow> GroupCtrlMsg \<Rightarrow> nat \<Rightarrow> GcKv \<Rightarrow> GcKv option" where
  "handleAttentionKvCancel c m w kv =
     (if \<not> cf_kvEnable c \<or> cf_role c \<noteq> MANAGER \<or> 4 \<le> w \<or> msg_generation m = 0 then Some kv
      else
        do { (cancelled, kv1) \<leftarrow> cancelSlots c m w [0..<length (kv_slots kv)] (0, kv);
             let erased = filter (cancel_matches m w) (kv_pendingRequests kv1);
             let kept = filter (\<lambda>p. \<not> cancel_matches m w p) (kv_pendingRequests kv1);
             let st = kv_stats kv1;
             Some (kv1\<lparr>kv_pendingRequests := kept,
                kv_stats := st\<lparr>kst_cancels := kst_cancels st + (cancelled + length erased)\<rparr>\<rparr>) })"

text \<open>The manager's part of \<open>tick\<close>.\<close>

fun pumpSlots :: "GcConfig \<Rightarrow> nat \<Rightarrow> nat list \<Rightarrow> GcKv \<Rightarrow> GcKv option" where
  "pumpSlots c now [] kv = Some kv"
| "pumpSlots c now (i # is) kv = do { kv' \<leftarrow> pumpAttentionKvManagerRead c now i kv; pumpSlots c now is kv' }"

definition managerTick :: "GcConfig \<Rightarrow> nat \<Rightarrow> GcKv \<Rightarrow> GcKv option" where
  "managerTick c now kv =
     (if cf_kvEnable c then pumpSlots c now [0..<length (kv_slots kv)] kv else Some kv)"

end
