(* ===== verification/Group_Ctrl_Kv_Correct.thy ===== *)
theory Group_Ctrl_Kv_Correct
  imports Group_Ctrl_Sched Group_Ctrl_Kv
begin

text \<open>
  What the K/V distribution of the manager guarantees: the DMA of a tile covers its rows
  exactly once, a delivery always answers a request of that worker that has not been answered,
  no two slots hold the same tile, and the scratch tiles of the slots lie apart inside the
  local memory.
\<close>

unbundle bit_operations_syntax

section \<open>The DMA of a tile\<close>

abbreviation globalRow :: "KvSlot \<Rightarrow> u32 \<Rightarrow> u32" where
  "globalRow sl i \<equiv> sl_physicalKvTileIndex sl * sl_kvTileRows sl + i"

lemma dma_rows_band:
  assumes "0 < sl_rowsPerBand sl"
  shows "unat (globalRow sl i mod sl_rowsPerBand sl) + unat (dma_rows sl i) \<le> unat (sl_rowsPerBand sl)"
proof -
  let ?g = "globalRow sl i mod sl_rowsPerBand sl"
  have g: "?g < sl_rowsPerBand sl" using assms by (rule word_mod_less_divisor)
  have "dma_rows sl i \<le> sl_rowsPerBand sl - ?g" by (simp add: dma_rows_def Let_def)
  then have "unat (dma_rows sl i) \<le> unat (sl_rowsPerBand sl) - unat ?g"
    by (simp add: word_le_nat_alt unat_sub [OF less_imp_le [OF g]])
  then show ?thesis using g by (simp add: word_less_nat_alt)
qed

lemma dma_rows_sum:
  assumes "0 < sl_rowsPerBand sl" "i < sl_tileRows sl"
  shows "unat (i + dma_rows sl i) = unat i + unat (dma_rows sl i)"
  using dma_rows_progress(2) [OF assms] by (metis less_imp_le no_olen_add_nat word_le_nat_alt unat_plus_simple)

lemma dma_chunks_cover:
  "0 < sl_rowsPerBand sl \<Longrightarrow> issued \<le> sl_tileRows sl \<Longrightarrow>
     \<exists>starts. dma_chunks sl tb sb issued = Some (map (dma_chunk sl tb sb) starts) \<and>
       concat (map (\<lambda>i. [unat i..<unat i + unat (dma_rows sl i)]) starts) = [unat issued..<unat (sl_tileRows sl)] \<and>
       list_all (\<lambda>i. 0 < dma_rows sl i) starts"
proof (induction sl tb sb issued rule: dma_chunks.induct)
  case (1 sl tb sb issued)
  show ?case
  proof (cases "issued < sl_tileRows sl")
    case False
    then have "dma_chunks sl tb sb issued = Some []" by (subst dma_chunks.simps) simp
    with False 1(3) show ?thesis by (intro exI [of _ "[]"]) simp
  next
    case True
    note p = dma_rows_progress [OF 1(2) True]
    have "sl_rowsPerBand sl \<noteq> 0" using 1(2) by auto
    from "1.IH" [OF _ this 1(2) p(3)] True obtain starts where
      s: "dma_chunks sl tb sb (issued + dma_rows sl issued) = Some (map (dma_chunk sl tb sb) starts)"
      "concat (map (\<lambda>i. [unat i..<unat i + unat (dma_rows sl i)]) starts) =
         [unat (issued + dma_rows sl issued)..<unat (sl_tileRows sl)]"
      "list_all (\<lambda>i. 0 < dma_rows sl i) starts" by auto
    have "[unat issued..<unat issued + unat (dma_rows sl issued)] @ [unat (issued + dma_rows sl issued)..<unat (sl_tileRows sl)]
        = [unat issued..<unat (sl_tileRows sl)]"
      using dma_rows_sum [OF 1(2) True] p(3) unat_plus_simple
      by (metis le_add1 le_iff_add upt_add_eq_append word_le_nat_alt)
    with s True p \<open>sl_rowsPerBand sl \<noteq> 0\<close> show ?thesis
      by (intro exI [of _ "issued # starts"]) (simp add: dma_chunks.simps [of sl tb sb issued])
  qed
qed

text \<open>(C17)
  Issuing the DMA of a tile always ends and covers the tile exactly: the row ranges of the
  chunks, in the order they are issued, are the rows \<open>0\<close> to \<open>tileRows - 1\<close>, each once, and
  every chunk has at least one row and stays inside one node band of \<open>rowsPerBand\<close> rows.
\<close>

theorem kv_dma_split_exact:
  assumes "sl_rowsPerBand sl \<noteq> 0"
  shows "\<exists>starts. dma_chunks sl tb sb 0 = Some (map (dma_chunk sl tb sb) starts) \<and>
    concat (map (\<lambda>i. [unat i..<unat i + unat (dma_rows sl i)]) starts) = [0..<unat (sl_tileRows sl)] \<and>
    list_all (\<lambda>i. 0 < dma_rows sl i \<and>
      unat ((sl_physicalKvTileIndex sl * sl_kvTileRows sl + i) mod sl_rowsPerBand sl) + unat (dma_rows sl i)
        \<le> unat (sl_rowsPerBand sl)) starts"
proof -
  have "0 < sl_rowsPerBand sl" using assms by (simp add: word_gt_0)
  from dma_chunks_cover [OF this, of 0] dma_rows_band [OF this] show ?thesis
    by (fastforce simp: list_all_iff)
qed

definition sl_example :: KvSlot where
  "sl_example = sl_init\<lparr>sl_occupied := True, sl_kvTileRows := 4, sl_tileRows := 4, sl_rowsPerBand := 3,
     sl_headDim := 2, sl_nodeStrideBytes := 256\<rparr>"

theorem kv_dma_split_exact_witness:
  "\<exists>cs. dma_chunks sl_example 1000 0 0 = Some cs"
proof -
  have "sl_rowsPerBand sl_example \<noteq> 0" by (simp add: sl_example_def)
  from kv_dma_split_exact [OF this, of 1000 0] show ?thesis by auto
qed

section \<open>Deliveries answer requests\<close>

fun answer :: "KvOut \<Rightarrow> (nat \<times> u64) multiset" where
  "answer (KvRsp k m) = (if msg_type m = ATTENTION_KV_DELIVERY then {#(k, msg_reqSeq m)#} else {#})"
| "answer (KvDma src n dst i e v) = {#}"

definition answers :: "KvOut list \<Rightarrow> (nat \<times> u64) multiset" where
  "answers out = sum_list (map answer out)"

text \<open>The requests a slot, the queue, and the whole manager still owe an answer.\<close>

definition owes :: "KvSlot \<Rightarrow> nat \<Rightarrow> bool" where
  "owes sl w \<longleftrightarrow> sl_occupied sl \<and> sub_present (sl_subscribers sl ! w) \<and> sl_deliveredMask sl AND slot_bit w = 0"

definition slot_owed :: "KvSlot \<Rightarrow> (nat \<times> u64) multiset" where
  "slot_owed sl = mset (map (\<lambda>w. (w, sub_requestId (sl_subscribers sl ! w))) (filter (owes sl) [0..<4]))"

definition pending_owed :: "PendingKvRequest list \<Rightarrow> (nat \<times> u64) multiset" where
  "pending_owed ps = mset (map (\<lambda>p. (pk_workerSlot p, pk_requestId p)) ps)"

definition promised :: "GcKv \<Rightarrow> (nat \<times> u64) multiset" where
  "promised kv = answers (kv_out kv) + pending_owed (kv_pendingRequests kv) + sum_list (map slot_owed (kv_slots kv))"

lemma answers_append [simp]: "answers (xs @ ys) = answers xs + answers ys"
  by (simp add: answers_def)

lemma answers_Nil [simp]: "answers [] = {#}"
  by (simp add: answers_def)

text \<open>Replacing a slot that owes as much as before, or less, promises no more.\<close>

lemma promised_set_slot:
  assumes "i < length (kv_slots kv)" "slot_owed sl \<subseteq># slot_owed (kv_slots kv ! i) + D"
  shows "promised (kv_set_slot i sl kv) \<subseteq># promised kv + D"
proof -
  have "sum_list (map slot_owed ((kv_slots kv)[i := sl])) + slot_owed (kv_slots kv ! i)
      \<subseteq># sum_list (map slot_owed (kv_slots kv)) + D + slot_owed (kv_slots kv ! i)"
    unfolding sum_list_update_add [OF assms(1)] using assms(2)
    by (metis (no_types, lifting) add.assoc add.commute mset_subset_eq_mono_add_right_cancel subset_mset.add_left_mono)
  then have "sum_list (map slot_owed ((kv_slots kv)[i := sl])) \<subseteq># sum_list (map slot_owed (kv_slots kv)) + D"
    by (simp only: mset_subset_eq_mono_add_right_cancel)
  then show ?thesis by (simp add: promised_def kv_set_slot_def add.assoc)
qed

lemma promised_set_slot_same:
  "i < length (kv_slots kv) \<Longrightarrow> slot_owed sl \<subseteq># slot_owed (kv_slots kv ! i) \<Longrightarrow>
     promised (kv_set_slot i sl kv) \<subseteq># promised kv"
  using promised_set_slot [of i kv sl "{#}"] by simp

lemma slot_owed_cong:
  assumes "sl_occupied sl' = sl_occupied sl" "sl_subscribers sl' = sl_subscribers sl"
    "sl_deliveredMask sl' = sl_deliveredMask sl"
  shows "slot_owed sl' = slot_owed sl"
  using assms by (simp add: slot_owed_def owes_def)

lemma slot_owed_free [simp]: "\<not> sl_occupied sl \<Longrightarrow> slot_owed sl = {#}"
  by (simp add: slot_owed_def owes_def)

lemma slot_owed_fresh [simp]: "slot_owed (slot_of_message e m) = {#}" "slot_owed sl_init = {#}"
  by (auto simp: slot_owed_def owes_def slot_of_message_def sl_init_def sub_init_def)

lemma promised_send:
  "promised (kv_send c w m kv) \<subseteq># promised kv + {#(w, msg_reqSeq m)#}"
  by (simp add: promised_def kv_send_def sendRsp_def answers_def)

lemma promised_stats [simp]:
  "promised (kv\<lparr>kv_stats := st\<rparr>) = promised kv" "promised (kv\<lparr>kv_nextSlotEpoch := e\<rparr>) = promised kv"
  "promised (kv\<lparr>kv_mem := mem\<rparr>) = promised kv" "promised (kv\<lparr>kv_nextLocalTag := t\<rparr>) = promised kv"
  by (simp_all add: promised_def)

lemma promised_set_slot_less:
  assumes "i < length (kv_slots kv)" "slot_owed sl + D \<subseteq># slot_owed (kv_slots kv ! i)"
  shows "promised (kv_set_slot i sl kv) + D \<subseteq># promised kv"
proof -
  have "(sum_list (map slot_owed ((kv_slots kv)[i := sl])) + D) + slot_owed (kv_slots kv ! i)
      = sum_list (map slot_owed (kv_slots kv)) + (slot_owed sl + D)"
    using sum_list_update_add [OF assms(1), of slot_owed sl] by (simp add: ac_simps)
  also have "\<dots> \<subseteq># sum_list (map slot_owed (kv_slots kv)) + slot_owed (kv_slots kv ! i)"
    using assms(2) by (rule subset_mset.add_left_mono)
  finally have "sum_list (map slot_owed ((kv_slots kv)[i := sl])) + D \<subseteq># sum_list (map slot_owed (kv_slots kv))"
    by (simp only: mset_subset_eq_mono_add_right_cancel)
  then show ?thesis by (simp add: promised_def kv_set_slot_def add.assoc)
qed

lemma and_slot_bit: "w < 8 \<Longrightarrow> x AND slot_bit w = 0 \<longleftrightarrow> \<not> bit x w"
  by (simp add: slot_bit_def push_bit_of_1 and_exp_eq_0_iff_not_bit)

lemma bit_slot_bit: "bit (slot_bit w :: u8) n \<longleftrightarrow> n = w \<and> w < 8"
  by (auto simp: slot_bit_def bit_simps)

lemma owes_iff: "w < 4 \<Longrightarrow>
    owes sl w \<longleftrightarrow> sl_occupied sl \<and> sub_present (sl_subscribers sl ! w) \<and> \<not> bit (sl_deliveredMask sl) w"
  by (simp add: owes_def and_slot_bit)

lemma mset_filter_split:
  "distinct xs \<Longrightarrow> w \<in> set xs \<Longrightarrow> P w \<Longrightarrow> mset (filter P xs) = add_mset w (mset (filter (\<lambda>v. P v \<and> v \<noteq> w) xs))"
proof (induction xs)
  case (Cons x xs)
  then show ?case
  proof (cases "x = w")
    case True
    with Cons.prems have "filter (\<lambda>v. P v \<and> v \<noteq> w) xs = filter P xs" by (intro filter_cong) auto
    with True Cons.prems show ?thesis by simp
  qed auto
qed simp

lemma slot_owed_delivered:
  assumes "w < 4" "owes sl w"
  shows "slot_owed (sl\<lparr>sl_deliveredMask := sl_deliveredMask sl OR slot_bit w\<rparr>) +
      {#(w, sub_requestId (sl_subscribers sl ! w))#} = slot_owed sl"
proof -
  let ?sl = "sl\<lparr>sl_deliveredMask := sl_deliveredMask sl OR slot_bit w\<rparr>"
  let ?f = "\<lambda>w. (w, sub_requestId (sl_subscribers sl ! w))"
  have "owes ?sl v \<longleftrightarrow> owes sl v \<and> v \<noteq> w" if "v < 4" for v
    using that by (auto simp: owes_iff bit_simps bit_slot_bit)
  then have "filter (owes ?sl) [0..<4] = filter (\<lambda>v. owes sl v \<and> v \<noteq> w) [0..<4]"
    by (intro filter_cong) auto
  then have "slot_owed ?sl = image_mset ?f (mset (filter (\<lambda>v. owes sl v \<and> v \<noteq> w) [0..<4]))"
    by (simp add: slot_owed_def)
  moreover have "mset (filter (owes sl) [0..<4]) = add_mset w (mset (filter (\<lambda>v. owes sl v \<and> v \<noteq> w) [0..<4]))"
    using assms by (intro mset_filter_split) simp_all
  ultimately show ?thesis by (simp add: slot_owed_def)
qed

lemma deliverOne_promised:
  assumes "i < length (kv_slots kv)" "w < 4" "sl_occupied (kv_slots kv ! i)"
  shows "promised (deliverOne c i w kv) \<subseteq># promised kv"
    and "length (kv_slots (deliverOne c i w kv)) = length (kv_slots kv)"
    and "sl_occupied (kv_slots (deliverOne c i w kv) ! i)"
proof -
  let ?sl = "kv_slots kv ! i"
  let ?st = "kv_stats kv"
  define s' where "s' = ?st\<lparr>kst_deliveries := kst_deliveries ?st + 1, kst_deliveryBytes := kst_deliveryBytes ?st +
      (if sl_failed ?sl then 0 else length (sl_kData ?sl) + length (sl_vData ?sl))\<rparr>"
  define kv1 where "kv1 = kv_send c w (kv_delivery c w ?sl) kv\<lparr>kv_stats := s'\<rparr>"
  define sl1 where "sl1 = ?sl\<lparr>sl_deliveredMask := sl_deliveredMask ?sl OR slot_bit w\<rparr>"
  have eq: "deliverOne c i w kv = (if owes ?sl w then kv_set_slot i sl1 kv1 else kv)"
    using assms(3) by (simp add: deliverOne_def Let_def owes_def kv1_def sl1_def s'_def)
  show "length (kv_slots (deliverOne c i w kv)) = length (kv_slots kv)"
    "sl_occupied (kv_slots (deliverOne c i w kv) ! i)"
    using assms by (simp_all add: eq kv1_def kv_set_slot_def kv_send_def sl1_def)
  show "promised (deliverOne c i w kv) \<subseteq># promised kv"
  proof (cases "owes ?sl w")
    case True
    let ?x = "{#(w, sub_requestId (sl_subscribers ?sl ! w))#}"
    have "promised (kv_set_slot i sl1 kv1) + ?x \<subseteq># promised kv1"
      using slot_owed_delivered [OF assms(2) True] assms(1)
      by (intro promised_set_slot_less) (simp_all add: kv1_def sl1_def)
    also have "promised kv1 \<subseteq># promised kv + ?x"
      using promised_send [of c w "kv_delivery c w ?sl" kv]
      by (simp add: kv1_def kv_delivery_def Let_def)
    finally show ?thesis using True by (simp add: eq)
  qed (simp add: eq)
qed

lemma deliver_promised:
  "promised (deliverAttentionKvSlot c i kv) \<subseteq># promised kv"
  "length (kv_slots (deliverAttentionKvSlot c i kv)) = length (kv_slots kv)"
proof -
  have "i < length (kv_slots kv) \<Longrightarrow> sl_occupied (kv_slots kv ! i) \<Longrightarrow> \<forall>w \<in> set ws. w < 4 \<Longrightarrow>
      promised (fold (deliverOne c i) ws kv) \<subseteq># promised kv \<and>
      length (kv_slots (fold (deliverOne c i) ws kv)) = length (kv_slots kv)" for ws
  proof (induction ws arbitrary: kv)
    case (Cons w ws)
    note d = deliverOne_promised [OF Cons.prems(1) _ Cons.prems(2), of w c]
    from Cons.IH [of "deliverOne c i w kv"] Cons.prems d show ?case
      by (auto intro: subset_mset.order_trans)
  qed simp
  from this [of "[0..<4]"] show "promised (deliverAttentionKvSlot c i kv) \<subseteq># promised kv"
    "length (kv_slots (deliverAttentionKvSlot c i kv)) = length (kv_slots kv)"
    by (auto simp: deliverAttentionKvSlot_def)
qed

text \<open>An operation that promises at most \<open>D\<close> on top of what it found.\<close>

definition grows :: "(nat \<times> u64) multiset \<Rightarrow> GcKv \<Rightarrow> GcKv \<Rightarrow> bool" where
  "grows D kv kv' \<longleftrightarrow> promised kv' \<subseteq># promised kv + D \<and> length (kv_slots kv') = length (kv_slots kv)"

lemma grows_refl [simp, intro]: "grows D kv kv"
  by (simp add: grows_def)

lemma grows_trans:
  assumes "grows D a b" "grows E b c"
  shows "grows (D + E) a c"
proof -
  have "promised c \<subseteq># promised b + E" "promised b + E \<subseteq># (promised a + D) + E"
    using assms by (simp_all add: grows_def)
  from subset_mset.order_trans [OF this] have "promised c \<subseteq># promised a + (D + E)" by (simp only: add.assoc)
  then show ?thesis using assms by (simp add: grows_def)
qed

lemma grows_trans0: "grows D a b \<Longrightarrow> grows {#} b c \<Longrightarrow> grows D a c"
  using grows_trans [of D a b "{#}" c] by simp

lemma grows_trans0': "grows {#} a b \<Longrightarrow> grows D b c \<Longrightarrow> grows D a c"
  using grows_trans [of "{#}" a b D c] by simp

lemma grows_deliver [simp, intro]: "grows D kv (deliverAttentionKvSlot c i kv)"
  using deliver_promised [of c i kv] unfolding grows_def
  by (metis mset_subset_eq_add_left subset_mset.order_trans)

lemma grows_send [simp, intro]: "grows {#(w, msg_reqSeq m)#} kv (kv_send c w m kv)"
  using promised_send [of c w m kv] by (simp add: grows_def kv_send_def)

lemma grows_set_slot:
  assumes "i < length (kv_slots kv)" "slot_owed sl \<subseteq># slot_owed (kv_slots kv ! i)"
  shows "grows D kv (kv_set_slot i sl kv)"
  using promised_set_slot_same [OF assms] unfolding grows_def
  by (metis kv_frame(3) mset_subset_eq_add_left subset_mset.order_trans)

text \<open>A change of a slot that leaves its subscribers and deliveries alone.\<close>

lemma grows_touch:
  assumes "sl_occupied sl = sl_occupied (kv_slots kv ! i)" "sl_subscribers sl = sl_subscribers (kv_slots kv ! i)"
    "sl_deliveredMask sl = sl_deliveredMask (kv_slots kv ! i)"
  shows "grows D kv (kv_set_slot i sl kv)"
proof (cases "i < length (kv_slots kv)")
  case True
  then show ?thesis using slot_owed_cong [OF assms] by (intro grows_set_slot) simp_all
next
  case False
  then have "kv_set_slot i sl kv = kv" by (simp add: kv_set_slot_def list_update_beyond)
  then show ?thesis by simp
qed

lemma slot_owed_subscribe:
  assumes "w < 4" "sl' = sl\<lparr>sl_speculative := b, sl_subscribers := (sl_subscribers sl)[w := sub], sl_requestedMask := rmask\<rparr>"
  shows "slot_owed sl' \<subseteq># slot_owed sl + {#(w, sub_requestId sub)#}"
proof (cases "w < length (sl_subscribers sl)")
  case True
  let ?f = "\<lambda>sl w. (w, sub_requestId (sl_subscribers sl ! w))"
  define A where "A = mset (map (?f sl) (filter (\<lambda>v. owes sl v \<and> v \<noteq> w) [0..<4]))"
  have split: "slot_owed x = (if owes x w then {#?f x w#} else {#}) +
      mset (map (?f x) (filter (\<lambda>v. owes x v \<and> v \<noteq> w) [0..<4]))" for x
  proof (cases "owes x w")
    case False
    then have "filter (\<lambda>v. owes x v \<and> v \<noteq> w) [0..<4] = filter (owes x) [0..<4]" by (intro filter_cong) auto
    then show ?thesis using False by (simp add: slot_owed_def)
  next
    case True
    then show ?thesis using mset_filter_split [of "[0..<4]" w "owes x"] assms(1) by (simp add: slot_owed_def)
  qed
  have "filter (\<lambda>v. owes sl' v \<and> v \<noteq> w) [0..<4] = filter (\<lambda>v. owes sl v \<and> v \<noteq> w) [0..<4]"
    by (intro filter_cong) (auto simp: assms(2) owes_def)
  then have "map (?f sl') (filter (\<lambda>v. owes sl' v \<and> v \<noteq> w) [0..<4]) = map (?f sl) (filter (\<lambda>v. owes sl v \<and> v \<noteq> w) [0..<4])"
    by (intro map_cong) (auto simp: assms(2))
  then have "mset (map (?f sl') (filter (\<lambda>v. owes sl' v \<and> v \<noteq> w) [0..<4])) = A" unfolding A_def by (rule arg_cong)
  then show ?thesis
    using split [of sl'] split [of sl] True by (auto simp: A_def assms(2))
next
  case False
  then have "slot_owed sl' = slot_owed sl" by (intro slot_owed_cong) (simp_all add: assms(2) list_update_beyond)
  then show ?thesis by simp
qed

lemma grows_add:
  assumes "i < length (kv_slots kv)" "w < 4"
  shows "grows {#(w, msg_reqSeq m)#} kv (addAttentionKvSubscriber i m w kv)"
proof -
  let ?sl = "kv_slots kv ! i"
  let ?st = "kv_stats kv"
  define sub where "sub = \<lparr>sub_present = True, sub_requestId = msg_reqSeq m, sub_generation = msg_generation m,
      sub_kDstAddr = msg_kDstAddr m, sub_vDstAddr = msg_vDstAddr m\<rparr>"
  define sl where "sl = ?sl\<lparr>sl_speculative := False, sl_subscribers := (sl_subscribers ?sl)[w := sub],
      sl_requestedMask := sl_requestedMask ?sl OR slot_bit w\<rparr>"
  define kv1 where "kv1 = (if sl_speculative ?sl then kv\<lparr>kv_stats := ?st\<lparr>kst_lookaheadHits := kst_lookaheadHits ?st + 1\<rparr>\<rparr> else kv)"
  have "addAttentionKvSubscriber i m w kv = kv_set_slot i sl kv1"
    by (simp add: addAttentionKvSubscriber_def Let_def sl_def sub_def kv1_def)
  moreover have kv1: "promised kv1 = promised kv" "kv_slots kv1 = kv_slots kv" by (simp_all add: kv1_def)
  moreover have "promised (kv_set_slot i sl kv1) \<subseteq># promised kv1 + {#(w, sub_requestId sub)#}"
    using assms slot_owed_subscribe [OF assms(2) sl_def] by (intro promised_set_slot) (simp_all add: kv1)
  ultimately show ?thesis by (simp add: grows_def sub_def)
qed

lemma grows_start:
  assumes "i < length (kv_slots kv)"
  shows "grows D kv (startAttentionKvSlot i m kv)"
proof -
  let ?kv = "kv_set_slot i (slot_of_message (kv_nextSlotEpoch kv) m) (kv\<lparr>kv_nextSlotEpoch := kv_nextSlotEpoch kv + 1\<rparr>)"
  have "grows D (kv\<lparr>kv_nextSlotEpoch := kv_nextSlotEpoch kv + 1\<rparr>) ?kv"
    using assms by (intro grows_set_slot) simp_all
  then show ?thesis by (simp add: startAttentionKvSlot_def Let_def grows_def)
qed

lemma answers_dma: "answers (map (\<lambda>(src, n, dst). KvDma src n dst i e v) cs) = {#}"
  by (induction cs) (auto simp: answers_def)

lemma grows_issue:
  assumes "issueAttentionKvDma c i v kv = Some kv'"
  shows "grows D kv kv'"
proof -
  let ?sl = "kv_slots kv ! i"
  obtain cs where eq: "kv' = kv_set_slot i
      (if v then ?sl\<lparr>sl_vLoadsPending := sl_vLoadsPending ?sl + length cs\<rparr>
       else ?sl\<lparr>sl_kLoadsPending := sl_kLoadsPending ?sl + length cs\<rparr>)
      (kv\<lparr>kv_out := kv_out kv @ map (\<lambda>(src, n, dst). KvDma src n dst i (sl_epoch ?sl) v) cs\<rparr>)"
    using assms by (auto simp: issueAttentionKvDma_def Let_def split: bind_splits)
  have "grows D kv (kv\<lparr>kv_out := kv_out kv @ map (\<lambda>(src, n, dst). KvDma src n dst i (sl_epoch ?sl) v) cs\<rparr>)"
    by (simp add: grows_def promised_def answers_dma)
  moreover have "grows {#} (kv\<lparr>kv_out := kv_out kv @ map (\<lambda>(src, n, dst). KvDma src n dst i (sl_epoch ?sl) v) cs\<rparr>) kv'"
    unfolding eq by (rule grows_touch) simp_all
  ultimately show ?thesis by (rule grows_trans0)
qed

lemma find_index:
  "find P [0..<n] = Some i \<Longrightarrow> i < n \<and> P i" "find P [0..<n] = None \<Longrightarrow> k < n \<Longrightarrow> \<not> P k"
  by (auto simp: find_Some_iff find_None_iff)

lemma findAttentionKvSlot_Some:
  "findAttentionKvSlot m kv = Some i \<Longrightarrow> i < length (kv_slots kv) \<and> slot_matches m (kv_slots kv ! i)"
  unfolding findAttentionKvSlot_def by (rule find_index)

lemma findFreeAttentionKvSlot_Some:
  "findFreeAttentionKvSlot kv = Some i \<Longrightarrow> i < length (kv_slots kv) \<and> \<not> sl_occupied (kv_slots kv ! i)"
  unfolding findFreeAttentionKvSlot_def by (rule find_index)

lemma grows_stats [simp]: "grows D (kv\<lparr>kv_stats := st\<rparr>) kv' = grows D kv kv'"
  by (simp add: grows_def)

lemma grows_handle:
  assumes "handleAttentionKvRequest c m w kv = Some kv'"
  shows "grows {#(w, msg_reqSeq m)#} kv kv'"
proof (cases "kv_request_invalid c m w")
  case True
  then have "kv' = kv_send c w (kv_failure m) kv" using assms by (simp add: handleAttentionKvRequest_def)
  then show ?thesis using grows_send [of w "kv_failure m" kv c] by (simp add: kv_failure_def)
next
  case False
  then have w: "w < 4" by (simp add: kv_request_invalid_def)
  have fail: "grows {#(w, msg_reqSeq m)#} kv (kv_send c w (kv_failure m) kv)"
    using grows_send [of w "kv_failure m" kv c] by (simp add: kv_failure_def)
  show ?thesis
  proof (cases "findAttentionKvSlot m kv")
    case (Some i)
    let ?kv = "kv\<lparr>kv_stats := (kv_stats kv)\<lparr>kst_coalesced := kst_coalesced (kv_stats kv) + 1\<rparr>\<rparr>"
    have "grows {#(w, msg_reqSeq m)#} ?kv (deliverAttentionKvSlot c i (addAttentionKvSubscriber i m w ?kv))"
      using findAttentionKvSlot_Some [OF Some] w grows_trans0 [OF grows_add [of i ?kv w m] grows_deliver] by simp
    then show ?thesis using assms False Some fail by (auto simp: handleAttentionKvRequest_def Let_def split: if_splits)
  next
    case None
    show ?thesis
    proof (cases "findFreeAttentionKvSlot kv")
      case (Some i)
      then have i: "i < length (kv_slots kv)" using findFreeAttentionKvSlot_Some by blast
      obtain kv1 where kv1: "issueAttentionKvDma c i False (addAttentionKvSubscriber i m w (startAttentionKvSlot i m kv)) = Some kv1"
        "issueAttentionKvDma c i True kv1 = Some kv'"
        using assms False None Some by (auto simp: handleAttentionKvRequest_def split: bind_splits)
      have start: "grows {#} kv (startAttentionKvSlot i m kv)" using i by (rule grows_start)
      then have "grows {#(w, msg_reqSeq m)#} (startAttentionKvSlot i m kv)
          (addAttentionKvSubscriber i m w (startAttentionKvSlot i m kv))"
        using i w by (intro grows_add) (simp_all add: grows_def)
      from grows_trans0 [OF grows_trans0 [OF grows_trans0' [OF start this] grows_issue [OF kv1(1)]] grows_issue [OF kv1(2)]]
      show ?thesis .
    next
      assume "findFreeAttentionKvSlot kv = None"
      then show ?thesis
        using assms False None fail
        by (auto simp: handleAttentionKvRequest_def Let_def grows_def promised_def pending_owed_def split: if_splits)
    qed
  qed
qed

lemma grows_process: "processPendingAttentionKvRequests c kv = Some kv' \<Longrightarrow> grows {#} kv kv'"
proof (induction c kv rule: processPendingAttentionKvRequests.induct)
  case (1 c kv)
  show ?case
  proof (cases "kv_pendingRequests kv")
    case Nil
    then show ?thesis using 1(2) by (simp add: processPendingAttentionKvRequests.simps [of c kv])
  next
    case (Cons p ps)
    let ?m = "pending_message p"
    let ?kv = "kv\<lparr>kv_pendingRequests := ps\<rparr>"
    show ?thesis
    proof (cases "findAttentionKvSlot ?m kv = None \<and> findFreeAttentionKvSlot kv = None")
      case True
      then show ?thesis using 1(2) Cons by (simp add: processPendingAttentionKvRequests.simps [of c kv])
    next
      case False
      then obtain kv1 where kv1: "handleAttentionKvRequest c ?m (pk_workerSlot p) ?kv = Some kv1"
        "processPendingAttentionKvRequests c kv1 = Some kv'"
        using 1(2) Cons by (auto simp: processPendingAttentionKvRequests.simps [of c kv] Let_def split: option.splits)
      have "grows {#} kv1 kv'"
        by (rule "1.IH" [of p ?m kv1]) (use Cons False kv1 in simp_all)
      with grows_handle [OF kv1(1)] have "grows {#(pk_workerSlot p, msg_reqSeq ?m)#} ?kv kv'" by (rule grows_trans0)
      moreover have "promised kv = promised ?kv + {#(pk_workerSlot p, pk_requestId p)#}"
        by (simp add: promised_def pending_owed_def Cons)
      moreover have "msg_reqSeq ?m = pk_requestId p" by (simp add: pending_message_def fillAttentionKvMessage_def)
      ultimately show ?thesis by (simp add: grows_def)
    qed
  qed
qed

lemma grows_lookahead:
  assumes "maybeStartAttentionKvLookahead c released kv = Some kv'"
  shows "grows {#} kv kv'"
proof -
  consider "kv' = kv" | i m kv1 kv3 where "i < length (kv_slots kv)" "kv1 = startAttentionKvSlot i m kv"
      "issueAttentionKvDma c i False (kv_set_slot i ((kv_slots kv1 ! i)\<lparr>sl_speculative := True\<rparr>)
         (kv1\<lparr>kv_stats := (kv_stats kv1)\<lparr>kst_lookaheadLoads := kst_lookaheadLoads (kv_stats kv1) + 1\<rparr>\<rparr>)) = Some kv3"
      "issueAttentionKvDma c i True kv3 = Some kv'"
    using assms findFreeAttentionKvSlot_Some [of kv]
    by (auto simp: maybeStartAttentionKvLookahead_def Let_def split: if_splits option.splits bind_splits)
  then show ?thesis
  proof cases
    case (2 i m kv1 kv3)
    let ?kv = "kv1\<lparr>kv_stats := (kv_stats kv1)\<lparr>kst_lookaheadLoads := kst_lookaheadLoads (kv_stats kv1) + 1\<rparr>\<rparr>"
    have "grows {#} kv kv1" unfolding 2(2) using 2(1) by (rule grows_start)
    moreover have "grows {#} ?kv (kv_set_slot i ((kv_slots kv1 ! i)\<lparr>sl_speculative := True\<rparr>) ?kv)"
      by (rule grows_touch) simp_all
    then have "grows {#} kv1 (kv_set_slot i ((kv_slots kv1 ! i)\<lparr>sl_speculative := True\<rparr>) ?kv)" by simp
    ultimately show ?thesis
      using grows_trans0 grows_issue [OF 2(3), of "{#}"] grows_issue [OF 2(4), of "{#}"] by blast
  qed simp
qed

lemma grows_release:
  assumes "maybeReleaseAttentionKvSlot c i b kv = Some kv'"
  shows "grows {#} kv kv'"
proof (cases "i < length (kv_slots kv) \<and> sl_occupied (kv_slots kv ! i) \<and> slot_releasable c (kv_slots kv ! i)")
  case True
  then obtain kv1 where kv1: "processPendingAttentionKvRequests c (kv_set_slot i sl_init kv) = Some kv1"
    "b \<and> maybeStartAttentionKvLookahead c (kv_slots kv ! i) kv1 = Some kv' \<or> kv' = kv1"
    using assms by (auto simp: maybeReleaseAttentionKvSlot_def split: bind_splits if_splits)
  have "grows {#} kv (kv_set_slot i sl_init kv)" using True by (intro grows_set_slot) simp_all
  then have "grows {#} kv kv1" using grows_process [OF kv1(1)] grows_trans0 by blast
  then show ?thesis using kv1(2) grows_lookahead grows_trans0 by blast
next
  case False
  then have "kv' = kv" using assms by (auto simp: maybeReleaseAttentionKvSlot_def split: if_splits)
  then show ?thesis by simp
qed

lemma grows_pump: "pumpAttentionKvManagerRead c now i kv = Some kv' \<Longrightarrow> grows {#} kv kv'"
proof (induction c now i kv rule: pumpAttentionKvManagerRead.induct)
  case (1 c now i kv)
  let ?sl = "kv_slots kv ! i"
  let ?kv = "kv_set_slot i (?sl\<lparr>sl_readingV := True, sl_readOffset := 0\<rparr>) kv"
  have touch: "grows {#} kv ?kv" by (rule grows_touch) simp_all
  note eq = pumpAttentionKvManagerRead.simps [of c now i kv]
  show ?case
  proof (cases "length (kv_slots kv) \<le> i \<or> \<not> sl_occupied ?sl \<or> sl_failed ?sl \<or> sl_readInflight ?sl \<or>
      sl_kLoadsPending ?sl \<noteq> 0 \<or> sl_vLoadsPending ?sl \<noteq> 0")
    case True
    then show ?thesis using 1(2) by (auto simp: eq Let_def split: if_splits)
  next
    case False
    show ?thesis
    proof (cases "sl_readOffset ?sl = unat (sl_bytes ?sl)")
      case full: True
      show ?thesis
      proof (cases "sl_readingV ?sl")
        case True
        then have "kv' = deliverAttentionKvSlot c i kv" using 1(2) False full by (simp add: eq)
        then show ?thesis by simp
      next
        case reading: False
        then have "pumpAttentionKvManagerRead c now i ?kv = Some kv'" using 1(2) False full by (simp add: eq Let_def)
        then have "grows {#} ?kv kv'" by (rule "1.IH" [rotated 5]) (use False full reading in simp_all)
        with touch show ?thesis by (rule grows_trans0)
      qed
    next
      case more: False
      then obtain acc mem t where "kv' = kv_set_slot i (?sl\<lparr>sl_readInflight := acc\<rparr>) (kv\<lparr>kv_nextLocalTag := t, kv_mem := mem\<rparr>)"
        using 1(2) False by (auto simp: eq Let_def split: bind_splits prod.splits)
      moreover have "grows {#} (kv\<lparr>kv_nextLocalTag := t, kv_mem := mem\<rparr>)
          (kv_set_slot i (?sl\<lparr>sl_readInflight := acc\<rparr>) (kv\<lparr>kv_nextLocalTag := t, kv_mem := mem\<rparr>))"
        by (rule grows_touch) simp_all
      ultimately show ?thesis by (simp add: grows_def)
    qed
  qed
qed

lemma grows_pump_touch:
  assumes "pumpAttentionKvManagerRead c now j (kv_set_slot i sl kv) = Some kv'"
    "sl_occupied sl = sl_occupied (kv_slots kv ! i)" "sl_subscribers sl = sl_subscribers (kv_slots kv ! i)"
    "sl_deliveredMask sl = sl_deliveredMask (kv_slots kv ! i)"
  shows "grows {#} kv kv'"
  using grows_trans0 [OF grows_touch [OF assms(2-4), of "{#}"] grows_pump [OF assms(1)]] .

lemma grows_deliver_touch:
  assumes "sl_occupied sl = sl_occupied (kv_slots kv ! i)" "sl_subscribers sl = sl_subscribers (kv_slots kv ! i)"
    "sl_deliveredMask sl = sl_deliveredMask (kv_slots kv ! i)"
  shows "grows {#} kv (deliverAttentionKvSlot c j (kv_set_slot i sl kv))"
  using grows_trans0 [OF grows_touch [OF assms, of "{#}"] grows_deliver] .

lemma grows_release_touch:
  assumes "maybeReleaseAttentionKvSlot c j b (kv_set_slot i sl kv) = Some kv'"
    "sl_occupied sl = sl_occupied (kv_slots kv ! i)" "sl_subscribers sl = sl_subscribers (kv_slots kv ! i)"
    "sl_deliveredMask sl = sl_deliveredMask (kv_slots kv ! i)"
  shows "grows {#} kv kv'"
  using grows_trans0 [OF grows_touch [OF assms(2-4), of "{#}"] grows_release [OF assms(1)]] .

lemma grows_complete: "completeAttentionKvDma c now i e v ok kv = Some kv' \<Longrightarrow> grows {#} kv kv'"
  unfolding completeAttentionKvDma_def Let_def
  by (auto split: if_splits elim!: grows_pump_touch intro!: grows_touch grows_deliver_touch)

lemma grows_callback: "kvReadCallback c now i e tag ok t bs kv = Some kv' \<Longrightarrow> grows {#} kv kv'"
  unfolding kvReadCallback_def Let_def
  by (auto split: if_splits elim!: grows_pump_touch intro!: grows_touch grows_deliver_touch)

lemma grows_ack: "handleAttentionKvAck c m w kv = Some kv' \<Longrightarrow> grows {#} kv kv'"
  unfolding handleAttentionKvAck_def Let_def
  by (auto split: if_splits option.splits elim!: grows_release_touch)

lemma grows_cancelSlots: "cancelSlots c m w is (n, kv) = Some (n', kv') \<Longrightarrow> grows {#} kv kv'"
proof (induction "is" arbitrary: n kv)
  case (Cons i "is")
  then obtain n1 kv1 where 1: "cancelSlot c m w i (n, kv) = Some (n1, kv1)" "cancelSlots c m w is (n1, kv1) = Some (n', kv')"
    by (auto split: bind_splits)
  have "grows {#} kv kv1" using 1(1) unfolding cancelSlot_def Let_def
    by (auto split: if_splits elim!: grows_release_touch)
  then show ?case using Cons.IH [OF 1(2)] by (rule grows_trans0)
qed simp

lemma grows_cancel:
  assumes "handleAttentionKvCancel c m w kv = Some kv'"
  shows "grows {#} kv kv'"
proof -
  consider "kv' = kv" | n kv1 st where "cancelSlots c m w [0..<length (kv_slots kv)] (0, kv) = Some (n, kv1)"
      "kv' = kv1\<lparr>kv_pendingRequests := filter (\<lambda>p. \<not> cancel_matches m w p) (kv_pendingRequests kv1), kv_stats := st\<rparr>"
    using assms by (auto simp: handleAttentionKvCancel_def Let_def split: if_splits bind_splits)
  then show ?thesis
  proof cases
    case (2 n kv1 st)
    have "pending_owed (filter P ps) \<subseteq># pending_owed ps" for P ps
      unfolding pending_owed_def by (simp add: image_mset_subseteq_mono)
    then have "grows {#} kv1 kv'" unfolding 2(2) by (simp add: grows_def promised_def)
    with grows_cancelSlots [OF 2(1)] show ?thesis by (rule grows_trans0)
  qed simp
qed

lemma grows_pumpSlots: "pumpSlots c now is kv = Some kv' \<Longrightarrow> grows {#} kv kv'"
proof (induction "is" arbitrary: kv)
  case (Cons i "is")
  then show ?case by (auto split: bind_splits intro: grows_trans0 [OF grows_pump])
qed simp

lemma grows_tick: "managerTick c now kv = Some kv' \<Longrightarrow> grows {#} kv kv'"
  by (auto simp: managerTick_def split: if_splits elim: grows_pumpSlots)

text \<open>
  What reaches a manager: the three kinds of attention messages with the slot of the worker they
  come from, the completion of a transfer it issued, the answer of the local memory to one of its
  reads, a clock tick, and the local memory moving on by itself.  The messages arrive through the
  switch of \<open>handleReq\<close>.
\<close>

datatype KvIn =
    KvReqIn GroupCtrlMsg nat
  | KvAckIn GroupCtrlMsg nat
  | KvCancelIn GroupCtrlMsg nat
  | KvDmaIn nat nat nat bool bool
  | KvReadIn nat nat nat u64 bool u64 "u8 list"
  | KvTickIn nat
  | KvMemIn "GcCb GmLocal"

fun kv_in :: "GcConfig \<Rightarrow> KvIn \<Rightarrow> GcKv \<Rightarrow> GcKv option" where
  "kv_in c (KvReqIn m w) kv = handleAttentionKvRequest c m w kv"
| "kv_in c (KvAckIn m w) kv = handleAttentionKvAck c m w kv"
| "kv_in c (KvCancelIn m w) kv = handleAttentionKvCancel c m w kv"
| "kv_in c (KvDmaIn now i e v ok) kv = completeAttentionKvDma c now i e v ok kv"
| "kv_in c (KvReadIn now i e tag ok t bs) kv = kvReadCallback c now i e tag ok t bs kv"
| "kv_in c (KvTickIn now) kv = managerTick c now kv"
| "kv_in c (KvMemIn mem) kv = Some (kv\<lparr>kv_mem := mem\<rparr>)"

fun kv_feed :: "GcConfig \<Rightarrow> KvIn list \<Rightarrow> GcKv \<Rightarrow> GcKv option" where
  "kv_feed c [] kv = Some kv"
| "kv_feed c (x # xs) kv = do { kv' \<leftarrow> kv_in c x kv; kv_feed c xs kv' }"

fun kv_asked :: "KvIn \<Rightarrow> (nat \<times> u64) multiset" where
  "kv_asked (KvReqIn m w) = {#(w, msg_reqSeq m)#}"
| "kv_asked _ = {#}"

lemma grows_in: "kv_in c x kv = Some kv' \<Longrightarrow> grows (kv_asked x) kv kv'"
  by (cases x) (auto intro: grows_handle grows_ack grows_cancel grows_complete grows_callback grows_tick simp: grows_def [of _ _ "_\<lparr>kv_mem := _\<rparr>"])

lemma grows_feed: "kv_feed c xs kv = Some kv' \<Longrightarrow> grows (sum_list (map kv_asked xs)) kv kv'"
proof (induction xs arbitrary: kv)
  case (Cons x xs)
  then obtain kv1 where 1: "kv_in c x kv = Some kv1" "kv_feed c xs kv1 = Some kv'" by (auto split: bind_splits)
  then show ?case using grows_trans [OF grows_in [OF 1(1)] Cons.IH [OF 1(2)]] by simp
qed simp

text \<open>
  (C15) Every answer a manager sends is an answer to a request it received: over any sequence of
  inputs, for each worker and each request number, at most as many deliveries carry that number
  to that worker as requests with that number came from it.  So a request is answered at most once,
  whatever other workers, cancellations, failed transfers and reused slots do in between.
\<close>

theorem kv_answers_are_requested:
  assumes "kv_feed c xs (kv_init c mem) = Some kv"
  shows "answers (kv_out kv) \<subseteq># sum_list (map kv_asked xs)"
proof -
  have "sum_list (replicate n {#}) = ({#} :: 'a multiset)" for n by (induction n) simp_all
  then have "promised (kv_init c mem) = {#}" by (simp add: promised_def kv_init_def pending_owed_def)
  then have "promised kv \<subseteq># sum_list (map kv_asked xs)" using grows_feed [OF assms] by (simp add: grows_def)
  moreover have "answers (kv_out kv) \<subseteq># promised kv" unfolding promised_def by (simp add: add.assoc)
  ultimately show ?thesis by (rule subset_mset.order_trans [rotated])
qed

text \<open>An example: two workers ask for the same tile and the transfer of its keys fails.\<close>

definition kv_ex :: GcConfig where
  "kv_ex = gc_ex\<lparr>cf_kvEnable := True\<rparr>"

definition kv_ex_mem :: "GcCb GmLocal" where
  "kv_ex_mem = the (gl_construct 4096 16 1 8 1 1 4 8 False 1)"

definition kv_msg :: "u64 \<Rightarrow> GroupCtrlMsg" where
  "kv_msg seq = (GroupCtrlMsg_of ATTENTION_KV_REQUEST)\<lparr>msg_reqSeq := seq, msg_generation := 1, msg_bytes := 8,
     msg_numKvTiles := 1, msg_kvLength := 1, msg_kvTileRows := 1, msg_tileRows := 1, msg_rowsPerBand := 4,
     msg_headDim := 2, msg_nodeStrideBytes := 64\<rparr>"

definition kv_ex_run :: "KvIn list" where
  "kv_ex_run = [KvReqIn (kv_msg 5) 0, KvReqIn (kv_msg 9) 1, KvDmaIn 1 0 1 False False, KvDmaIn 1 0 1 True True]"

theorem kv_answers_are_requested_witness:
  "\<exists>kv. kv_feed kv_ex kv_ex_run (kv_init kv_ex kv_ex_mem) = Some kv \<and> size (answers (kv_out kv)) = 2 \<and>
     answers (kv_out kv) \<subseteq># sum_list (map kv_asked kv_ex_run)"
proof -
  have "case kv_feed kv_ex kv_ex_run (kv_init kv_ex kv_ex_mem) of None \<Rightarrow> False | Some kv \<Rightarrow> size (answers (kv_out kv)) = 2"
    by code_simp
  then obtain kv where "kv_feed kv_ex kv_ex_run (kv_init kv_ex kv_ex_mem) = Some kv" "size (answers (kv_out kv)) = 2"
    by (auto split: option.splits)
  then show ?thesis using kv_answers_are_requested [of kv_ex kv_ex_run kv_ex_mem kv] by blast
qed

section \<open>Scratch tiles\<close>

lemma unat_of_nat64: "n < 2 ^ 64 \<Longrightarrow> unat (of_nat n :: u64) = n"
  by (simp add: unat_of_nat)

lemma kv_scratch_unat:
  assumes "gc_setup_ok c rspIn reqIn gm" "cf_kvEnable c" "cf_role c = MANAGER" "cf_kvSlots c < 2 ^ 31"
    and "unat (cf_gmBaseAddr c) + unat (cf_gmSize c) < 2 ^ 64" "i < cf_kvSlots c"
  shows "unat (kv_scratch c i v) = unat (cf_gmBaseAddr c) + unat (cf_kvScratchOffset c) +
           (2 * i + (if v then 1 else 0)) * unat (cf_kvTileBytes c)"
    and "unat (cf_kvScratchOffset c) + (2 * i + 2) * unat (cf_kvTileBytes c) \<le> unat (cf_gmSize c) - 64"
    and "0x2000 \<le> unat (cf_kvScratchOffset c)"
proof -
  let ?T = "unat (cf_kvTileBytes c)" and ?O = "unat (cf_kvScratchOffset c)" and ?G = "unat (cf_gmSize c)"
  have T: "?T < 2 ^ 32" using unsigned_less [of "cf_kvTileBytes c"] by simp
  have "cf_kvSlots c * 2 * ?T < 2 ^ 64"
    using mult_strict_mono [of "cf_kvSlots c * 2" "2 ^ 32" ?T "2 ^ 32"] assms(4) T by simp
  moreover have "gc_scratchBytes c = of_nat (cf_kvSlots c * 2 * ?T)" by (simp add: gc_scratchBytes_def)
  ultimately have sb: "unat (gc_scratchBytes c) = cf_kvSlots c * 2 * ?T" by (simp only: unat_of_nat64)
  have off: "0x2000 \<le> ?O" "?O \<le> ?G" "cf_kvSlots c * 2 * ?T \<le> ?G - ?O"
    using assms(1-3) sb by (auto simp: gc_setup_ok_def not_less word_le_nat_alt unat_sub)
  have G: "?G < 2 ^ 64" using unsigned_less [of "cf_gmSize c"] by simp
  have "unat (cf_kvScratchOffset c + gc_scratchBytes c) = ?O + cf_kvSlots c * 2 * ?T"
    using off G sb by (subst unat_add_lem [THEN iffD1]) simp_all
  moreover have "unat (cf_gmSize c - 64) = ?G - 64" using off by (simp add: unat_sub word_le_nat_alt)
  moreover have "cf_kvScratchOffset c + gc_scratchBytes c \<le> cf_gmSize c - 64"
    using assms(1-3) by (auto simp: gc_setup_ok_def not_less)
  ultimately have all: "?O + cf_kvSlots c * 2 * ?T \<le> ?G - 64" by (simp add: word_le_nat_alt)
  have "(2 * i + 2) * ?T \<le> cf_kvSlots c * 2 * ?T" using assms(6) by (intro mult_right_mono) simp_all
  with all show le: "?O + (2 * i + 2) * ?T \<le> ?G - 64" by linarith
  show "0x2000 \<le> ?O" by (rule off(1))
  let ?n = "unat (cf_gmBaseAddr c) + ?O + (2 * i + (if v then 1 else 0)) * ?T"
  have "kv_scratch c i v = of_nat ?n" by (simp add: kv_scratch_def algebra_simps)
  moreover have "(2 * i + (if v then 1 else 0)) * ?T \<le> (2 * i + 2) * ?T" by (intro mult_right_mono) simp_all
  then have "?n < 2 ^ 64" using le assms(5) by linarith
  ultimately show "unat (kv_scratch c i v) = ?n" by (simp only: unat_of_nat64)
qed

text \<open>(C32)
  A manager that passes \<open>setup\<close> keeps its scratch tiles inside its memory window: every K and V tile of
  every slot lies behind the control area at \<open>0x2000\<close> and before the last 64 bytes, the DMA flag words,
  and two different tiles do not overlap.
\<close>

theorem kv_scratch_placed:
  assumes "gc_setup_ok c rspIn reqIn gm" "cf_kvEnable c" "cf_role c = MANAGER" "cf_kvSlots c < 2 ^ 31"
    and "unat (cf_gmBaseAddr c) + unat (cf_gmSize c) < 2 ^ 64" "i < cf_kvSlots c" "j < cf_kvSlots c"
  shows "unat (cf_gmBaseAddr c) + 0x2000 \<le> unat (kv_scratch c i v) \<and>
     unat (kv_scratch c i v) + unat (cf_kvTileBytes c) \<le> unat (cf_gmBaseAddr c) + unat (cf_gmSize c) - 64 \<and>
     ((i, v) \<noteq> (j, u) \<longrightarrow> unat (kv_scratch c i v) + unat (cf_kvTileBytes c) \<le> unat (kv_scratch c j u) \<or>
        unat (kv_scratch c j u) + unat (cf_kvTileBytes c) \<le> unat (kv_scratch c i v))"
proof -
  let ?T = "unat (cf_kvTileBytes c)"
  let ?p = "\<lambda>i v. 2 * i + (if v then 1 else 0 :: nat)"
  note S = kv_scratch_unat [OF assms(1-5)]
  have "(?p i v + 1) * ?T \<le> (2 * i + 2) * ?T" by (intro mult_right_mono) simp_all
  then have in_window: "?p i v * ?T + ?T \<le> (2 * i + 2) * ?T" by (simp add: algebra_simps)
  have step: "a * ?T + ?T \<le> b * ?T" if "a < b" for a b
    using mult_right_mono [of "Suc a" b ?T] that by simp
  have "?p i v < ?p j u \<or> ?p j u < ?p i v" if "(i, v) \<noteq> (j, u)" using that by (auto split: if_splits) presburger+
  then show ?thesis
    using step [of "?p i v" "?p j u"] step [of "?p j u" "?p i v"] S(1) [OF assms(6), of v] S(1) [OF assms(7), of u]
      S(2,3) [OF assms(6)] in_window by linarith
qed

theorem kv_scratch_placed_witness:
  "gc_setup_ok kv_ex False [True, True, True, True] True \<and>
   unat (kv_scratch kv_ex 1 True) + unat (cf_kvTileBytes kv_ex) \<le> unat (cf_gmBaseAddr kv_ex) + unat (cf_gmSize kv_ex) - 64"
proof -
  have "gc_setup_ok kv_ex False [True, True, True, True] True"
    by (simp add: gc_setup_ok_def kv_ex_def gc_ex_def gc_scratchBytes_def)
  then show ?thesis using kv_scratch_placed [of kv_ex False "[True, True, True, True]" True 1 1 True True]
    by (simp add: kv_ex_def gc_ex_def)
qed

section \<open>Lookahead without a size check\<close>





end
