(* ===== verification/Group_Ctrl_Worker.thy ===== *)
theory Group_Ctrl_Worker
  imports Group_Ctrl_Kv_Correct
begin

text \<open>
  The worker side of \<open>GroupCtrlEndpoint\<close> (\<open>groupctrl/groupctrl.cc\<close>): the mailbox words it shares
  with its core through the local memory, the polling of them in \<open>tick\<close>, the responses of the
  manager in \<open>handleRsp\<close>, and the K/V pairs it asks for, writes into the local memory and
  acknowledges.  The dispatch \<open>handleReq\<close> of the manager joins the scheduler and the K/V slots.

  The callbacks a core passes to \<open>requestAttentionKvPair\<close> are names; calling one is an output.
  A callback that calls back into the endpoint is a further input of the run.
\<close>

section \<open>State\<close>

record WorkerKvCallback =
  wc_requestId :: u64
  wc_generation :: u64
  wc_callback :: nat
  wc_kReadyCallback :: "nat option"
  wc_kReadySent :: bool

record WorkerKvDelivery =
  wd_requestId :: u64
  wd_generation :: u64
  wd_kDstAddr :: u64
  wd_vDstAddr :: u64
  wd_offset :: nat
  wd_writingV :: bool
  wd_inflight :: bool
  wd_kData :: "u8 list"
  wd_vData :: "u8 list"

datatype WkOut =
    WkSend GroupCtrlMsg
  | WkDone nat bool
  | WkKReady nat bool

record GcWorker =
  wk_grantSeq :: u64
  wk_grantWindow :: u8
  wk_groupDone :: bool
  wk_reqSeqSeen :: u64
  wk_doneSeqSeen :: u64
  wk_finishedSeen :: bool
  wk_nextKvRequestId :: u64
  wk_nextKvLocalTag :: u64
  wk_callbacks :: "WorkerKvCallback list"
  wk_deliveries :: "WorkerKvDelivery list"
  wk_statRequests :: nat
  wk_statCancels :: nat
  wk_mem :: "GcCb GmLocal"
  wk_out :: "WkOut list"

definition wk_init :: "GcCb GmLocal \<Rightarrow> GcWorker" where
  "wk_init mem = \<lparr>wk_grantSeq = 0, wk_grantWindow = 0, wk_groupDone = False, wk_reqSeqSeen = 0,
     wk_doneSeqSeen = 0, wk_finishedSeen = False, wk_nextKvRequestId = 1, wk_nextKvLocalTag = 1,
     wk_callbacks = [], wk_deliveries = [], wk_statRequests = 0, wk_statCancels = 0, wk_mem = mem, wk_out = []\<rparr>"

definition wk_emit :: "WkOut \<Rightarrow> GcWorker \<Rightarrow> GcWorker" where
  "wk_emit x s = s\<lparr>wk_out := wk_out s @ [x]\<rparr>"

text \<open>The header every message of a worker starts with.\<close>

definition wk_message :: "GcConfig \<Rightarrow> GroupCtrlMsgType \<Rightarrow> GroupCtrlMsg" where
  "wk_message c t = (GroupCtrlMsg_of t)\<lparr>msg_groupId := ucast (cf_groupId c), msg_workerSlot := of_int (cf_workerSlot c)\<rparr>"

section \<open>Mailbox\<close>

definition mailboxAddr :: "GcConfig \<Rightarrow> u64 \<Rightarrow> u64" where
  "mailboxAddr c off = cf_gmBaseAddr c + CTRL_LOCAL_MAILBOX_BASE + off"

definition readMailbox :: "GcConfig \<Rightarrow> u64 \<Rightarrow> 'a GmStore_scheme \<Rightarrow> u64 option" where
  "readMailbox c off s = ctrlReadLocalU64 (mailboxAddr c off) s"

definition writeMailbox :: "GcConfig \<Rightarrow> u64 \<Rightarrow> u64 \<Rightarrow> 'a GmStore_scheme \<Rightarrow> 'a GmStore_scheme option" where
  "writeMailbox c off v s = ctrlWriteLocalU64 (mailboxAddr c off) v s"

definition readMailboxU32 :: "GcConfig \<Rightarrow> u64 \<Rightarrow> 'a GmStore_scheme \<Rightarrow> u32 option" where
  "readMailboxU32 c off s = map_option (\<lambda>v. ucast (v AND 0xffffffff)) (readMailbox c off s)"

definition writeMailboxU32 :: "GcConfig \<Rightarrow> u64 \<Rightarrow> u32 \<Rightarrow> 'a GmStore_scheme \<Rightarrow> 'a GmStore_scheme option" where
  "writeMailboxU32 c off v s =
     (let baseOff = off AND NOT 7; shift = unat ((off - baseOff) * 8); mask32 = push_bit shift 0xffffffff in
      do { cur \<leftarrow> readMailbox c baseOff s;
           writeMailbox c baseOff ((cur AND NOT mask32) OR push_bit shift (ucast v)) s })"

section \<open>K/V pairs\<close>

definition find_callback :: "u64 \<Rightarrow> GcWorker \<Rightarrow> WorkerKvCallback option" where
  "find_callback rid s = find (\<lambda>x. wc_requestId x = rid) (wk_callbacks s)"

definition find_delivery :: "u64 \<Rightarrow> GcWorker \<Rightarrow> WorkerKvDelivery option" where
  "find_delivery rid s = find (\<lambda>x. wd_requestId x = rid) (wk_deliveries s)"

definition upd_delivery :: "u64 \<Rightarrow> (WorkerKvDelivery \<Rightarrow> WorkerKvDelivery) \<Rightarrow> GcWorker \<Rightarrow> GcWorker" where
  "upd_delivery rid f s = s\<lparr>wk_deliveries := map (\<lambda>x. if wd_requestId x = rid then f x else x) (wk_deliveries s)\<rparr>"

definition drop_delivery :: "u64 \<Rightarrow> GcWorker \<Rightarrow> GcWorker" where
  "drop_delivery rid s = s\<lparr>wk_deliveries := filter (\<lambda>x. wd_requestId x \<noteq> rid) (wk_deliveries s)\<rparr>"

definition kvPairBytes :: "AttentionKvRequest \<Rightarrow> u64" where
  "kvPairBytes r = ucast (kvr_tileRows r) * ucast (kvr_headDim r) * 4"

definition kvPairRefused :: "GcConfig \<Rightarrow> AttentionKvRequest \<Rightarrow> nat option \<Rightarrow> GcWorker \<Rightarrow> bool" where
  "kvPairRefused c r cb s \<longleftrightarrow> \<not> cf_kvEnable c \<or> cf_role c \<noteq> WORKER \<or> \<not> cf_reqOut c \<or> cb = None \<or>
     kvr_generation r = 0 \<or> kvr_tileRows r = 0 \<or> kvr_rowsPerBand r = 0 \<or> kvr_headDim r = 0 \<or>
     kvr_kvTileRows r < kvr_tileRows r \<or> cf_workerSlot c < 0 \<or> 4 \<le> cf_workerSlot c \<or>
     cf_queueDepth c \<le> length (wk_callbacks s) \<or>
     kvPairBytes r = 0 \<or> ucast (cf_kvTileBytes c) < kvPairBytes r \<or> 0xffffffff < kvPairBytes r"

definition requestAttentionKvPair ::
    "GcConfig \<Rightarrow> AttentionKvRequest \<Rightarrow> nat option \<Rightarrow> nat option \<Rightarrow> GcWorker \<Rightarrow> bool \<times> GcWorker" where
  "requestAttentionKvPair c r cb kready s =
     (if kvPairRefused c r cb s then (False, s)
      else
        (let rid = wk_nextKvRequestId s;
             entry = \<lparr>wc_requestId = rid, wc_generation = kvr_generation r, wc_callback = the cb,
                      wc_kReadyCallback = kready, wc_kReadySent = False\<rparr>;
             m = fillAttentionKvMessage r ((wk_message c ATTENTION_KV_REQUEST)
                   \<lparr>msg_reqSeq := rid, msg_bytes := ucast (kvPairBytes r)\<rparr>)
         in (True, (wk_emit (WkSend m) s)\<lparr>wk_nextKvRequestId := rid + 1,
              wk_callbacks := (if find_callback rid s = None then wk_callbacks s @ [entry] else wk_callbacks s),
              wk_statRequests := wk_statRequests s + 1\<rparr>)))"

definition cancelAttentionKvGeneration :: "GcConfig \<Rightarrow> u64 \<Rightarrow> GcWorker \<Rightarrow> nat \<times> GcWorker" where
  "cancelAttentionKvGeneration c gen s =
     (if \<not> cf_kvEnable c \<or> gen = 0 \<or> cf_role c \<noteq> WORKER then (0, s)
      else
        (let hit = filter (\<lambda>x. wc_generation x = gen) (wk_callbacks s);
             s1 = s\<lparr>wk_callbacks := filter (\<lambda>x. wc_generation x \<noteq> gen) (wk_callbacks s),
                    wk_deliveries := filter (\<lambda>x. wd_requestId x \<notin> set (map wc_requestId hit)) (wk_deliveries s)\<rparr>;
             s2 = (if cf_reqOut c then wk_emit (WkSend ((wk_message c ATTENTION_KV_CANCEL)\<lparr>msg_generation := gen\<rparr>)) s1 else s1)
         in (length hit, s2\<lparr>wk_statCancels := wk_statCancels s2 + length hit\<rparr>)))"

definition sendAttentionKvAck :: "GcConfig \<Rightarrow> u64 \<Rightarrow> u64 \<Rightarrow> GcWorker \<Rightarrow> GcWorker" where
  "sendAttentionKvAck c rid gen s =
     (if \<not> cf_reqOut c then s
      else wk_emit (WkSend ((wk_message c ATTENTION_KV_ACK)\<lparr>msg_reqSeq := rid, msg_generation := gen\<rparr>)) s)"

definition completeWorkerAttentionKvDelivery :: "GcConfig \<Rightarrow> u64 \<Rightarrow> bool \<Rightarrow> GcWorker \<Rightarrow> GcWorker" where
  "completeWorkerAttentionKvDelivery c rid ok s =
     (case find_callback rid s of
        None \<Rightarrow> drop_delivery rid s
      | Some x \<Rightarrow>
          (let s1 = drop_delivery rid (s\<lparr>wk_callbacks := filter (\<lambda>y. wc_requestId y \<noteq> rid) (wk_callbacks s)\<rparr>);
               s2 = sendAttentionKvAck c rid (wc_generation x) s1;
               s3 = (case wc_kReadyCallback x of
                       Some k \<Rightarrow> if wc_kReadySent x then s2 else wk_emit (WkKReady k False) s2
                     | None \<Rightarrow> s2)
           in wk_emit (WkDone (wc_callback x) ok) s3))"

text \<open>\<open>kReadySent\<close> is set and the callback told, once the K tile is written.\<close>

definition announceK :: "WorkerKvCallback \<Rightarrow> GcWorker \<Rightarrow> GcWorker" where
  "announceK x s =
     (if wc_kReadySent x then s
      else
        (let s1 = s\<lparr>wk_callbacks := map (\<lambda>y. if wc_requestId y = wc_requestId x then y\<lparr>wc_kReadySent := True\<rparr> else y)
                      (wk_callbacks s)\<rparr>
         in case wc_kReadyCallback x of Some k \<Rightarrow> wk_emit (WkKReady k True) s1 | None \<Rightarrow> s1))"

lemma find_delivery_announceK [simp]: "find_delivery rid (announceK x s) = find_delivery rid s"
  by (simp add: announceK_def find_delivery_def wk_emit_def Let_def split: option.split)

lemma find_map_upd:
  "(\<And>x. P x \<Longrightarrow> P (f x)) \<Longrightarrow> find P (map (\<lambda>x. if P x then f x else x) xs) = map_option f (find P xs)"
  by (induction xs) auto

lemma find_upd_delivery [simp]:
  assumes "\<And>x. wd_requestId (f x) = wd_requestId x"
  shows "find_delivery rid (upd_delivery rid f s) = map_option f (find_delivery rid s)"
  unfolding find_delivery_def upd_delivery_def using assms by (simp add: find_map_upd)

text \<open>
  \<open>pumpWorkerAttentionKvDelivery\<close> writes the K bytes and then the V bytes, one piece at a time;
  it calls itself once, to switch to V.
\<close>

function pumpWorkerAttentionKvDelivery :: "GcConfig \<Rightarrow> nat \<Rightarrow> u64 \<Rightarrow> GcWorker \<Rightarrow> GcWorker option" where
  "pumpWorkerAttentionKvDelivery c now rid s =
     (case find_delivery rid s of
        None \<Rightarrow> Some s
      | Some d \<Rightarrow>
          (let source = (if wd_writingV d then wd_vData d else wd_kData d) in
           if wd_inflight d then Some s
           else if wd_offset d = length source then
             (if \<not> wd_writingV d then
                (case find_callback rid s of
                   None \<Rightarrow> Some (completeWorkerAttentionKvDelivery c rid False s)
                 | Some x \<Rightarrow> pumpWorkerAttentionKvDelivery c now rid
                     (upd_delivery rid (\<lambda>d. d\<lparr>wd_writingV := True, wd_offset := 0\<rparr>) (announceK x s)))
              else Some (completeWorkerAttentionKvDelivery c rid True s))
           else
             (let chunk = min (sub64 (length source) (wd_offset d)) (gl_maxRequestBytes (wk_mem s));
                  bytes = take chunk (drop (wd_offset d) source);
                  destination = (if wd_writingV d then wd_vDstAddr d else wd_kDstAddr d) + of_nat (wd_offset d);
                  tag = wk_nextKvLocalTag s
              in do { (accepted, mem) \<leftarrow> localWriteAsync now destination bytes LmControl tag
                                          (KvWriteCb rid tag chunk) (wk_mem s);
                      let s1 = s\<lparr>wk_nextKvLocalTag := tag + 1, wk_mem := mem\<rparr>;
                      Some (if accepted then upd_delivery rid (\<lambda>d. d\<lparr>wd_inflight := True\<rparr>) s1 else s1) })))"
  by pat_completeness auto
termination
  by (relation "measure (\<lambda>(c, now, rid, s). case find_delivery rid s of Some d \<Rightarrow> if wd_writingV d then 0 else 1 | None \<Rightarrow> 0)")
    auto

declare pumpWorkerAttentionKvDelivery.simps [simp del]

text \<open>The callback of the local write.\<close>

definition kvWriteCallback :: "GcConfig \<Rightarrow> nat \<Rightarrow> u64 \<Rightarrow> u64 \<Rightarrow> nat \<Rightarrow> bool \<Rightarrow> u64 \<Rightarrow> GcWorker \<Rightarrow> GcWorker option" where
  "kvWriteCallback c now rid tag chunk ok callbackTag s =
     (if find_delivery rid s = None then Some s
      else
        (let s1 = upd_delivery rid (\<lambda>d. d\<lparr>wd_inflight := False\<rparr>) s in
         if \<not> ok \<or> callbackTag \<noteq> tag then Some (completeWorkerAttentionKvDelivery c rid False s1)
         else pumpWorkerAttentionKvDelivery c now rid (upd_delivery rid (\<lambda>d. d\<lparr>wd_offset := wd_offset d + chunk\<rparr>) s1)))"

definition deliveryRefused :: "GcConfig \<Rightarrow> GroupCtrlMsg \<Rightarrow> GcWorker \<Rightarrow> bool" where
  "deliveryRefused c m s \<longleftrightarrow> \<not> cf_kvEnable c \<or> cf_role c \<noteq> WORKER \<or>
     (case find_callback (msg_reqSeq m) s of None \<Rightarrow> True | Some x \<Rightarrow> wc_generation x \<noteq> msg_generation m) \<or>
     msg_status m = 0 \<or> msg_kData m = [] \<or> length (msg_kData m) \<noteq> length (msg_vData m)"

definition handleAttentionKvDelivery :: "GcConfig \<Rightarrow> nat \<Rightarrow> GroupCtrlMsg \<Rightarrow> GcWorker \<Rightarrow> GcWorker option" where
  "handleAttentionKvDelivery c now m s =
     (let rid = msg_reqSeq m in
      if deliveryRefused c m s
      then Some (if find_callback rid s \<noteq> None then completeWorkerAttentionKvDelivery c rid False s else s)
      else
        (let d = \<lparr>wd_requestId = rid, wd_generation = msg_generation m, wd_kDstAddr = msg_kDstAddr m,
                  wd_vDstAddr = msg_vDstAddr m, wd_offset = 0, wd_writingV = False, wd_inflight = False,
                  wd_kData = msg_kData m, wd_vData = msg_vData m\<rparr>
         in pumpWorkerAttentionKvDelivery c now rid
              (if find_delivery rid s = None then s\<lparr>wk_deliveries := wk_deliveries s @ [d]\<rparr> else s)))"

section \<open>Responses of the manager\<close>

definition handleRsp :: "GcConfig \<Rightarrow> nat \<Rightarrow> GroupCtrlMsg \<Rightarrow> GcWorker \<Rightarrow> GcWorker option" where
  "handleRsp c now m s =
     (case msg_type m of
        ATTENTION_KV_DELIVERY \<Rightarrow> handleAttentionKvDelivery c now m s
      | GRANT \<Rightarrow>
          do { mem1 \<leftarrow> writeMailboxU32 c CTRL_LOCAL_GRANT_SEQ_OFF (ucast (msg_reqSeq m)) (wk_mem s);
               mem2 \<leftarrow> writeMailboxU32 c CTRL_LOCAL_GRANT_WINDOW_OFF (ucast (msg_window m)) mem1;
               Some (s\<lparr>wk_grantSeq := msg_reqSeq m, wk_grantWindow := msg_window m, wk_mem := mem2\<rparr>) }
      | GROUP_DONE \<Rightarrow>
          do { mem1 \<leftarrow> writeMailboxU32 c CTRL_LOCAL_GROUP_DONE_OFF 1 (wk_mem s);
               Some (s\<lparr>wk_groupDone := True, wk_mem := mem1\<rparr>) }
      | _ \<Rightarrow> Some s)"

section \<open>Polling the mailbox\<close>

definition pollRequest :: "GcConfig \<Rightarrow> GcWorker \<Rightarrow> GcWorker option" where
  "pollRequest c s =
     do { reqValid \<leftarrow> readMailboxU32 c CTRL_LOCAL_REQ_VALID_OFF (wk_mem s);
          reqSeq \<leftarrow> readMailboxU32 c CTRL_LOCAL_REQ_SEQ_OFF (wk_mem s);
          if reqValid \<noteq> 0 \<and> wk_reqSeqSeen s < ucast reqSeq then
            do { src \<leftarrow> readMailbox c CTRL_LOCAL_REQ_SRC_OFF (wk_mem s);
                 dst \<leftarrow> readMailbox c CTRL_LOCAL_REQ_DST_OFF (wk_mem s);
                 bytes \<leftarrow> readMailbox c CTRL_LOCAL_REQ_BYTES_OFF (wk_mem s);
                 node \<leftarrow> readMailbox c CTRL_LOCAL_REQ_NODE_OFF (wk_mem s);
                 window \<leftarrow> readMailbox c CTRL_LOCAL_REQ_WINDOW_OFF (wk_mem s);
                 if \<not> cf_reqOut c then None
                 else
                   do { mem \<leftarrow> writeMailboxU32 c CTRL_LOCAL_REQ_VALID_OFF 0 (wk_mem s);
                        Some ((wk_emit (WkSend ((wk_message c REQUEST)\<lparr>msg_reqSeq := ucast reqSeq, msg_srcAddr := src,
                            msg_dstAddr := dst, msg_bytes := ucast bytes, msg_targetNode := ucast node,
                            msg_window := ucast window\<rparr>)) s)\<lparr>wk_reqSeqSeen := ucast reqSeq, wk_mem := mem\<rparr>) } }
          else Some s }"

definition pollDone :: "GcConfig \<Rightarrow> GcWorker \<Rightarrow> GcWorker option" where
  "pollDone c s =
     do { doneValid \<leftarrow> readMailboxU32 c CTRL_LOCAL_DONE_VALID_OFF (wk_mem s);
          doneSeq \<leftarrow> readMailboxU32 c CTRL_LOCAL_DONE_SEQ_OFF (wk_mem s);
          if doneValid \<noteq> 0 \<and> wk_doneSeqSeen s < ucast doneSeq then
            do { node \<leftarrow> readMailbox c CTRL_LOCAL_REQ_NODE_OFF (wk_mem s);
                 if \<not> cf_reqOut c then None
                 else
                   do { mem \<leftarrow> writeMailboxU32 c CTRL_LOCAL_DONE_VALID_OFF 0 (wk_mem s);
                        Some ((wk_emit (WkSend ((wk_message c DONE)\<lparr>msg_reqSeq := ucast doneSeq,
                            msg_targetNode := ucast node\<rparr>)) s)\<lparr>wk_doneSeqSeen := ucast doneSeq, wk_mem := mem\<rparr>) } }
          else Some s }"

definition pollFinished :: "GcConfig \<Rightarrow> GcWorker \<Rightarrow> GcWorker option" where
  "pollFinished c s =
     do { fin \<leftarrow> readMailbox c CTRL_LOCAL_FINISHED_OFF (wk_mem s);
          if fin \<noteq> 0 \<and> \<not> wk_finishedSeen s then
            if \<not> cf_reqOut c then None
            else
              do { mem \<leftarrow> writeMailbox c CTRL_LOCAL_FINISHED_OFF 0 (wk_mem s);
                   Some ((wk_emit (WkSend (wk_message c FINISHED)) s)\<lparr>wk_finishedSeen := True, wk_mem := mem\<rparr>) }
          else Some s }"

text \<open>
  The worker's part of \<open>tick\<close>.  The deliveries are pumped in the order in which the hash map lists
  their numbers, which is the argument \<open>ids\<close>.
\<close>

fun pumpDeliveries :: "GcConfig \<Rightarrow> nat \<Rightarrow> u64 list \<Rightarrow> GcWorker \<Rightarrow> GcWorker option" where
  "pumpDeliveries c now [] s = Some s"
| "pumpDeliveries c now (rid # ids) s =
     do { s' \<leftarrow> pumpWorkerAttentionKvDelivery c now rid s; pumpDeliveries c now ids s' }"

definition workerTick :: "GcConfig \<Rightarrow> nat \<Rightarrow> u64 list \<Rightarrow> GcWorker \<Rightarrow> GcWorker option" where
  "workerTick c now ids s =
     do { s1 \<leftarrow> pumpDeliveries c now ids s; s2 \<leftarrow> pollRequest c s1; s3 \<leftarrow> pollDone c s2; pollFinished c s3 }"

section \<open>Dispatch of the manager\<close>

definition handleReq ::
    "GcConfig \<Rightarrow> GroupCtrlMsg \<Rightarrow> nat \<Rightarrow> GcSched \<times> GcKv \<Rightarrow> ((nat \<times> GroupCtrlMsg) list \<times> GcSched \<times> GcKv) option" where
  "handleReq c m slot st =
     (case st of (sch, kv) \<Rightarrow>
        if length (sch_workers sch) \<le> slot then None
        else case msg_type m of
          ATTENTION_KV_REQUEST \<Rightarrow> map_option (\<lambda>kv'. ([], sch, kv')) (handleAttentionKvRequest c m slot kv)
        | ATTENTION_KV_ACK \<Rightarrow> map_option (\<lambda>kv'. ([], sch, kv')) (handleAttentionKvAck c m slot kv)
        | ATTENTION_KV_CANCEL \<Rightarrow> map_option (\<lambda>kv'. ([], sch, kv')) (handleAttentionKvCancel c m slot kv)
        | REQUEST \<Rightarrow> (case handleRequest c m slot sch of (out, sch') \<Rightarrow> Some (out, sch', kv))
        | DONE \<Rightarrow> (case handleDone c m slot sch of (out, sch') \<Rightarrow> Some (out, sch', kv))
        | FINISHED \<Rightarrow> (case handleFinished c slot sch of (out, sch') \<Rightarrow> Some (out, sch', kv))
        | _ \<Rightarrow> Some ([], sch, kv))"

end
