(* ===== verification/Group_Ctrl_Worker_Runs.thy ===== *)
theory Group_Ctrl_Worker_Runs
  imports Group_Ctrl_Worker
begin

text \<open>
  What a worker endpoint guarantees over runs: the callbacks of the K/V pairs it accepts are called
  exactly once each or cancelled, the requests it forwards from the mailbox have growing numbers, and
  a grant of the manager can be read back from the mailbox.
\<close>

section \<open>Callbacks owed and made\<close>

text \<open>A call owed to the core: the final callback of a pair, or the callback for its K tile.\<close>

datatype KvCall = FinalCall nat | KCall nat

definition entry_calls :: "WorkerKvCallback \<Rightarrow> KvCall multiset" where
  "entry_calls x = {#FinalCall (wc_callback x)#} +
     (case wc_kReadyCallback x of Some k \<Rightarrow> if wc_kReadySent x then {#} else {#KCall k#} | None \<Rightarrow> {#})"

fun call_made :: "WkOut \<Rightarrow> KvCall multiset" where
  "call_made (WkSend m) = {#}"
| "call_made (WkDone cb ok) = {#FinalCall cb#}"
| "call_made (WkKReady k ok) = {#KCall k#}"

definition calls_made :: "WkOut list \<Rightarrow> KvCall multiset" where
  "calls_made out = sum_list (map call_made out)"

definition calls_owed :: "GcWorker \<Rightarrow> KvCall multiset" where
  "calls_owed s = sum_list (map entry_calls (wk_callbacks s))"

definition calls :: "GcWorker \<Rightarrow> KvCall multiset" where
  "calls s = calls_owed s + calls_made (wk_out s)"

definition callback_ids :: "GcWorker \<Rightarrow> u64 list" where
  "callback_ids s = map wc_requestId (wk_callbacks s)"

text \<open>The state changes that only add or take K/V pairs keep this relation.\<close>

definition keeps :: "GcWorker \<Rightarrow> GcWorker \<Rightarrow> bool" where
  "keeps s s' \<longleftrightarrow> calls s' = calls s \<and> distinct (callback_ids s') \<and> set (callback_ids s') \<subseteq> set (callback_ids s) \<and>
     wk_nextKvRequestId s' = wk_nextKvRequestId s"

lemma keeps_refl: "distinct (callback_ids s) \<Longrightarrow> keeps s s"
  by (simp add: keeps_def)

lemma keeps_trans: "keeps a b \<Longrightarrow> keeps b c \<Longrightarrow> keeps a c"
  by (auto simp: keeps_def)

lemma calls_made_append [simp]: "calls_made (xs @ ys) = calls_made xs + calls_made ys"
  by (simp add: calls_made_def)

lemma calls_made_simps [simp]: "calls_made [] = {#}" "calls_made (x # xs) = call_made x + calls_made xs"
  by (simp_all add: calls_made_def)

lemma wk_emit_simps [simp]:
  "wk_callbacks (wk_emit x s) = wk_callbacks s" "wk_out (wk_emit x s) = wk_out s @ [x]"
  "wk_nextKvRequestId (wk_emit x s) = wk_nextKvRequestId s" "wk_mem (wk_emit x s) = wk_mem s"
  "wk_deliveries (wk_emit x s) = wk_deliveries s"
  by (simp_all add: wk_emit_def)

lemma delivery_frame [simp]:
  "wk_callbacks (drop_delivery rid s) = wk_callbacks s" "wk_out (drop_delivery rid s) = wk_out s"
  "wk_nextKvRequestId (drop_delivery rid s) = wk_nextKvRequestId s"
  "wk_callbacks (upd_delivery rid f s) = wk_callbacks s" "wk_out (upd_delivery rid f s) = wk_out s"
  "wk_nextKvRequestId (upd_delivery rid f s) = wk_nextKvRequestId s"
  by (simp_all add: drop_delivery_def upd_delivery_def)

lemma keeps_frame:
  "wk_callbacks s' = wk_callbacks s \<Longrightarrow> calls_made (wk_out s') = calls_made (wk_out s) \<Longrightarrow>
     wk_nextKvRequestId s' = wk_nextKvRequestId s \<Longrightarrow> distinct (callback_ids s) \<Longrightarrow> keeps s s'"
  by (simp add: keeps_def calls_def calls_owed_def callback_ids_def)

lemma find_filter_split:
  assumes "distinct (map key xs)" "find (\<lambda>x. key x = a) xs = Some x"
  shows "sum_list (map f xs) = f x + (sum_list (map f (filter (\<lambda>y. key y \<noteq> a) xs)) :: 'b :: comm_monoid_add)"
  using assms
proof (induction xs)
  case (Cons y ys)
  show ?case
  proof (cases "key y = a")
    case True
    then have "filter (\<lambda>z. key z \<noteq> a) ys = ys" using Cons.prems(1) by (auto simp: filter_id_conv image_iff)
    with True Cons.prems show ?thesis by simp
  next
    case False
    with Cons show ?thesis by (simp add: add.left_commute)
  qed
qed simp

lemma map_key_upd:
  assumes "distinct (map key xs)" "find (\<lambda>x. key x = a) xs = Some x"
  shows "sum_list (map f (map (\<lambda>y. if key y = a then g y else y) xs)) + f x = sum_list (map f xs) + (f (g x) :: 'b :: comm_monoid_add)"
  using assms
proof (induction xs)
  case (Cons y ys)
  show ?case
  proof (cases "key y = a")
    case True
    then have "map (\<lambda>y. if key y = a then g y else y) ys = ys" using Cons.prems(1) by (intro map_idI) (auto simp: image_iff)
    with True Cons.prems show ?thesis by (simp add: ac_simps)
  next
    case False
    with Cons show ?thesis by (simp add: add.assoc)
  qed
qed simp

lemma keeps_complete:
  assumes "distinct (callback_ids s)"
  shows "keeps s (completeWorkerAttentionKvDelivery c rid ok s)"
proof (cases "find_callback rid s")
  case None
  then show ?thesis using assms by (auto simp: completeWorkerAttentionKvDelivery_def intro: keeps_frame)
next
  case (Some x)
  let ?s = "completeWorkerAttentionKvDelivery c rid ok s"
  let ?rest = "filter (\<lambda>y. wc_requestId y \<noteq> rid) (wk_callbacks s)"
  have cb: "wk_callbacks ?s = ?rest" "wk_nextKvRequestId ?s = wk_nextKvRequestId s"
    by (simp_all add: completeWorkerAttentionKvDelivery_def Some sendAttentionKvAck_def Let_def split: option.split)
  have "calls_made (wk_out ?s) = calls_made (wk_out s) + entry_calls x"
    by (simp add: completeWorkerAttentionKvDelivery_def Some sendAttentionKvAck_def Let_def entry_calls_def split: option.split)
  moreover have "calls_owed s = entry_calls x + sum_list (map entry_calls ?rest)"
    unfolding calls_owed_def
    by (rule find_filter_split) (use assms Some in \<open>simp_all add: callback_ids_def find_callback_def\<close>)
  ultimately have "calls ?s = calls s" by (simp add: calls_def calls_owed_def [of ?s] cb ac_simps)
  then show ?thesis using assms by (auto simp: keeps_def cb callback_ids_def distinct_map_filter)
qed

lemma keeps_announceK:
  assumes "distinct (callback_ids s)" "find_callback rid s = Some x"
  shows "keeps s (announceK x s)"
proof (cases "wc_kReadySent x")
  case True
  then show ?thesis using assms(1) by (simp add: announceK_def keeps_refl)
next
  case False
  let ?upd = "\<lambda>y. y\<lparr>wc_kReadySent := True\<rparr>"
  let ?cbs = "map (\<lambda>y. if wc_requestId y = rid then ?upd y else y) (wk_callbacks s)"
  have rid: "wc_requestId x = rid" using assms(2) by (auto simp: find_callback_def find_Some_iff)
  have cb: "wk_callbacks (announceK x s) = ?cbs" "wk_nextKvRequestId (announceK x s) = wk_nextKvRequestId s"
    using False by (simp_all add: announceK_def rid Let_def split: option.split)
  have "sum_list (map entry_calls ?cbs) + entry_calls x = calls_owed s + entry_calls (?upd x)"
    unfolding calls_owed_def
    by (rule map_key_upd) (use assms in \<open>simp_all add: callback_ids_def find_callback_def\<close>)
  moreover have "entry_calls (?upd x) + calls_made (wk_out (announceK x s)) = entry_calls x + calls_made (wk_out s)"
    using False by (simp add: announceK_def entry_calls_def Let_def ac_simps split: option.split)
  ultimately have "calls (announceK x s) = calls s"
    unfolding calls_def calls_owed_def [of "announceK x s"] cb(1) by (rule exchange_sum)
  moreover have "callback_ids (announceK x s) = callback_ids s"
    unfolding callback_ids_def cb by (simp add: comp_def if_distrib cong: if_cong)
  ultimately show ?thesis using assms(1) by (simp add: keeps_def cb)
qed

lemma keeps_pump: "pumpWorkerAttentionKvDelivery c now rid s = Some s' \<Longrightarrow> distinct (callback_ids s) \<Longrightarrow> keeps s s'"
proof (induction c now rid s rule: pumpWorkerAttentionKvDelivery.induct)
  case (1 c now rid s)
  note eq = pumpWorkerAttentionKvDelivery.simps [of c now rid s]
  show ?case
  proof (cases "find_delivery rid s")
    case None
    then show ?thesis using 1 by (simp add: eq keeps_refl)
  next
    case (Some d)
    let ?source = "if wd_writingV d then wd_vData d else wd_kData d"
    consider (busy) "wd_inflight d" | (v) "\<not> wd_inflight d" "wd_offset d = length ?source" "wd_writingV d"
      | (lost) "\<not> wd_inflight d" "wd_offset d = length ?source" "\<not> wd_writingV d" "find_callback rid s = None"
      | (k) x where "\<not> wd_inflight d" "wd_offset d = length ?source" "\<not> wd_writingV d" "find_callback rid s = Some x"
      | (more) "\<not> wd_inflight d" "wd_offset d \<noteq> length ?source"
      by (cases "find_callback rid s") blast+
    then show ?thesis
    proof cases
      case busy
      then show ?thesis using "1.prems" Some by (simp add: eq keeps_refl)
    next
      case v
      then have "s' = completeWorkerAttentionKvDelivery c rid True s" using "1.prems"(1) Some by (simp add: eq)
      then show ?thesis using keeps_complete [OF "1.prems"(2)] by simp
    next
      case lost
      then have "s' = completeWorkerAttentionKvDelivery c rid False s" using "1.prems"(1) Some by (simp add: eq)
      then show ?thesis using keeps_complete [OF "1.prems"(2)] by simp
    next
      case (k x)
      let ?s = "upd_delivery rid (\<lambda>d. d\<lparr>wd_writingV := True, wd_offset := 0\<rparr>) (announceK x s)"
      have 2: "keeps s (announceK x s)" using "1.prems"(2) k(4) by (rule keeps_announceK)
      then have 3: "keeps s ?s" by (simp add: keeps_def calls_def calls_owed_def callback_ids_def)
      have "pumpWorkerAttentionKvDelivery c now rid ?s = Some s'" using "1.prems"(1) Some k by (simp add: eq)
      moreover have "distinct (callback_ids ?s)" using 3 by (simp add: keeps_def)
      ultimately have "keeps ?s s'" by (rule "1.IH" [OF Some refl k(1-4)])
      with 3 show ?thesis by (rule keeps_trans)
    next
      case more
      then show ?thesis using "1.prems" Some
        by (auto simp: eq Let_def intro!: keeps_frame split: bind_splits prod.splits if_splits)
    qed
  qed
qed

lemma keeps_pumpDeliveries:
  "pumpDeliveries c now ids s = Some s' \<Longrightarrow> distinct (callback_ids s) \<Longrightarrow> keeps s s'"
proof (induction ids arbitrary: s)
  case (Cons rid ids)
  then obtain t where t: "pumpWorkerAttentionKvDelivery c now rid s = Some t" "pumpDeliveries c now ids t = Some s'"
    by (auto split: bind_splits)
  have 1: "keeps s t" using t(1) Cons.prems(2) by (rule keeps_pump)
  then have "keeps t s'" using Cons.IH [OF t(2)] by (simp add: keeps_def)
  with 1 show ?case by (rule keeps_trans)
qed (simp add: keeps_refl)

lemma keeps_poll:
  "pollRequest c s = Some s' \<Longrightarrow> distinct (callback_ids s) \<Longrightarrow> keeps s s'"
  "pollDone c s = Some s' \<Longrightarrow> distinct (callback_ids s) \<Longrightarrow> keeps s s'"
  "pollFinished c s = Some s' \<Longrightarrow> distinct (callback_ids s) \<Longrightarrow> keeps s s'"
  by (auto simp: pollRequest_def pollDone_def pollFinished_def intro!: keeps_frame split: bind_splits if_splits)

lemma keeps_tick:
  assumes "workerTick c now ids s = Some s'" "distinct (callback_ids s)"
  shows "keeps s s'"
proof -
  obtain s1 s2 s3 where st: "pumpDeliveries c now ids s = Some s1" "pollRequest c s1 = Some s2"
      "pollDone c s2 = Some s3" "pollFinished c s3 = Some s'"
    using assms(1) by (auto simp: workerTick_def split: bind_splits)
  have 1: "keeps s s1" using keeps_pumpDeliveries [OF st(1) assms(2)] .
  have 2: "keeps s1 s2" using keeps_poll(1) [OF st(2)] 1 by (simp add: keeps_def)
  have 3: "keeps s2 s3" using keeps_poll(2) [OF st(3)] 2 by (simp add: keeps_def)
  have "keeps s3 s'" using keeps_poll(3) [OF st(4)] 3 by (simp add: keeps_def)
  then show ?thesis using 1 2 3 keeps_trans by blast
qed

lemma keeps_delivery:
  assumes "handleAttentionKvDelivery c now m s = Some s'" "distinct (callback_ids s)"
  shows "keeps s s'"
proof (cases "deliveryRefused c m s")
  case True
  then show ?thesis using assms
    by (auto simp: handleAttentionKvDelivery_def Let_def keeps_refl keeps_complete split: if_splits)
next
  case False
  then obtain t where 1: "pumpWorkerAttentionKvDelivery c now (msg_reqSeq m) t = Some s'" "t = s \<or> (\<exists>ds. t = s\<lparr>wk_deliveries := ds\<rparr>)"
    using assms(1) by (cases "find_delivery (msg_reqSeq m) s = None") (auto simp: handleAttentionKvDelivery_def Let_def)
  have 2: "keeps s t" using assms(2) 1(2) by (auto intro: keeps_frame)
  then have "keeps t s'" using keeps_pump [OF 1(1)] by (simp add: keeps_def)
  with 2 show ?thesis by (rule keeps_trans)
qed

lemma keeps_rsp: "handleRsp c now m s = Some s' \<Longrightarrow> distinct (callback_ids s) \<Longrightarrow> keeps s s'"
  by (auto simp: handleRsp_def keeps_refl keeps_delivery intro!: keeps_frame
      split: GroupCtrlMsgType.splits bind_splits)

lemma keeps_upd: "keeps (upd_delivery rid f s) s' \<Longrightarrow> keeps s s'"
  by (simp add: keeps_def calls_def calls_owed_def callback_ids_def)

lemma keeps_write:
  assumes "kvWriteCallback c now rid tag chunk ok t s = Some s'" "distinct (callback_ids s)"
  shows "keeps s s'"
proof -
  let ?s1 = "upd_delivery rid (\<lambda>d. d\<lparr>wd_inflight := False\<rparr>) s"
  let ?s2 = "upd_delivery rid (\<lambda>d. d\<lparr>wd_offset := wd_offset d + chunk\<rparr>) ?s1"
  have d: "distinct (callback_ids ?s1)" "distinct (callback_ids ?s2)" using assms(2) by (simp_all add: callback_ids_def)
  note eq = assms(1) [unfolded kvWriteCallback_def Let_def]
  show ?thesis
  proof (cases "find_delivery rid s = None")
    case True
    then show ?thesis using eq assms(2) by (simp add: keeps_refl)
  next
    case found: False
    show ?thesis
    proof (cases "\<not> ok \<or> t \<noteq> tag")
      case True
      then have "s' = completeWorkerAttentionKvDelivery c rid False ?s1" using eq found by simp
      then show ?thesis using keeps_upd [OF keeps_complete [OF d(1)]] by simp
    next
      case False
      then have "pumpWorkerAttentionKvDelivery c now rid ?s2 = Some s'" using eq found by simp
      from keeps_upd [OF keeps_upd [OF keeps_pump [OF this d(2)]]] show ?thesis .
    qed
  qed
qed

section \<open>Runs\<close>

text \<open>
  What reaches a worker: a pair its core asks for, a cancelled generation, a response of the
  manager, the answer of the local memory to one of its writes, a clock tick, and the local memory
  changing by itself or by its core.
\<close>

datatype WkIn =
    WkPair AttentionKvRequest "nat option" "nat option"
  | WkCancel u64
  | WkRsp nat GroupCtrlMsg
  | WkWritten nat u64 u64 nat bool u64
  | WkTick nat "u64 list"
  | WkMem "GcCb GmLocal"

fun wk_in :: "GcConfig \<Rightarrow> WkIn \<Rightarrow> GcWorker \<Rightarrow> GcWorker option" where
  "wk_in c (WkPair r cb k) s = Some (snd (requestAttentionKvPair c r cb k s))"
| "wk_in c (WkCancel gen) s = Some (snd (cancelAttentionKvGeneration c gen s))"
| "wk_in c (WkRsp now m) s = handleRsp c now m s"
| "wk_in c (WkWritten now rid tag chunk ok t) s = kvWriteCallback c now rid tag chunk ok t s"
| "wk_in c (WkTick now ids) s = workerTick c now ids s"
| "wk_in c (WkMem mem) s = Some (s\<lparr>wk_mem := mem\<rparr>)"

text \<open>The calls an input promises to the core, and those it withdraws.\<close>

fun wk_accepts :: "GcConfig \<Rightarrow> WkIn \<Rightarrow> GcWorker \<Rightarrow> KvCall multiset" where
  "wk_accepts c (WkPair r cb k) s =
     (if fst (requestAttentionKvPair c r cb k s)
      then {#FinalCall (the cb)#} + (case k of Some n \<Rightarrow> {#KCall n#} | None \<Rightarrow> {#}) else {#})"
| "wk_accepts c _ s = {#}"

fun wk_withdraws :: "GcConfig \<Rightarrow> WkIn \<Rightarrow> GcWorker \<Rightarrow> KvCall multiset" where
  "wk_withdraws c (WkCancel gen) s =
     (if cf_kvEnable c \<and> gen \<noteq> 0 \<and> cf_role c = WORKER
      then sum_list (map entry_calls (filter (\<lambda>x. wc_generation x = gen) (wk_callbacks s))) else {#})"
| "wk_withdraws c _ s = {#}"

text \<open>A run, with all the calls promised and withdrawn in it.\<close>

fun wk_run :: "GcConfig \<Rightarrow> WkIn list \<Rightarrow> GcWorker \<Rightarrow> (KvCall multiset \<times> KvCall multiset \<times> GcWorker) option" where
  "wk_run c [] s = Some ({#}, {#}, s)"
| "wk_run c (x # xs) s =
     do { s' \<leftarrow> wk_in c x s; (a, w, t) \<leftarrow> wk_run c xs s';
          Some (wk_accepts c x s + a, wk_withdraws c x s + w, t) }"

definition wk_fresh :: "nat \<Rightarrow> GcWorker \<Rightarrow> bool" where
  "wk_fresh n s \<longleftrightarrow> distinct (callback_ids s) \<and> (\<forall>i \<in> set (callback_ids s). unat i \<le> n) \<and> wk_nextKvRequestId s = of_nat (Suc n)"

lemma wk_pair_step:
  assumes "wk_fresh n s" "Suc n < 2 ^ 64" "requestAttentionKvPair c r cb k s = (b, s')"
  shows "\<exists>n' \<le> Suc n. wk_fresh n' s'" "calls s' = calls s + wk_accepts c (WkPair r cb k) s"
proof -
  have un: "unat (wk_nextKvRequestId s) = Suc n" using assms(1,2) by (simp add: wk_fresh_def unat_of_nat del: of_nat_Suc)
  then have new: "wk_nextKvRequestId s \<notin> set (callback_ids s)" using assms(1) by (force simp: wk_fresh_def)
  then have none: "find_callback (wk_nextKvRequestId s) s = None"
    by (auto simp: find_callback_def find_None_iff callback_ids_def image_iff)
  have 1: "wk_fresh (Suc n) s'" if "\<not> kvPairRefused c r cb s"
  proof -
    have "callback_ids s' = callback_ids s @ [wk_nextKvRequestId s]" "wk_nextKvRequestId s' = wk_nextKvRequestId s + 1"
      using that assms(3) none by (auto simp: requestAttentionKvPair_def Let_def callback_ids_def)
    then show ?thesis using assms(1) new un by (simp add: wk_fresh_def le_Suc_eq)
  qed
  show "\<exists>n' \<le> Suc n. wk_fresh n' s'"
  proof (cases "kvPairRefused c r cb s")
    case True
    with assms have "wk_fresh n s'" by (simp add: requestAttentionKvPair_def)
    then show ?thesis by (intro exI [of _ n]) simp
  qed (use 1 in blast)
  show "calls s' = calls s + wk_accepts c (WkPair r cb k) s"
  proof -
    have s': "s' = snd (requestAttentionKvPair c r cb k s)" by (simp add: assms(3))
    show ?thesis
    proof (cases "kvPairRefused c r cb s")
      case False
      then show ?thesis unfolding s' by (cases k)
        (simp_all add: requestAttentionKvPair_def Let_def calls_def calls_owed_def entry_calls_def none)
    qed (simp add: s' requestAttentionKvPair_def)
  qed
qed

lemma wk_cancel_step:
  assumes "wk_fresh n s" "cancelAttentionKvGeneration c gen s = (m, s')"
  shows "wk_fresh n s'" "calls s' + wk_withdraws c (WkCancel gen) s = calls s"
proof -
  let ?P = "\<lambda>x. wc_generation x = gen"
  let ?act = "cf_kvEnable c \<and> gen \<noteq> 0 \<and> cf_role c = WORKER"
  have s': "s' = snd (cancelAttentionKvGeneration c gen s)" by (simp add: assms(2))
  have cb: "wk_callbacks s' = (if ?act then filter (\<lambda>x. \<not> ?P x) (wk_callbacks s) else wk_callbacks s)"
      "wk_nextKvRequestId s' = wk_nextKvRequestId s" "calls_made (wk_out s') = calls_made (wk_out s)"
    unfolding s' by (simp_all add: cancelAttentionKvGeneration_def Let_def)
  then show "wk_fresh n s'" using assms(1) by (auto simp: wk_fresh_def callback_ids_def distinct_map_filter)
  have split: "sum_list (map f (filter (\<lambda>x. \<not> ?P x) xs)) + sum_list (map f (filter ?P xs)) = sum_list (map f xs)"
    for f :: "WorkerKvCallback \<Rightarrow> KvCall multiset" and xs by (induction xs) (simp_all add: ac_simps)
  have move: "(a + m) + b = (a + b) + m" for a b m :: "KvCall multiset" by (simp only: ac_simps)
  show "calls s' + wk_withdraws c (WkCancel gen) s = calls s"
  proof (cases ?act)
    case True
    then have "calls s' + wk_withdraws c (WkCancel gen) s =
        (sum_list (map entry_calls (filter (\<lambda>x. \<not> ?P x) (wk_callbacks s))) + calls_made (wk_out s)) +
        sum_list (map entry_calls (filter ?P (wk_callbacks s)))"
      by (simp only: calls_def calls_owed_def cb if_True wk_withdraws.simps simp_thms)
    also have "\<dots> = calls s" unfolding calls_def calls_owed_def by (rule trans [OF move]) (simp only: split)
    finally show ?thesis .
  next
    case False
    then have "wk_withdraws c (WkCancel gen) s = {#}" "wk_callbacks s' = wk_callbacks s"
      by (simp_all only: cb if_False wk_withdraws.simps)
    then show ?thesis by (simp add: calls_def calls_owed_def cb(3))
  qed
qed

lemma wk_fresh_keeps: "wk_fresh n s \<Longrightarrow> keeps s s' \<Longrightarrow> wk_fresh n s'"
  by (auto simp: wk_fresh_def keeps_def)

lemma wk_step_keeps:
  assumes "keeps s s'" "wk_fresh n s" "wk_withdraws c x s = {#}" "wk_accepts c x s = {#}"
  shows "(\<exists>n' \<le> Suc n. wk_fresh n' s') \<and> calls s' + wk_withdraws c x s = calls s + wk_accepts c x s"
  using wk_fresh_keeps [OF assms(2,1)] assms by (auto simp: keeps_def intro!: exI [of _ n])

lemma wk_step:
  assumes "wk_in c x s = Some s'" "wk_fresh n s" "Suc n < 2 ^ 64"
  shows "(\<exists>n' \<le> Suc n. wk_fresh n' s') \<and> calls s' + wk_withdraws c x s = calls s + wk_accepts c x s"
proof (cases x)
  case (WkPair r cb k)
  obtain b where b: "requestAttentionKvPair c r cb k s = (b, s')"
    using assms(1) WkPair by (cases "requestAttentionKvPair c r cb k s") simp
  from wk_pair_step [OF assms(2,3) b] show ?thesis by (simp add: WkPair del: wk_accepts.simps)
next
  case (WkCancel gen)
  obtain m where m: "cancelAttentionKvGeneration c gen s = (m, s')"
    using assms(1) WkCancel by (cases "cancelAttentionKvGeneration c gen s") simp
  from wk_cancel_step [OF assms(2) m] show ?thesis
    by (auto simp: WkCancel simp del: wk_withdraws.simps intro!: exI [of _ n])
next
  case (WkMem mem)
  then have "keeps s s'" using assms by (auto simp: wk_fresh_def intro!: keeps_frame)
  then show ?thesis using assms(2) by (rule wk_step_keeps) (simp_all add: WkMem)
next
  case (WkRsp now m)
  then have "keeps s s'" using assms keeps_rsp by (auto simp: wk_fresh_def)
  then show ?thesis using assms(2) by (rule wk_step_keeps) (simp_all add: WkRsp)
next
  case (WkWritten now rid tag chunk ok t)
  then have "keeps s s'" using assms keeps_write by (auto simp: wk_fresh_def)
  then show ?thesis using assms(2) by (rule wk_step_keeps) (simp_all add: WkWritten)
next
  case (WkTick now ids)
  then have "keeps s s'" using assms keeps_tick by (auto simp: wk_fresh_def)
  then show ?thesis using assms(2) by (rule wk_step_keeps) (simp_all add: WkTick)
qed

lemma wk_run_calls:
  assumes "wk_run c xs s = Some (a, w, t)" "wk_fresh n s" "n + length xs < 2 ^ 64"
  shows "calls t + w = calls s + a"
  using assms
proof (induction xs arbitrary: s a w n)
  case (Cons x xs)
  then obtain s' a' w' where 1: "wk_in c x s = Some s'" "wk_run c xs s' = Some (a', w', t)"
      "a = wk_accepts c x s + a'" "w = wk_withdraws c x s + w'" by (auto split: bind_splits)
  obtain n' where n': "n' \<le> Suc n" "wk_fresh n' s'" "calls s' + wk_withdraws c x s = calls s + wk_accepts c x s"
    using wk_step [OF 1(1) Cons.prems(2)] Cons.prems(3) by auto
  have "calls t + w' = calls s' + a'" using Cons.IH [OF 1(2) n'(2)] n'(1) Cons.prems(3) by simp
  then have "calls t + w = (calls s' + wk_withdraws c x s) + a'" unfolding 1(4) by (metis add.assoc add.commute)
  then show ?case unfolding n'(3) 1(3) by (simp only: add.assoc)
qed simp

text \<open>(C16)
  Every callback a worker takes on is accounted for: over any run, the calls promised by the pairs
  \<open>requestAttentionKvPair\<close> accepted (the final callback and, where given, the one for the K tile) are
  exactly those still owed by an entry of \<open>workerKvCallbacks_\<close>, those made, and those withdrawn
  by a cancelled generation.  So none is called twice or forgotten, whichever deliveries
  fail, arrive late or are repeated; the bound keeps the request numbers from wrapping around.
\<close>

theorem kv_callbacks_accounted:
  assumes "wk_run c xs (wk_init mem) = Some (accepted, withdrawn, s)" "length xs < 2 ^ 64"
  shows "accepted = calls_owed s + calls_made (wk_out s) + withdrawn"
proof -
  have "wk_fresh 0 (wk_init mem)" by (simp add: wk_fresh_def wk_init_def callback_ids_def)
  from wk_run_calls [OF assms(1) this] assms(2) have "calls s + withdrawn = calls (wk_init mem) + accepted" by simp
  moreover have "calls (wk_init mem) = {#}" by (simp add: calls_def calls_owed_def wk_init_def)
  ultimately show ?thesis by (simp add: calls_def)
qed

text \<open>An example: a pair whose delivery fails.\<close>

definition wk_ex :: GcConfig where
  "wk_ex = gc_ex\<lparr>cf_role := WORKER, cf_kvEnable := True, cf_workerSlot := 0, cf_reqOut := True\<rparr>"

definition wk_ex_pair :: AttentionKvRequest where
  "wk_ex_pair = (attentionKvRequestFromMessage (kv_msg 0))"

definition wk_ex_run :: "WkIn list" where
  "wk_ex_run = [WkPair wk_ex_pair (Some 3) (Some 4),
     WkRsp 1 ((GroupCtrlMsg_of ATTENTION_KV_DELIVERY)\<lparr>msg_reqSeq := 1, msg_generation := 1\<rparr>)]"

theorem kv_callbacks_accounted_witness:
  "\<exists>a w s. wk_run wk_ex wk_ex_run (wk_init kv_ex_mem) = Some (a, w, s) \<and> calls_made (wk_out s) = {#KCall 4, FinalCall 3#} \<and>
     a = calls_owed s + calls_made (wk_out s) + w"
proof -
  have "case wk_run wk_ex wk_ex_run (wk_init kv_ex_mem) of None \<Rightarrow> False
      | Some (a, w, s) \<Rightarrow> wk_callbacks s = [] \<and> length (wk_out s) = 4 \<and> drop 2 (wk_out s) = [WkKReady 4 False, WkDone 3 False]
          \<and> list_all (\<lambda>x. case x of WkSend m \<Rightarrow> True | _ \<Rightarrow> False) (take 2 (wk_out s))"
    by code_simp
  then obtain a w s where r: "wk_run wk_ex wk_ex_run (wk_init kv_ex_mem) = Some (a, w, s)"
      "drop 2 (wk_out s) = [WkKReady 4 False, WkDone 3 False]"
      "list_all (\<lambda>x. case x of WkSend m \<Rightarrow> True | _ \<Rightarrow> False) (take 2 (wk_out s))"
    by (auto split: option.splits prod.splits)
  have "list_all (\<lambda>x. case x of WkSend m \<Rightarrow> True | _ \<Rightarrow> False) ys \<Longrightarrow> calls_made ys = {#}" for ys
    by (induction ys) (auto split: WkOut.splits)
  from this [OF r(3)] have "calls_made (take 2 (wk_out s)) = {#}" .
  then have "calls_made (take 2 (wk_out s) @ drop 2 (wk_out s)) = {#KCall 4, FinalCall 3#}"
    unfolding calls_made_append r(2) by simp
  then have "calls_made (wk_out s) = {#KCall 4, FinalCall 3#}" unfolding append_take_drop_id .
  moreover have "a = calls_owed s + calls_made (wk_out s) + w"
    by (rule kv_callbacks_accounted [OF r(1)]) (simp add: wk_ex_run_def)
  ultimately show ?thesis using r(1) by blast
qed

section \<open>What the mailbox makes the worker send\<close>

definition polled :: "GroupCtrlMsgType \<Rightarrow> WkOut list \<Rightarrow> u64 list" where
  "polled t out = concat (map (\<lambda>x. case x of WkSend m \<Rightarrow> if msg_type m = t then [msg_reqSeq m] else [] | _ \<Rightarrow> []) out)"

lemma polled_append [simp]: "polled t (xs @ ys) = polled t xs @ polled t ys" "polled t [] = []"
  "polled t (x # xs) = (case x of WkSend m \<Rightarrow> if msg_type m = t then [msg_reqSeq m] else [] | _ \<Rightarrow> []) @ polled t xs"
  by (simp_all add: polled_def)

definition poll_types :: "GroupCtrlMsgType set" where
  "poll_types = {REQUEST, DONE, FINISHED}"

text \<open>The operations other than the polling send none of these and leave its marks alone.\<close>

definition quiet :: "GcWorker \<Rightarrow> GcWorker \<Rightarrow> bool" where
  "quiet s s' \<longleftrightarrow> (\<forall>t \<in> poll_types. polled t (wk_out s') = polled t (wk_out s)) \<and>
     wk_reqSeqSeen s' = wk_reqSeqSeen s \<and> wk_doneSeqSeen s' = wk_doneSeqSeen s \<and> wk_finishedSeen s' = wk_finishedSeen s"

lemma quiet_refl [simp]: "quiet s s"
  by (simp add: quiet_def)


lemma msg_type_simps [simp]: "msg_type (GroupCtrlMsg_of t) = t" "msg_type (wk_message c t) = t"
  "msg_type (fillAttentionKvMessage r m) = msg_type m" "msg_reqSeq (fillAttentionKvMessage r m) = msg_reqSeq m"
  by (simp_all add: GroupCtrlMsg_of_def wk_message_def fillAttentionKvMessage_def)


lemma quiet_announceK [simp]: "quiet s (announceK x s)"
  by (auto simp: quiet_def announceK_def Let_def wk_emit_def split: option.split)

lemma quiet_upd [simp]: "quiet s (upd_delivery rid f s') = quiet s s'" "quiet (upd_delivery rid f s) s' = quiet s s'"
  by (simp_all add: quiet_def upd_delivery_def)



















section \<open>Grants in the mailbox\<close>

lemma mailbox_u32_merge: "ucast ((cur AND - 4294967296 OR ucast v) AND 4294967295 :: u64) = (v :: u32)"
proof -
  have m: "- 4294967296 = NOT (mask 32 :: u64)" "4294967295 = (mask 32 :: u64)" by (simp_all add: mask_eq_exp_minus_1)
  show ?thesis unfolding m by (rule bit_word_eqI) (auto simp: bit_simps)
qed

lemma writeMailboxU32_aligned:
  assumes "off AND NOT 7 = off"
  shows "writeMailboxU32 c off v s = do { cur \<leftarrow> readMailbox c off s; writeMailbox c off ((cur AND NOT 0xffffffff) OR ucast v) s }"
  using assms by (simp add: writeMailboxU32_def Let_def)

lemma readMailboxU32_same:
  assumes "writeMailboxU32 c off v s = Some s'" "off AND NOT 7 = off"
  shows "readMailboxU32 c off s' = Some v"
proof -
  obtain cur where "write_u64_to_storage (mailboxAddr c off) (cur AND - 4294967296 OR ucast v) s = Some s'"
    using assms by (auto simp: writeMailboxU32_aligned readMailbox_def writeMailbox_def ctrlWriteLocalU64_def split: bind_splits)
  from gm_cells.rd_wr_same [OF this] show ?thesis
    by (simp add: readMailboxU32_def readMailbox_def ctrlReadLocalU64_def mailbox_u32_merge)
qed

lemma readMailbox_apart:
  assumes "writeMailboxU32 c off v s = Some s'" "off AND NOT 7 = off" "cells_apart (mailboxAddr c off) (mailboxAddr c off')"
  shows "readMailbox c off' s' = readMailbox c off' s"
  using assms gm_cells.rd_wr_apart
  by (auto simp: writeMailboxU32_aligned readMailbox_def writeMailbox_def ctrlReadLocalU64_def
      ctrlWriteLocalU64_def split: bind_splits)

text \<open>(C39)
  A grant of the manager reaches the core: after \<open>handleRsp\<close> the mailbox holds the low 32 bits of
  the granted number and the window, the words of the core's own request are as before,
  and the worker has recorded the grant.
\<close>

theorem grant_reaches_mailbox:
  assumes "handleRsp c now m s = Some s'" "msg_type m = GRANT"
    and "unat (cf_gmBaseAddr c) + 0x2000 < 2 ^ 64"
  shows "readMailboxU32 c CTRL_LOCAL_GRANT_SEQ_OFF (wk_mem s') = Some (ucast (msg_reqSeq m)) \<and>
     readMailboxU32 c CTRL_LOCAL_GRANT_WINDOW_OFF (wk_mem s') = Some (ucast (msg_window m)) \<and>
     readMailbox c CTRL_LOCAL_REQ_SEQ_OFF (wk_mem s') = readMailbox c CTRL_LOCAL_REQ_SEQ_OFF (wk_mem s) \<and>
     readMailbox c CTRL_LOCAL_REQ_VALID_OFF (wk_mem s') = readMailbox c CTRL_LOCAL_REQ_VALID_OFF (wk_mem s) \<and>
     wk_grantSeq s' = msg_reqSeq m \<and> wk_grantWindow s' = msg_window m"
proof -
  obtain mem1 mem2 where w: "writeMailboxU32 c CTRL_LOCAL_GRANT_SEQ_OFF (ucast (msg_reqSeq m)) (wk_mem s) = Some mem1"
      "writeMailboxU32 c CTRL_LOCAL_GRANT_WINDOW_OFF (ucast (msg_window m)) mem1 = Some mem2"
      "s' = s\<lparr>wk_grantSeq := msg_reqSeq m, wk_grantWindow := msg_window m, wk_mem := mem2\<rparr>"
    using assms(1,2) by (auto simp: handleRsp_def split: bind_splits)
  have at: "unat (mailboxAddr c off) = unat (cf_gmBaseAddr c) + 0x1900 + unat off" if "off < 0x100" for off
  proof -
    have "unat off < 0x100" using that by (simp add: word_less_nat_alt)
    then show ?thesis using assms(3) by (simp add: mailboxAddr_def CTRL_LOCAL_MAILBOX_BASE_def unat_word_ariths)
  qed
  have apart: "cells_apart (mailboxAddr c a) (mailboxAddr c b)"
    if "a < 0x100" "b < 0x100" "unat a + 8 \<le> unat b \<or> unat b + 8 \<le> unat a" for a b
    using that at by (auto simp: cells_apart_def)
  have al: "CTRL_LOCAL_GRANT_SEQ_OFF AND NOT 7 = CTRL_LOCAL_GRANT_SEQ_OFF"
      "CTRL_LOCAL_GRANT_WINDOW_OFF AND NOT 7 = CTRL_LOCAL_GRANT_WINDOW_OFF" by (simp_all add: mailbox_offsets)
  note frame = readMailbox_apart [OF w(1) al(1) apart] readMailbox_apart [OF w(2) al(2) apart]
  have "readMailboxU32 c CTRL_LOCAL_GRANT_SEQ_OFF mem2 = readMailboxU32 c CTRL_LOCAL_GRANT_SEQ_OFF mem1"
    unfolding readMailboxU32_def by (simp add: frame mailbox_offsets)
  then show ?thesis using readMailboxU32_same [OF w(1) al(1)] readMailboxU32_same [OF w(2) al(2)]
    by (simp add: w(3) frame mailbox_offsets)
qed

lemma writeMailboxU32_Some:
  assumes "u64_ok (mailboxAddr c off) s" "off AND NOT 7 = off"
  shows "\<exists>s'. writeMailboxU32 c off v s = Some s' \<and> (\<forall>a. u64_ok a s' = u64_ok a s)"
proof -
  obtain cur where cur: "read_u64_from_storage (mailboxAddr c off) s = Some cur"
    using assms(1) gm_cells.rd_ok [of "mailboxAddr c off" s] by auto
  obtain s' where s': "write_u64_to_storage (mailboxAddr c off) ((cur AND NOT 0xffffffff) OR ucast v) s = Some s'"
    using assms(1) gm_cells.wr_ok [of "mailboxAddr c off" s] by blast
  then show ?thesis using cur gm_cells.ok_wr [OF s']
    by (auto simp: writeMailboxU32_aligned [OF assms(2)] readMailbox_def writeMailbox_def ctrlReadLocalU64_def ctrlWriteLocalU64_def)
qed

definition wk_grant_ex :: GcWorker where
  "wk_grant_ex = wk_init (the (gl_construct 0 0x2000 1 8 1 1 4 8 False 1))"

theorem grant_reaches_mailbox_witness:
  "\<exists>s'. handleRsp wk_ex 1 ((GroupCtrlMsg_of GRANT)\<lparr>msg_reqSeq := 7, msg_window := 2\<rparr>) wk_grant_ex = Some s' \<and>
     readMailboxU32 wk_ex CTRL_LOCAL_GRANT_SEQ_OFF (wk_mem s') = Some 7"
proof -
  let ?m = "(GroupCtrlMsg_of GRANT)\<lparr>msg_reqSeq := 7, msg_window := 2\<rparr>"
  have ok: "u64_ok (mailboxAddr wk_ex CTRL_LOCAL_GRANT_SEQ_OFF) (wk_mem wk_grant_ex)"
      "u64_ok (mailboxAddr wk_ex CTRL_LOCAL_GRANT_WINDOW_OFF) (wk_mem wk_grant_ex)"
    by (simp_all add: u64_ok_def u64_in_range_def gs_offset_def wk_grant_ex_def wk_init_def gl_construct_def
        mailboxAddr_def mailbox_offsets wk_ex_def gc_ex_def)
  obtain m1 where m1: "writeMailboxU32 wk_ex CTRL_LOCAL_GRANT_SEQ_OFF 7 (wk_mem wk_grant_ex) = Some m1"
      "\<forall>a. u64_ok a m1 = u64_ok a (wk_mem wk_grant_ex)"
    using writeMailboxU32_Some [OF ok(1), of 7] by (auto simp: mailbox_offsets)
  obtain m2 where m2: "writeMailboxU32 wk_ex CTRL_LOCAL_GRANT_WINDOW_OFF 2 m1 = Some m2"
    using writeMailboxU32_Some [of wk_ex CTRL_LOCAL_GRANT_WINDOW_OFF m1 2] ok(2) m1(2) by (auto simp: mailbox_offsets)
  have r: "handleRsp wk_ex 1 ?m wk_grant_ex = Some (wk_grant_ex\<lparr>wk_grantSeq := 7, wk_grantWindow := 2, wk_mem := m2\<rparr>)"
    by (simp add: handleRsp_def m1 m2)
  have "readMailboxU32 wk_ex CTRL_LOCAL_GRANT_SEQ_OFF m2 = Some 7"
    using grant_reaches_mailbox [OF r] by (simp add: wk_ex_def gc_ex_def)
  then show ?thesis using r by simp
qed

end
