(* ===== verification/Request_Sched_Core.thy ===== *)
theory Request_Sched_Core
  imports Group_Ctrl_Msg
begin

text \<open>
  The data of \<open>RequestSchedulerEndpoint\<close> (\<open>requestscheduler/requestscheduler.h\<close> and \<open>.cc\<close>): its
  messages, its parameters with the derived credit caps, the layout of request numbers, and the
  chunk a panel issues next.
\<close>

unbundle bit_operations_syntax

section \<open>Messages\<close>

datatype RequestSchedulerMsgType = RS_SUBMIT | RS_DONE

datatype RequestSchedulerRole = RS_WORKER | RS_MANAGER

record RequestSchedulerMsg =
  rm_type :: RequestSchedulerMsgType
  rm_groupId :: u8
  rm_workerSlot :: u8
  rm_srcCoreId :: u16
  rm_requestId :: u64
  rm_srcAddr :: u64
  rm_dstAddr :: u64
  rm_bytes :: u32
  rm_targetNode :: u16
  rm_completionFlagAddr :: u64
  rm_completionValue :: u64
  rm_pendingClearCycle :: nat
  rm_batchCount :: u16
  rm_batchRequestIds :: "u64 list"
  rm_batchSrcAddrs :: "u64 list"
  rm_batchDstAddrs :: "u64 list"
  rm_batchBytes :: "u32 list"
  rm_batchTargetNodes :: "u16 list"
  rm_batchCompletionFlagAddrs :: "u64 list"
  rm_batchCompletionValues :: "u64 list"
  rm_batchPendingClearCycles :: "nat list"

definition RequestSchedulerMsg_of :: "RequestSchedulerMsgType \<Rightarrow> RequestSchedulerMsg" where
  "RequestSchedulerMsg_of t = \<lparr>rm_type = t, rm_groupId = 0, rm_workerSlot = 0, rm_srcCoreId = 0, rm_requestId = 0,
     rm_srcAddr = 0, rm_dstAddr = 0, rm_bytes = 0, rm_targetNode = 0, rm_completionFlagAddr = 0,
     rm_completionValue = 0, rm_pendingClearCycle = 0, rm_batchCount = 0, rm_batchRequestIds = [],
     rm_batchSrcAddrs = [], rm_batchDstAddrs = [], rm_batchBytes = [], rm_batchTargetNodes = [],
     rm_batchCompletionFlagAddrs = [], rm_batchCompletionValues = [], rm_batchPendingClearCycles = []\<rparr>"

record PendingTransfer =
  pt_workerSlot :: u8
  pt_workerCoreId :: u16
  pt_requestId :: u64
  pt_srcAddr :: u64
  pt_dstAddr :: u64
  pt_bytes :: u32
  pt_targetNode :: u16
  pt_completionFlagAddr :: u64
  pt_completionValue :: u64
  pt_issuedBytes :: u32

section \<open>Parameters\<close>

record RsConfig =
  rc_role :: RequestSchedulerRole
  rc_coreId :: u32
  rc_groupId :: u32
  rc_workerSlot :: int
  rc_queueDepth :: nat
  rc_panelChunkBytes :: u32
  rc_workerCreditCap :: u32
  rc_workerSoftIssueCap :: u32
  rc_managerIssueBudgetPerTick :: nat
  rc_tileChunkQuantum :: nat
  rc_submitBatchSize :: nat
  rc_doneBatchSize :: nat
  rc_prefetchWindowDepth :: u32
  rc_localSlotCount :: u32
  rc_aReuseNTiles :: u32
  rc_bReuseMTiles :: u32
  rc_numMemoryNodes :: nat
  rc_inferSubmitBytes :: bool
  rc_eventDrivenWorker :: bool
  rc_groupRoundRobin :: bool
  rc_slot0Bytes :: u32
  rc_slot1Bytes :: u32
  rc_gmBaseAddr :: u64
  rc_gmSize :: u64
  rc_windowKtiles :: u32
  rc_reqOut :: bool

definition rs_parseRole :: "string \<Rightarrow> RequestSchedulerRole" where
  "rs_parseRole role = (if role = ''manager'' then RS_MANAGER else RS_WORKER)"

definition rs_parseU32Param :: "string option \<Rightarrow> u32 \<Rightarrow> u32 option" where
  "rs_parseU32Param value dflt =
     (case value of None \<Rightarrow> Some dflt
      | Some v \<Rightarrow> if v = [] then Some dflt else map_option of_nat (stoull v))"

definition rs_parseI32Param :: "string option \<Rightarrow> int \<Rightarrow> int option" where
  "rs_parseI32Param value dflt =
     (case value of None \<Rightarrow> Some dflt
      | Some v \<Rightarrow> if v = [] then Some dflt else map_option (\<lambda>i. sint (of_int i :: u32)) (stoll v))"

definition rs_parseU64Param :: "string option \<Rightarrow> u64 \<Rightarrow> u64 option" where
  "rs_parseU64Param value dflt =
     (case value of None \<Rightarrow> Some dflt
      | Some v \<Rightarrow> if v = [] then Some dflt else map_option of_nat (stoull v))"

text \<open>The credit computations, in the 64-bit arithmetic of the source.\<close>

definition computeWorkerResidentK :: "RsConfig \<Rightarrow> u32" where
  "computeWorkerResidentK c =
     (let reuseM = ucast (max (rc_bReuseMTiles c) 1) :: u64;
          reuseN = ucast (max (rc_aReuseNTiles c) 1) :: u64;
          windowBuffers = ucast (max (rc_prefetchWindowDepth c + 1) 1) :: u64;
          slotCount = ucast (max (rc_localSlotCount c) 1) :: u64;
          residentK = ucast (max (rc_windowKtiles c) 1) :: u64;
          residentK' =
            (if 1 < reuseM \<or> 1 < reuseN
             then max 1 (min residentK (min (slotCount div max 1 (windowBuffers * reuseM))
                                            (slotCount div max 1 (windowBuffers * reuseN))))
             else residentK)
      in ucast (min residentK' 4096))"

definition computeWorkerCreditCap :: "RsConfig \<Rightarrow> u32" where
  "computeWorkerCreditCap c =
     (let reuseM = ucast (max (rc_bReuseMTiles c) 1) :: u64;
          reuseN = ucast (max (rc_aReuseNTiles c) 1) :: u64;
          creditWindowBuffers = ucast (max (rc_prefetchWindowDepth c + 1) 1) :: u64;
          residentK = ucast (max (computeWorkerResidentK c) 1) :: u64;
          requestsPerWindow = residentK * (reuseM + reuseN);
          cap = max (reuseM + reuseN) (creditWindowBuffers * requestsPerWindow)
      in ucast (min cap 4096))"

definition computeWorkerSoftIssueCap :: "RsConfig \<Rightarrow> u32" where
  "computeWorkerSoftIssueCap c = (if rc_workerCreditCap c = 0 then computeWorkerCreditCap c else rc_workerCreditCap c)"

text \<open>The body of the constructor: zero parameters get their defaults, then the caps.\<close>

definition rs_nonzero :: "nat \<Rightarrow> nat" where
  "rs_nonzero n = (if n = 0 then 1 else n)"

definition rs_configure :: "u32 \<Rightarrow> RsConfig \<Rightarrow> RsConfig" where
  "rs_configure configuredCap c =
     (let c1 = c\<lparr>rc_submitBatchSize := rs_nonzero (rc_submitBatchSize c), rc_doneBatchSize := rs_nonzero (rc_doneBatchSize c),
            rc_managerIssueBudgetPerTick := rs_nonzero (rc_managerIssueBudgetPerTick c),
            rc_tileChunkQuantum := rs_nonzero (rc_tileChunkQuantum c),
            rc_windowKtiles := (if rc_windowKtiles c = 0 then 1 else rc_windowKtiles c),
            rc_panelChunkBytes := (if rc_panelChunkBytes c = 0 then 2048 else rc_panelChunkBytes c),
            rc_prefetchWindowDepth := (if rc_prefetchWindowDepth c = 0 then 1 else rc_prefetchWindowDepth c),
            rc_localSlotCount := (if rc_localSlotCount c = 0 then 1 else rc_localSlotCount c),
            rc_aReuseNTiles := (if rc_aReuseNTiles c = 0 then 1 else rc_aReuseNTiles c),
            rc_bReuseMTiles := (if rc_bReuseMTiles c = 0 then 1 else rc_bReuseMTiles c)\<rparr>;
          c2 = c1\<lparr>rc_workerCreditCap := (if configuredCap \<noteq> 0 then min configuredCap 4096 else computeWorkerCreditCap c1)\<rparr>
      in c2\<lparr>rc_workerSoftIssueCap := computeWorkerSoftIssueCap c2\<rparr>)"

text \<open>\<open>traceDefault\<close> is what the environment variable gives for \<open>trace_events\<close>, which only selects printing.\<close>

definition rs_construct :: "(string \<Rightarrow> string option) \<Rightarrow> int \<Rightarrow> bool \<Rightarrow> RsConfig option" where
  "rs_construct params traceDefault reqOut =
     do { let role = rs_parseRole (case params ''role'' of Some v \<Rightarrow> v | None \<Rightarrow> ''worker'');
          coreId \<leftarrow> rs_parseU32Param (params ''core_id'') 0;
          groupId \<leftarrow> rs_parseU32Param (params ''group_id'') 0;
          workerSlot \<leftarrow> rs_parseI32Param (params ''worker_slot'') (-1);
          queueDepth \<leftarrow> rs_parseU32Param (params ''queue_depth'') 64;
          panelChunk \<leftarrow> rs_parseU32Param (params ''panel_chunk_bytes'') 2048;
          budget \<leftarrow> rs_parseU32Param (params ''manager_issue_budget_per_tick'') 2;
          quantum \<leftarrow> rs_parseU32Param (params ''tile_chunk_quantum'') 1;
          submitBatch \<leftarrow> rs_parseU32Param (params ''submit_batch_size'') 4;
          doneBatch \<leftarrow> rs_parseU32Param (params ''done_batch_size'') 4;
          prefetch \<leftarrow> rs_parseU32Param (params ''prefetch_windows'') 1;
          slots \<leftarrow> rs_parseU32Param (params ''local_slot_count'') 2;
          aReuse \<leftarrow> rs_parseU32Param (params ''a_reuse_n_tiles'') 1;
          bReuse \<leftarrow> rs_parseU32Param (params ''b_reuse_m_tiles'') 1;
          windowK \<leftarrow> rs_parseU32Param (params ''window_k_tiles'') 1;
          memNodes \<leftarrow> rs_parseU32Param (params ''num_memory_nodes'') 5;
          infer \<leftarrow> rs_parseI32Param (params ''infer_submit_bytes'') 0;
          trace \<leftarrow> rs_parseI32Param (params ''trace_events'') traceDefault;
          eventDriven \<leftarrow> rs_parseI32Param (params ''event_driven_worker'') 0;
          roundRobin \<leftarrow> rs_parseI32Param (params ''group_round_robin'') 0;
          slot0 \<leftarrow> rs_parseU32Param (params ''slot0_bytes'') 0;
          slot1 \<leftarrow> rs_parseU32Param (params ''slot1_bytes'') 0;
          gmBase \<leftarrow> rs_parseU64Param (params ''gm_base_addr'') 0;
          gmBytes \<leftarrow> rs_parseU64Param (params ''gm_size'') 0;
          verbosity \<leftarrow> rs_parseI32Param (params ''verbose'') 0;
          cap \<leftarrow> rs_parseU32Param (params ''worker_credit_cap'') 0;
          Some (rs_configure cap \<lparr>rc_role = role, rc_coreId = coreId, rc_groupId = groupId, rc_workerSlot = workerSlot,
            rc_queueDepth = unat queueDepth, rc_panelChunkBytes = panelChunk, rc_workerCreditCap = 0,
            rc_workerSoftIssueCap = 0, rc_managerIssueBudgetPerTick = unat budget, rc_tileChunkQuantum = unat quantum,
            rc_submitBatchSize = unat submitBatch, rc_doneBatchSize = unat doneBatch, rc_prefetchWindowDepth = prefetch,
            rc_localSlotCount = slots, rc_aReuseNTiles = aReuse, rc_bReuseMTiles = bReuse,
            rc_numMemoryNodes = unat memNodes, rc_inferSubmitBytes = (infer \<noteq> 0), rc_eventDrivenWorker = (eventDriven \<noteq> 0),
            rc_groupRoundRobin = (roundRobin \<noteq> 0), rc_slot0Bytes = slot0, rc_slot1Bytes = slot1,
            rc_gmBaseAddr = gmBase, rc_gmSize = gmBytes, rc_windowKtiles = windowK, rc_reqOut = (role = RS_WORKER \<and> reqOut)\<rparr>) }"

definition inferBytesForSlot :: "RsConfig \<Rightarrow> u8 \<Rightarrow> u32 \<Rightarrow> u32" where
  "inferBytesForSlot c slot mailboxBytes =
     (if \<not> rc_inferSubmitBytes c then mailboxBytes
      else if slot = 0 \<and> 0 < rc_slot0Bytes c then rc_slot0Bytes c
      else if slot = 1 \<and> 0 < rc_slot1Bytes c then rc_slot1Bytes c
      else mailboxBytes)"

section \<open>Request numbers\<close>

definition WINDOW_REQUEST_TILE_BITS :: nat where "WINDOW_REQUEST_TILE_BITS = 12"
definition WINDOW_REQUEST_TILE_MASK :: u64 where "WINDOW_REQUEST_TILE_MASK = push_bit WINDOW_REQUEST_TILE_BITS 1 - 1"

definition decodeRequestSlot :: "u64 \<Rightarrow> u8" where
  "decodeRequestSlot requestId = ucast (drop_bit 48 requestId AND 0xff)"

definition decodeSiblingRequestId :: "u64 \<Rightarrow> u64" where
  "decodeSiblingRequestId requestId = requestId XOR push_bit 48 1"

definition composeWindowRequestId :: "RsConfig \<Rightarrow> u8 \<Rightarrow> u16 \<Rightarrow> u64 \<Rightarrow> u32 \<Rightarrow> u64" where
  "composeWindowRequestId c slot targetNode txnId tileIdx =
     (let seq = push_bit WINDOW_REQUEST_TILE_BITS (txnId AND 0xffffff) OR (ucast tileIdx AND WINDOW_REQUEST_TILE_MASK)
      in push_bit 56 (ucast (rc_coreId c AND 0xff)) OR push_bit 48 (ucast slot) OR push_bit 32 (ucast targetNode AND 0xffff)
         OR (seq AND 0xffffffff))"

definition requestPriorityKey :: "PendingTransfer \<Rightarrow> u64" where
  "requestPriorityKey req =
     (let seq = pt_requestId req AND 0xffffffff;
          txnSeq = drop_bit WINDOW_REQUEST_TILE_BITS seq;
          tileIdx = seq AND WINDOW_REQUEST_TILE_MASK;
          slot = ucast (decodeRequestSlot (pt_requestId req)) :: u64;
          continuation = (if pt_issuedBytes req = 0 then 0 else 1 :: u64)
      in push_bit 24 txnSeq OR push_bit 8 tileIdx OR push_bit 4 continuation OR (slot AND 0x0f))"

definition chunkBytesForTransfer :: "RsConfig \<Rightarrow> PendingTransfer \<Rightarrow> u32" where
  "chunkBytesForTransfer c req =
     (if pt_bytes req \<le> pt_issuedBytes req then 0
      else
        (let remaining = pt_bytes req - pt_issuedBytes req;
             chunkLimit = (if rc_panelChunkBytes c = 0 then remaining else rc_panelChunkBytes c)
         in min remaining (max chunkLimit 1)))"

lemma chunk_zero_iff: "chunkBytesForTransfer c x = 0 \<longleftrightarrow> pt_bytes x \<le> pt_issuedBytes x"
proof -
  have "0 < pt_bytes x - pt_issuedBytes x" if "pt_issuedBytes x < pt_bytes x"
    using that by (simp add: word_less_nat_alt unat_sub less_imp_le)
  moreover have "max a (1 :: u32) \<noteq> 0" for a
    by (auto simp: max_def word_le_nat_alt)
  ultimately show ?thesis by (auto simp: chunkBytesForTransfer_def Let_def not_le min_def split: if_splits)
qed

lemma chunk_in_panel:
  "unat (pt_issuedBytes x) + unat (chunkBytesForTransfer c x) \<le> unat (pt_bytes x) \<or> chunkBytesForTransfer c x = 0"
proof (cases "pt_bytes x \<le> pt_issuedBytes x")
  case False
  have "chunkBytesForTransfer c x \<le> pt_bytes x - pt_issuedBytes x" using False by (simp add: chunkBytesForTransfer_def Let_def)
  then have "unat (chunkBytesForTransfer c x) \<le> unat (pt_bytes x) - unat (pt_issuedBytes x)"
    using False by (simp add: word_le_nat_alt unat_sub)
  moreover have "unat (pt_issuedBytes x) < unat (pt_bytes x)" using False by (simp add: word_le_nat_alt)
  ultimately show ?thesis by linarith
qed (simp add: chunkBytesForTransfer_def)

lemma unat_issued_chunk:
  "chunkBytesForTransfer c x \<noteq> 0 \<Longrightarrow>
     unat (pt_issuedBytes x + chunkBytesForTransfer c x) = unat (pt_issuedBytes x) + unat (chunkBytesForTransfer c x)"
proof -
  assume a: "chunkBytesForTransfer c x \<noteq> 0"
  have "unat (pt_bytes x) < 2 ^ 32" using unsigned_less [of "pt_bytes x"] by simp
  then show ?thesis using chunk_in_panel [of x c] a by (subst unat_add_lem [THEN iffD1]) auto
qed

section \<open>Derived caps\<close>

lemma cap_4096:
  assumes "0 < (x :: u64)"
  shows "0 < (ucast (min x 4096) :: u32) \<and> (ucast (min x 4096) :: u32) \<le> 4096"
proof -
  have le: "unat (min x 4096) \<le> 4096" by (simp add: min_def word_le_nat_alt)
  have pos: "0 < unat (min x 4096)" using assms by (simp add: min_def word_less_nat_alt)
  have "unat (ucast (min x 4096) :: u32) = unat (min x 4096)"
    unfolding unsigned_ucast_eq using le by (simp add: take_bit_nat_def)
  with le pos show ?thesis by (simp add: word_less_nat_alt word_le_nat_alt)
qed

lemma creditCap_range: "0 < computeWorkerCreditCap c \<and> computeWorkerCreditCap c \<le> 4096"
proof -
  let ?a = "max (rc_bReuseMTiles c) 1" and ?b = "max (rc_aReuseNTiles c) 1"
  have a: "0 < unat ?a" by (simp add: max_def word_le_nat_alt)
  have lt: "unat ?a < 2 ^ 32" "unat ?b < 2 ^ 32" using unsigned_less [of ?a] unsigned_less [of ?b] by simp_all
  have "unat (ucast ?a + ucast ?b :: u64) = unat ?a + unat ?b"
    using lt by (simp add: unat_word_ariths unsigned_ucast_eq take_bit_nat_def)
  then have "0 < (ucast ?a + ucast ?b :: u64)" using a by (simp add: word_less_nat_alt)
  then have "0 < max (ucast ?a + ucast ?b :: u64) m" for m using less_le_trans by fastforce
  from cap_4096 [OF this] show ?thesis by (simp add: computeWorkerCreditCap_def Let_def)
qed

text \<open>(C26)
  A constructed scheduler can always issue: its batch sizes, issue budget and quantum are positive,
  and every worker gets between one and 4096 credits, whatever the parameters are and
  even where the 64-bit products behind the derived cap wrap around.
\<close>

theorem rs_construct_can_issue:
  assumes "rs_construct params traceDefault reqOut = Some c"
  shows "0 < rc_managerIssueBudgetPerTick c \<and> 0 < rc_tileChunkQuantum c \<and> 0 < rc_submitBatchSize c \<and>
     0 < rc_doneBatchSize c \<and> 0 < rc_panelChunkBytes c \<and> 0 < rc_workerCreditCap c \<and> rc_workerCreditCap c \<le> 4096"
proof -
  obtain cap d where c: "c = rs_configure cap d"
    using assms by (auto simp: rs_construct_def Let_def split: bind_splits)
  show ?thesis
    unfolding c using creditCap_range by (auto simp: rs_configure_def rs_nonzero_def Let_def word_gt_0 min_def)
qed

theorem rs_construct_can_issue_witness:
  "\<exists>c. rs_construct (\<lambda>k. if k = ''manager_issue_budget_per_tick'' then Some ''0'' else None) 0 True = Some c \<and>
     0 < rc_managerIssueBudgetPerTick c"
proof -
  have "rs_construct (\<lambda>k. if k = ''manager_issue_budget_per_tick'' then Some ''0'' else None) 0 True \<noteq> None"
    by (simp add: rs_construct_def rs_parseU32Param_def rs_parseI32Param_def rs_parseU64Param_def stoull_def
        is_space_def digits_of_def number_of_def digit_value_def Let_def)
  then show ?thesis using rs_construct_can_issue by blast
qed

lemma mask_lits: "(0xff :: u64) = mask 8" "(0xffff :: u64) = mask 16" "(0xffffffff :: u64) = mask 32"
  "(0xffffff :: u64) = mask 24" "(0xff :: u32) = mask 8"
  by (simp_all add: mask_eq_exp_minus_1)

lemma bit_slot_flag: "bit (281474976710656 :: int) n \<longleftrightarrow> n = 48"
  using bit_exp_iff [of 48 n, where 'a = int] by simp

lemma tile_mask: "WINDOW_REQUEST_TILE_MASK = mask 12"
  by (simp add: WINDOW_REQUEST_TILE_MASK_def WINDOW_REQUEST_TILE_BITS_def mask_eq_exp_minus_1)

text \<open>(C27)
  The number a worker gives to a window request can be taken apart again: the slot, the memory node
  and, below them, 20 bits of the transaction and 12 bits of the tile come back, and the
  sibling number is the same request for the other operand.
\<close>

theorem window_request_id_decodes:
  "decodeRequestSlot (composeWindowRequestId c slot node txn tile) = slot \<and>
   ucast (drop_bit 32 (composeWindowRequestId c slot node txn tile)) = node \<and>
   drop_bit 12 (composeWindowRequestId c slot node txn tile AND 0xffffffff) = txn AND mask 20 \<and>
   composeWindowRequestId c slot node txn tile AND WINDOW_REQUEST_TILE_MASK = ucast tile AND WINDOW_REQUEST_TILE_MASK \<and>
   decodeSiblingRequestId (composeWindowRequestId c 0 node txn tile) = composeWindowRequestId c 1 node txn tile"
proof (intro conjI)
  show "decodeRequestSlot (composeWindowRequestId c slot node txn tile) = slot"
    unfolding decodeRequestSlot_def composeWindowRequestId_def Let_def tile_mask mask_lits WINDOW_REQUEST_TILE_BITS_def
    by (rule bit_word_eqI) (auto simp: bit_simps)
  show "ucast (drop_bit 32 (composeWindowRequestId c slot node txn tile)) = node"
    unfolding composeWindowRequestId_def Let_def tile_mask mask_lits WINDOW_REQUEST_TILE_BITS_def
    by (rule bit_word_eqI) (auto simp: bit_simps)
  show "drop_bit 12 (composeWindowRequestId c slot node txn tile AND 0xffffffff) = txn AND mask 20"
    unfolding composeWindowRequestId_def Let_def tile_mask mask_lits WINDOW_REQUEST_TILE_BITS_def
    by (rule bit_word_eqI) (auto simp: bit_simps)
  show "composeWindowRequestId c slot node txn tile AND WINDOW_REQUEST_TILE_MASK = ucast tile AND WINDOW_REQUEST_TILE_MASK"
    unfolding composeWindowRequestId_def Let_def tile_mask mask_lits WINDOW_REQUEST_TILE_BITS_def
    by (rule bit_word_eqI) (auto simp: bit_simps)
  show "decodeSiblingRequestId (composeWindowRequestId c 0 node txn tile) = composeWindowRequestId c 1 node txn tile"
    unfolding decodeSiblingRequestId_def composeWindowRequestId_def Let_def tile_mask mask_lits WINDOW_REQUEST_TILE_BITS_def
    by (rule bit_word_eqI) (auto simp: bit_simps bit_slot_flag)
qed

end
