(* ===== verification/Request_Sched_Manager.thy ===== *)
theory Request_Sched_Manager
  imports Request_Sched_Core "HOL-Library.Multiset"
begin

text \<open>
  The manager side of \<open>RequestSchedulerEndpoint\<close>: per node and worker queues of panels, worker credits,
  the issue loop \<open>tryIssue\<close> with its two policies, and the trace and pressure samples.  The network
  and the address resolution of the global memory are a parameter: which endpoint an address
  belongs to, and whether the \<open>n\<close>-th packet offered to the link is taken.
\<close>

section \<open>State\<close>

record RsNet =
  nw_ready :: bool
  nw_resolve :: "u64 \<Rightarrow> int"
  nw_memNic :: "u64 \<Rightarrow> int"
  nw_targetRouter :: "u64 \<Rightarrow> int"
  nw_accepts :: "nat \<Rightarrow> bool"

text \<open>A read request on the network: the cycle it leaves, destination and answering endpoint, and the chunk.\<close>

datatype RsPacket = RsPacket (rp_cycle: nat) (rp_dest: int) (rp_worker: int) (rp_chunk: PendingTransfer)

record RequestTraceState =
  rt_submitRecvCycle :: nat
  rt_issueCycle :: nat
  rt_pendingClearCycle :: nat
  rt_doneAckCycle :: nat
  rt_requestSlot :: u8
  rt_workerSlot :: u8
  rt_targetNode :: u16
  rt_submitSeen :: bool
  rt_issueSeen :: bool
  rt_pendingClearSeen :: bool
  rt_doneSeen :: bool

definition rt_init :: RequestTraceState where
  "rt_init = \<lparr>rt_submitRecvCycle = 0, rt_issueCycle = 0, rt_pendingClearCycle = 0, rt_doneAckCycle = 0,
     rt_requestSlot = 0, rt_workerSlot = 0, rt_targetNode = 0, rt_submitSeen = False, rt_issueSeen = False,
     rt_pendingClearSeen = False, rt_doneSeen = False\<rparr>"

text \<open>The sample series; a pair holds the series of slot 0 (mat) and of slot 1 (vec).\<close>

record RsTrace =
  tr_requests :: "u64 \<Rightarrow> RequestTraceState option"
  tr_pairIssueCounted :: "u64 list"
  tr_pairDoneCounted :: "u64 list"
  tr_submitToIssue :: "nat list \<times> nat list"
  tr_issueToPendingClear :: "nat list \<times> nat list"
  tr_pendingClearToDoneAck :: "nat list \<times> nat list"
  tr_issueToDone :: "nat list \<times> nat list"
  tr_submitToDone :: "nat list \<times> nat list"
  tr_pairIssueGap :: "nat list"
  tr_pairDoneGap :: "nat list"

definition tr_init :: RsTrace where
  "tr_init = \<lparr>tr_requests = (\<lambda>_. None), tr_pairIssueCounted = [], tr_pairDoneCounted = [], tr_submitToIssue = ([], []),
     tr_issueToPendingClear = ([], []), tr_pendingClearToDoneAck = ([], []), tr_issueToDone = ([], []),
     tr_submitToDone = ([], []), tr_pairIssueGap = [], tr_pairDoneGap = []\<rparr>"

record RsPressure =
  pr_pendingQSamples :: "nat list"
  pr_workerUsedMaxSamples :: "nat list"
  pr_nodeUsedMaxSamples :: "nat list"
  pr_ticks :: nat
  pr_pendingNonEmptyTicks :: nat
  pr_noIssueTicks :: nat
  pr_issuedRequests :: nat
  pr_workerCreditBlocked :: nat
  pr_issuePaceBlocked :: nat
  pr_networkSendBlocked :: nat
  pr_priorityPairAttempts :: nat
  pr_priorityPairIssued :: nat

definition pr_init :: RsPressure where
  "pr_init = \<lparr>pr_pendingQSamples = [], pr_workerUsedMaxSamples = [], pr_nodeUsedMaxSamples = [], pr_ticks = 0,
     pr_pendingNonEmptyTicks = 0, pr_noIssueTicks = 0, pr_issuedRequests = 0, pr_workerCreditBlocked = 0,
     pr_issuePaceBlocked = 0, pr_networkSendBlocked = 0, pr_priorityPairAttempts = 0, pr_priorityPairIssued = 0\<rparr>"

type_synonym panel_queues = "PendingTransfer list list list"

record RsManager =
  mg_queues :: panel_queues
  mg_credits :: "nat list"
  mg_nodeIssueCursor :: nat
  mg_nodeWorkerIssueCursor :: "nat list"
  mg_groupWorkerIssueCursor :: nat
  mg_workerNodeIssueCursor :: "nat list"
  mg_lastTickCycle :: nat
  mg_issueBudgetCycle :: nat
  mg_issuedThisCycle :: nat
  mg_trace :: RsTrace
  mg_pressure :: RsPressure
  mg_attempts :: nat
  mg_sent :: "RsPacket list"

definition mg_init :: "RsConfig \<Rightarrow> RsManager" where
  "mg_init c = \<lparr>mg_queues = replicate (rc_numMemoryNodes c) (replicate 4 []),
     mg_credits = replicate 4 (unat (rc_workerCreditCap c)), mg_nodeIssueCursor = 0,
     mg_nodeWorkerIssueCursor = replicate (rc_numMemoryNodes c) 0, mg_groupWorkerIssueCursor = 0,
     mg_workerNodeIssueCursor = replicate 4 0, mg_lastTickCycle = 0, mg_issueBudgetCycle = 0, mg_issuedThisCycle = 0,
     mg_trace = tr_init, mg_pressure = pr_init, mg_attempts = 0, mg_sent = []\<rparr>"

definition mg_queue :: "nat \<Rightarrow> nat \<Rightarrow> RsManager \<Rightarrow> PendingTransfer list" where
  "mg_queue node worker m = mg_queues m ! node ! worker"

definition mg_set_queue :: "nat \<Rightarrow> nat \<Rightarrow> PendingTransfer list \<Rightarrow> RsManager \<Rightarrow> RsManager" where
  "mg_set_queue node worker q m = m\<lparr>mg_queues := (mg_queues m)[node := (mg_queues m ! node)[worker := q]]\<rparr>"

definition mg_press :: "(RsPressure \<Rightarrow> RsPressure) \<Rightarrow> RsManager \<Rightarrow> RsManager" where
  "mg_press f m = m\<lparr>mg_pressure := f (mg_pressure m)\<rparr>"

definition managerPendingCount :: "RsManager \<Rightarrow> nat" where
  "managerPendingCount m = sum_list (map (\<lambda>perNode. sum_list (map length perNode)) (mg_queues m))"

section \<open>Traces\<close>

definition tr_get :: "u64 \<Rightarrow> RsTrace \<Rightarrow> RequestTraceState" where
  "tr_get rid t = (case tr_requests t rid of Some s \<Rightarrow> s | None \<Rightarrow> rt_init)"

definition tr_put :: "u64 \<Rightarrow> RequestTraceState \<Rightarrow> RsTrace \<Rightarrow> RsTrace" where
  "tr_put rid s t = t\<lparr>tr_requests := (tr_requests t)(rid := Some s)\<rparr>"

text \<open>A sample goes to the series of its slot; other slots are not sampled.\<close>

definition tr_sample :: "u8 \<Rightarrow> nat \<Rightarrow> nat list \<times> nat list \<Rightarrow> nat list \<times> nat list" where
  "tr_sample slot d p = (if slot = 0 then (fst p @ [d], snd p) else if slot = 1 then (fst p, snd p @ [d]) else p)"

definition traceSubmitAtManager :: "nat \<Rightarrow> u64 \<Rightarrow> u8 \<Rightarrow> u16 \<Rightarrow> RsTrace \<Rightarrow> RsTrace" where
  "traceSubmitAtManager now rid workerSlot targetNode t =
     (let s = tr_get rid t in
      if rt_submitSeen s then tr_put rid s t
      else tr_put rid (s\<lparr>rt_submitSeen := True, rt_submitRecvCycle := now, rt_requestSlot := decodeRequestSlot rid,
             rt_workerSlot := workerSlot, rt_targetNode := targetNode\<rparr>) t)"

text \<open>The two requests of a pair differ in bit 48; the gap is recorded once per pair.\<close>

definition pair_base :: "u64 \<Rightarrow> u64" where
  "pair_base rid = rid AND NOT (push_bit 48 1)"

definition pair_gap ::
    "(RequestTraceState \<Rightarrow> bool) \<Rightarrow> (RequestTraceState \<Rightarrow> nat) \<Rightarrow> u64 \<Rightarrow> RsTrace \<Rightarrow> nat option" where
  "pair_gap seen at rid t =
     (case (tr_requests t (pair_base rid), tr_requests t (pair_base rid OR push_bit 48 1)) of
        (Some mat, Some vec) \<Rightarrow>
          if seen mat \<and> seen vec
          then Some (if at mat \<le> at vec then at vec - at mat else at mat - at vec) else None
      | _ \<Rightarrow> None)"

definition traceIssueAtManager :: "nat \<Rightarrow> u64 \<Rightarrow> RsTrace \<Rightarrow> RsTrace" where
  "traceIssueAtManager now rid t0 =
     (let s0 = tr_get rid t0 in
      if rt_issueSeen s0 then tr_put rid s0 t0
      else
        (let s = s0\<lparr>rt_issueSeen := True, rt_issueCycle := now, rt_requestSlot := decodeRequestSlot rid\<rparr>;
             t1 = tr_put rid s t0;
             t2 = (if rt_submitSeen s \<and> rt_submitRecvCycle s \<le> now
                   then t1\<lparr>tr_submitToIssue := tr_sample (rt_requestSlot s) (now - rt_submitRecvCycle s) (tr_submitToIssue t1)\<rparr>
                   else t1)
         in if pair_base rid \<in> set (tr_pairIssueCounted t2) then t2
            else case pair_gap rt_issueSeen rt_issueCycle rid t2 of
                   None \<Rightarrow> t2
                 | Some g \<Rightarrow> t2\<lparr>tr_pairIssueGap := tr_pairIssueGap t2 @ [g],
                               tr_pairIssueCounted := pair_base rid # tr_pairIssueCounted t2\<rparr>))"

text \<open>The delays \<open>traceDoneAtManager\<close> samples before it looks at the pair.\<close>

definition traceDoneSamples :: "RequestTraceState \<Rightarrow> RsTrace \<Rightarrow> RsTrace" where
  "traceDoneSamples s t =
     (let slot = rt_requestSlot s;
          t1 = (if rt_pendingClearSeen s \<and> rt_issueSeen s \<and> rt_issueCycle s \<le> rt_pendingClearCycle s
                then t\<lparr>tr_issueToPendingClear := tr_sample slot (rt_pendingClearCycle s - rt_issueCycle s) (tr_issueToPendingClear t)\<rparr>
                else t);
          t2 = (if rt_pendingClearSeen s \<and> rt_pendingClearCycle s \<le> rt_doneAckCycle s
                then t1\<lparr>tr_pendingClearToDoneAck := tr_sample slot (rt_doneAckCycle s - rt_pendingClearCycle s) (tr_pendingClearToDoneAck t1)\<rparr>
                else t1);
          t3 = (if rt_issueSeen s \<and> rt_issueCycle s \<le> rt_doneAckCycle s
                then t2\<lparr>tr_issueToDone := tr_sample slot (rt_doneAckCycle s - rt_issueCycle s) (tr_issueToDone t2)\<rparr>
                else t2)
      in if rt_submitSeen s \<and> rt_submitRecvCycle s \<le> rt_doneAckCycle s
         then t3\<lparr>tr_submitToDone := tr_sample slot (rt_doneAckCycle s - rt_submitRecvCycle s) (tr_submitToDone t3)\<rparr>
         else t3)"

definition traceDoneAtManager :: "nat \<Rightarrow> u64 \<Rightarrow> nat \<Rightarrow> RsTrace \<Rightarrow> RsTrace" where
  "traceDoneAtManager now rid pendingClearCycle t0 =
     (let s0 = tr_get rid t0 in
      if rt_doneSeen s0 then tr_put rid s0 t0
      else
        (let s1 = s0\<lparr>rt_doneSeen := True, rt_doneAckCycle := now, rt_requestSlot := decodeRequestSlot rid\<rparr>;
             s = (if 0 < pendingClearCycle then s1\<lparr>rt_pendingClearSeen := True, rt_pendingClearCycle := pendingClearCycle\<rparr> else s1);
             t1 = traceDoneSamples s (tr_put rid s t0);
             t2 = (if pair_base rid \<in> set (tr_pairDoneCounted t1) then t1
                   else case pair_gap rt_doneSeen rt_doneAckCycle rid t1 of
                          None \<Rightarrow> t1
                        | Some g \<Rightarrow> t1\<lparr>tr_pairDoneGap := tr_pairDoneGap t1 @ [g],
                                      tr_pairDoneCounted := pair_base rid # tr_pairDoneCounted t1\<rparr>);
             sibling = decodeSiblingRequestId rid
         in case tr_requests t2 sibling of
              Some sib \<Rightarrow> if rt_doneSeen sib
                          then t2\<lparr>tr_requests := (tr_requests t2)(rid := None, sibling := None)\<rparr> else t2
            | None \<Rightarrow> t2))"

section \<open>Messages of the workers\<close>

definition enqueue_submit :: "RsConfig \<Rightarrow> nat \<Rightarrow> PendingTransfer \<Rightarrow> RsManager \<Rightarrow> RsManager" where
  "enqueue_submit c slot p m0 =
     (let node = unat (pt_targetNode p);
          m = m0\<lparr>mg_trace := traceSubmitAtManager (mg_lastTickCycle m0) (pt_requestId p) (of_nat slot) (pt_targetNode p) (mg_trace m0)\<rparr>
      in if length (mg_queues m) \<le> node then m
         else if length (mg_queues m ! node) \<le> slot then m
         else if managerPendingCount m < rc_queueDepth c then mg_set_queue node slot (mg_queue node slot m @ [p]) m
         else m)"

definition submit_panel :: "nat \<Rightarrow> RequestSchedulerMsg \<Rightarrow> u64 \<Rightarrow> u64 \<Rightarrow> u64 \<Rightarrow> u32 \<Rightarrow> u16 \<Rightarrow> u64 \<Rightarrow> u64 \<Rightarrow> PendingTransfer" where
  "submit_panel slot msg rid src dst bytes node flagAddr value =
     \<lparr>pt_workerSlot = of_nat slot, pt_workerCoreId = rm_srcCoreId msg, pt_requestId = rid, pt_srcAddr = src, pt_dstAddr = dst,
      pt_bytes = bytes, pt_targetNode = node, pt_completionFlagAddr = flagAddr, pt_completionValue = value, pt_issuedBytes = 0\<rparr>"

text \<open>The panels a SUBMIT carries: the entries present in all the batch vectors, or the single one.\<close>

definition submit_panels :: "nat \<Rightarrow> RequestSchedulerMsg \<Rightarrow> PendingTransfer list" where
  "submit_panels slot msg =
     (if 0 < rm_batchCount msg then
        (let validCount = min (unat (rm_batchCount msg))
               (min (min (length (rm_batchRequestIds msg)) (length (rm_batchSrcAddrs msg)))
                    (min (min (length (rm_batchDstAddrs msg)) (length (rm_batchBytes msg)))
                         (min (length (rm_batchTargetNodes msg))
                              (min (length (rm_batchCompletionFlagAddrs msg)) (length (rm_batchCompletionValues msg))))))
         in map (\<lambda>i. submit_panel slot msg (rm_batchRequestIds msg ! i) (rm_batchSrcAddrs msg ! i) (rm_batchDstAddrs msg ! i)
                   (rm_batchBytes msg ! i) (rm_batchTargetNodes msg ! i) (rm_batchCompletionFlagAddrs msg ! i)
                   (rm_batchCompletionValues msg ! i)) [0..<validCount])
      else [submit_panel slot msg (rm_requestId msg) (rm_srcAddr msg) (rm_dstAddr msg) (rm_bytes msg)
              (rm_targetNode msg) (rm_completionFlagAddr msg) (rm_completionValue msg)])"

definition recycle_done :: "RsConfig \<Rightarrow> nat \<Rightarrow> u64 \<times> nat \<Rightarrow> RsManager \<Rightarrow> RsManager" where
  "recycle_done c slot d m0 =
     (let m = (if slot < length (mg_credits m0) \<and> mg_credits m0 ! slot < unat (rc_workerCreditCap c)
               then m0\<lparr>mg_credits := (mg_credits m0)[slot := mg_credits m0 ! slot + 1]\<rparr> else m0)
      in m\<lparr>mg_trace := traceDoneAtManager (mg_lastTickCycle m) (fst d) (snd d) (mg_trace m)\<rparr>)"

definition done_entries :: "RequestSchedulerMsg \<Rightarrow> (u64 \<times> nat) list" where
  "done_entries msg =
     (if 0 < rm_batchCount msg \<and> rm_batchRequestIds msg \<noteq> [] then
        map (\<lambda>i. (rm_batchRequestIds msg ! i,
                  if i < length (rm_batchPendingClearCycles msg) then rm_batchPendingClearCycles msg ! i else 0))
          [0..<min (unat (rm_batchCount msg)) (length (rm_batchRequestIds msg))]
      else [(rm_requestId msg, rm_pendingClearCycle msg)])"

definition rs_handleReq :: "RsConfig \<Rightarrow> RequestSchedulerMsg \<Rightarrow> nat \<Rightarrow> RsManager \<Rightarrow> RsManager" where
  "rs_handleReq c msg slot m =
     (case rm_type msg of
        RS_SUBMIT \<Rightarrow> fold (enqueue_submit c slot) (submit_panels slot msg) m
      | RS_DONE \<Rightarrow> fold (recycle_done c slot) (done_entries msg) m)"

section \<open>Issuing\<close>

definition issueTransfer :: "RsNet \<Rightarrow> PendingTransfer \<Rightarrow> RsManager \<Rightarrow> bool \<times> RsManager" where
  "issueTransfer net req m =
     (if \<not> nw_ready net then (False, m)
      else
        (let workerEp = nw_resolve net (pt_dstAddr req) in
         if workerEp < 0 then (False, m)
         else
           (let memnicEp = nw_memNic net (pt_srcAddr req);
                dest = (if memnicEp \<noteq> -1 then memnicEp else nw_targetRouter net (pt_srcAddr req));
                m1 = m\<lparr>mg_attempts := mg_attempts m + 1\<rparr>
            in if \<not> nw_accepts net (mg_attempts m)
               then (False, mg_press (\<lambda>p. p\<lparr>pr_networkSendBlocked := pr_networkSendBlocked p + 1\<rparr>) m1)
               else (True, m1\<lparr>mg_sent := mg_sent m1 @ [RsPacket (mg_lastTickCycle m1) dest workerEp req],
                       mg_trace := traceIssueAtManager (mg_lastTickCycle m1) (pt_requestId req) (mg_trace m1)\<rparr>))))"

definition hasIssueBudget :: "RsConfig \<Rightarrow> RsManager \<Rightarrow> bool" where
  "hasIssueBudget c m \<longleftrightarrow> mg_issuedThisCycle m < rc_managerIssueBudgetPerTick c"

definition hasWorkerCredit :: "RsManager \<Rightarrow> PendingTransfer \<Rightarrow> bool" where
  "hasWorkerCredit m req \<longleftrightarrow>
     unat (pt_workerSlot req) < length (mg_credits m) \<and> mg_credits m ! unat (pt_workerSlot req) \<noteq> 0"

definition spendIssued :: "PendingTransfer \<Rightarrow> bool \<Rightarrow> RsManager \<Rightarrow> RsManager" where
  "spendIssued panel consume m =
     (let m1 = (if consume
                then m\<lparr>mg_credits := (mg_credits m)[unat (pt_workerSlot panel) := mg_credits m ! unat (pt_workerSlot panel) - 1]\<rparr>
                else m)
      in mg_press (\<lambda>p. p\<lparr>pr_issuedRequests := pr_issuedRequests p + 1\<rparr>) (m1\<lparr>mg_issuedThisCycle := mg_issuedThisCycle m1 + 1\<rparr>))"

definition panel_chunk :: "RsConfig \<Rightarrow> PendingTransfer \<Rightarrow> PendingTransfer" where
  "panel_chunk c panel = panel\<lparr>pt_srcAddr := pt_srcAddr panel + ucast (pt_issuedBytes panel),
     pt_dstAddr := pt_dstAddr panel + ucast (pt_issuedBytes panel), pt_bytes := chunkBytesForTransfer c panel, pt_issuedBytes := 0\<rparr>"

definition erase_at :: "nat \<Rightarrow> 'a list \<Rightarrow> 'a list" where
  "erase_at i xs = take i xs @ drop (Suc i) xs"

text \<open>\<open>issueQueueEntry\<close>; the result is the panel after the chunk, or nothing.\<close>

definition issueQueueEntry ::
    "RsConfig \<Rightarrow> RsNet \<Rightarrow> nat \<Rightarrow> nat \<Rightarrow> nat \<Rightarrow> RsManager \<Rightarrow> PendingTransfer option \<times> RsManager" where
  "issueQueueEntry c net node worker idx m =
     (let q = mg_queue node worker m in
      if length q \<le> idx then (None, m)
      else
        (let panel = q ! idx; chunkBytes = chunkBytesForTransfer c panel; consume = (pt_issuedBytes panel = 0) in
         if chunkBytes = 0 then (None, mg_set_queue node worker (erase_at idx q) m)
         else if consume \<and> \<not> hasWorkerCredit m panel
         then (None, mg_press (\<lambda>p. p\<lparr>pr_workerCreditBlocked := pr_workerCreditBlocked p + 1\<rparr>) m)
         else
           (case issueTransfer net (panel_chunk c panel) m of
              (False, m1) \<Rightarrow> (None, m1)
            | (True, m1) \<Rightarrow>
                (let panel' = panel\<lparr>pt_issuedBytes := pt_issuedBytes panel + chunkBytes\<rparr>;
                     q' = erase_at idx q @ (if pt_issuedBytes panel' < pt_bytes panel' then [panel'] else [])
                 in (Some panel', spendIssued panel' consume (mg_set_queue node worker q' m1))))))"

text \<open>
  The scan both candidate loops do: panels with nothing left are erased, panels not wanted are
  passed over, first chunks without a credit are counted as blocked, and of the rest the one
  with the smallest key is chosen, the earlier one on a tie.  \<open>best\<close> is the choice so far and \<open>idx\<close>
  the position in the queue that remains.
\<close>

fun scanCandidates ::
    "RsConfig \<Rightarrow> RsManager \<Rightarrow> (PendingTransfer \<Rightarrow> bool) \<Rightarrow> nat \<Rightarrow> (u64 \<times> nat) option \<Rightarrow> PendingTransfer list \<Rightarrow>
     PendingTransfer list \<times> (u64 \<times> nat) option \<times> nat" where
  "scanCandidates c m wanted idx best [] = ([], best, 0)"
| "scanCandidates c m wanted idx best (x # xs) =
     (if chunkBytesForTransfer c x = 0 then scanCandidates c m wanted idx best xs
      else if \<not> wanted x
      then (case scanCandidates c m wanted (idx + 1) best xs of (ys, b, n) \<Rightarrow> (x # ys, b, n))
      else if pt_issuedBytes x = 0 \<and> \<not> hasWorkerCredit m x
      then (case scanCandidates c m wanted (idx + 1) best xs of (ys, b, n) \<Rightarrow> (x # ys, b, n + 1))
      else
        (let key = requestPriorityKey x;
             best' = (case best of None \<Rightarrow> Some (key, idx) | Some (k, i) \<Rightarrow> if key < k then Some (key, idx) else best)
         in case scanCandidates c m wanted (idx + 1) best' xs of (ys, b, n) \<Rightarrow> (x # ys, b, n)))"

definition chooseCandidate ::
    "RsConfig \<Rightarrow> (PendingTransfer \<Rightarrow> bool) \<Rightarrow> nat \<Rightarrow> nat \<Rightarrow> RsManager \<Rightarrow> nat option \<times> RsManager" where
  "chooseCandidate c wanted node worker m =
     (case scanCandidates c m wanted 0 None (mg_queue node worker m) of (q, best, blocked) \<Rightarrow>
        (map_option snd best,
         mg_press (\<lambda>p. p\<lparr>pr_workerCreditBlocked := pr_workerCreditBlocked p + blocked\<rparr>) (mg_set_queue node worker q m)))"

definition chooseIssueCandidate :: "RsConfig \<Rightarrow> nat \<Rightarrow> nat \<Rightarrow> RsManager \<Rightarrow> nat option \<times> RsManager" where
  "chooseIssueCandidate c node worker m = chooseCandidate c (\<lambda>_. True) node worker m"

text \<open>The sibling loop looks for one request number and erases nothing.\<close>

fun scanSibling ::
    "RsManager \<Rightarrow> u64 \<Rightarrow> nat \<Rightarrow> (u64 \<times> nat) option \<Rightarrow> PendingTransfer list \<Rightarrow> (u64 \<times> nat) option \<times> nat" where
  "scanSibling m rid idx best [] = (best, 0)"
| "scanSibling m rid idx best (x # xs) =
     (if pt_requestId x \<noteq> rid then scanSibling m rid (idx + 1) best xs
      else if pt_issuedBytes x = 0 \<and> \<not> hasWorkerCredit m x
      then (case scanSibling m rid (idx + 1) best xs of (b, n) \<Rightarrow> (b, n + 1))
      else
        (let key = requestPriorityKey x;
             best' = (case best of None \<Rightarrow> Some (key, idx) | Some (k, i) \<Rightarrow> if key < k then Some (key, idx) else best)
         in scanSibling m rid (idx + 1) best' xs))"

definition tryIssuePrioritySibling :: "RsConfig \<Rightarrow> RsNet \<Rightarrow> nat \<Rightarrow> nat \<Rightarrow> PendingTransfer \<Rightarrow> RsManager \<Rightarrow> RsManager" where
  "tryIssuePrioritySibling c net node worker issued m =
     (if \<not> hasIssueBudget c m then m
      else if decodeRequestSlot (pt_requestId issued) \<noteq> 0 \<and> decodeRequestSlot (pt_requestId issued) \<noteq> 1 then m
      else
        (let m1 = mg_press (\<lambda>p. p\<lparr>pr_priorityPairAttempts := pr_priorityPairAttempts p + 1\<rparr>) m in
         case scanSibling m1 (decodeSiblingRequestId (pt_requestId issued)) 0 None (mg_queue node worker m1) of
           (best, blocked) \<Rightarrow>
             (let m2 = mg_press (\<lambda>p. p\<lparr>pr_workerCreditBlocked := pr_workerCreditBlocked p + blocked\<rparr>) m1 in
              case best of
                None \<Rightarrow> m2
              | Some (k, idx) \<Rightarrow>
                  (case issueQueueEntry c net node worker idx m2 of
                     (None, m3) \<Rightarrow> m3
                   | (Some p, m3) \<Rightarrow> mg_press (\<lambda>p. p\<lparr>pr_priorityPairIssued := pr_priorityPairIssued p + 1\<rparr>) m3))))"

definition tryIssueFromQueue :: "RsConfig \<Rightarrow> RsNet \<Rightarrow> nat \<Rightarrow> nat \<Rightarrow> RsManager \<Rightarrow> bool \<times> RsManager" where
  "tryIssueFromQueue c net node worker m =
     (if mg_queue node worker m = [] then (False, m)
      else case chooseIssueCandidate c node worker m of
        (None, m1) \<Rightarrow> (False, m1)
      | (Some idx, m1) \<Rightarrow>
          (case issueQueueEntry c net node worker idx m1 of
             (None, m2) \<Rightarrow> (False, m2)
           | (Some panel, m2) \<Rightarrow>
               (True, if rc_groupRoundRobin c then m2 else tryIssuePrioritySibling c net node worker panel m2)))"

section \<open>Group round robin\<close>

definition slot_wanted :: "u8 \<Rightarrow> u32 option \<Rightarrow> PendingTransfer \<Rightarrow> bool" where
  "slot_wanted wantedSlot bundle x \<longleftrightarrow> decodeRequestSlot (pt_requestId x) = wantedSlot \<and>
     (case bundle of None \<Rightarrow> True | Some seq \<Rightarrow> ucast (pt_requestId x) = seq)"

fun slotFromNodes ::
    "RsConfig \<Rightarrow> RsNet \<Rightarrow> nat \<Rightarrow> (PendingTransfer \<Rightarrow> bool) \<Rightarrow> nat list \<Rightarrow> RsManager \<Rightarrow> PendingTransfer option \<times> RsManager" where
  "slotFromNodes c net worker wanted [] m = (None, m)"
| "slotFromNodes c net worker wanted (node # nodes) m =
     (case chooseCandidate c wanted node worker m of
        (None, m1) \<Rightarrow> slotFromNodes c net worker wanted nodes m1
      | (Some idx, m1) \<Rightarrow>
          (case issueQueueEntry c net node worker idx m1 of
             (None, m2) \<Rightarrow> slotFromNodes c net worker wanted nodes m2
           | (Some p, m2) \<Rightarrow>
               (Some p,
                if worker < length (mg_workerNodeIssueCursor m2)
                then m2\<lparr>mg_workerNodeIssueCursor := (mg_workerNodeIssueCursor m2)[worker := (node + 1) mod length (mg_queues m2)]\<rparr>
                else m2)))"

definition turn_order :: "nat \<Rightarrow> nat \<Rightarrow> nat list" where
  "turn_order start n = map (\<lambda>off. (start + off) mod n) [0..<n]"

definition tryIssueSlotFromWorker ::
    "RsConfig \<Rightarrow> RsNet \<Rightarrow> nat \<Rightarrow> u8 \<Rightarrow> u32 option \<Rightarrow> RsManager \<Rightarrow> PendingTransfer option \<times> RsManager" where
  "tryIssueSlotFromWorker c net worker wantedSlot bundle m =
     (if (if mg_queues m = [] then 0 else length (mg_queues m ! 0)) \<le> worker then (None, m)
      else
        (let nodeCount = length (mg_queues m);
             nodeStart = (if worker < length (mg_workerNodeIssueCursor m) then mg_workerNodeIssueCursor m ! worker mod nodeCount else 0)
         in slotFromNodes c net worker (slot_wanted wantedSlot bundle) (turn_order nodeStart nodeCount) m))"

text \<open>The further rounds of a turn, on the bundle of its first panel.\<close>

fun bundleRounds :: "RsConfig \<Rightarrow> RsNet \<Rightarrow> nat \<Rightarrow> u32 \<Rightarrow> nat \<Rightarrow> RsManager \<Rightarrow> RsManager" where
  "bundleRounds c net worker bundle 0 m = m"
| "bundleRounds c net worker bundle (Suc n) m =
     (if \<not> hasIssueBudget c m then m
      else case tryIssueSlotFromWorker c net worker 0 (Some bundle) m of (p0, m1) \<Rightarrow>
        if hasIssueBudget c m1
        then (case tryIssueSlotFromWorker c net worker 1 (Some bundle) m1 of (p1, m2) \<Rightarrow>
                if p0 = None \<and> p1 = None then m2 else bundleRounds c net worker bundle n m2)
        else if p0 = None then m1 else bundleRounds c net worker bundle n m1)"

definition groupTurn :: "RsConfig \<Rightarrow> RsNet \<Rightarrow> nat \<Rightarrow> RsManager \<Rightarrow> bool \<times> RsManager" where
  "groupTurn c net worker m =
     (case (if hasIssueBudget c m then tryIssueSlotFromWorker c net worker 0 None m else (None, m)) of
        (Some p, m1) \<Rightarrow>
          (let seq = ucast (pt_requestId p);
               m2 = (if hasIssueBudget c m1 then snd (tryIssueSlotFromWorker c net worker 1 (Some seq) m1) else m1)
           in (True, bundleRounds c net worker seq (rc_tileChunkQuantum c - 1) m2))
      | (None, m1) \<Rightarrow>
          (case (if hasIssueBudget c m1 then tryIssueSlotFromWorker c net worker 1 None m1 else (None, m1)) of
             (Some p, m2) \<Rightarrow> (True, bundleRounds c net worker (ucast (pt_requestId p)) (rc_tileChunkQuantum c - 1) m2)
           | (None, m2) \<Rightarrow> (False, m2)))"

fun groupTurns :: "RsConfig \<Rightarrow> RsNet \<Rightarrow> nat \<Rightarrow> nat list \<Rightarrow> RsManager \<Rightarrow> bool \<times> RsManager" where
  "groupTurns c net workerCount [] m = (False, m)"
| "groupTurns c net workerCount (w # ws) m =
     (case groupTurn c net w m of
        (True, m1) \<Rightarrow> (True, m1\<lparr>mg_groupWorkerIssueCursor := (w + 1) mod workerCount\<rparr>)
      | (False, m1) \<Rightarrow> groupTurns c net workerCount ws m1)"

section \<open>Node first\<close>

fun workersOfNode :: "RsConfig \<Rightarrow> RsNet \<Rightarrow> nat \<Rightarrow> nat list \<Rightarrow> RsManager \<Rightarrow> bool \<times> RsManager" where
  "workersOfNode c net node [] m = (False, m)"
| "workersOfNode c net node (w # ws) m =
     (if mg_queue node w m = [] then workersOfNode c net node ws m
      else case tryIssueFromQueue c net node w m of
        (False, m1) \<Rightarrow> workersOfNode c net node ws m1
      | (True, m1) \<Rightarrow>
          (True, (if node < length (mg_nodeWorkerIssueCursor m1)
                  then m1\<lparr>mg_nodeWorkerIssueCursor :=
                         (mg_nodeWorkerIssueCursor m1)[node := (w + 1) mod length (mg_queues m1 ! node)]\<rparr>
                  else m1)\<lparr>mg_nodeIssueCursor := (node + 1) mod length (mg_queues m1)\<rparr>))"

fun nodeTurns :: "RsConfig \<Rightarrow> RsNet \<Rightarrow> nat list \<Rightarrow> RsManager \<Rightarrow> bool \<times> RsManager" where
  "nodeTurns c net [] m = (False, m)"
| "nodeTurns c net (node # nodes) m =
     (if mg_queues m ! node = [] then nodeTurns c net nodes m
      else
        (let workerCount = length (mg_queues m ! node);
             startWorker = (if node < length (mg_nodeWorkerIssueCursor m) then mg_nodeWorkerIssueCursor m ! node mod workerCount else 0)
         in case workersOfNode c net node (turn_order startWorker workerCount) m of
              (True, m1) \<Rightarrow> (True, m1)
            | (False, m1) \<Rightarrow> nodeTurns c net nodes m1))"

text \<open>One iteration of the loop of \<open>tryIssue\<close>.\<close>

definition issuePass :: "RsConfig \<Rightarrow> RsNet \<Rightarrow> RsManager \<Rightarrow> bool \<times> RsManager" where
  "issuePass c net m =
     (if rc_groupRoundRobin c then
        (let workerCount = (if mg_queues m = [] then 0 else length (mg_queues m ! 0)) in
         if workerCount = 0 then (False, m)
         else groupTurns c net workerCount (turn_order (mg_groupWorkerIssueCursor m mod workerCount) workerCount) m)
      else nodeTurns c net (turn_order (mg_nodeIssueCursor m) (length (mg_queues m))) m)"

section \<open>What the queues hold\<close>

text \<open>A weight of panels, summed over all queues.\<close>

definition qsum :: "(PendingTransfer \<Rightarrow> 'a :: comm_monoid_add) \<Rightarrow> PendingTransfer list \<Rightarrow> 'a" where
  "qsum f q = sum_list (map f q)"

definition qtotal :: "(PendingTransfer \<Rightarrow> 'a :: comm_monoid_add) \<Rightarrow> RsManager \<Rightarrow> 'a" where
  "qtotal f m = sum_list (map (\<lambda>row. sum_list (map (qsum f) row)) (mg_queues m))"

definition mg_shape :: "RsManager \<Rightarrow> nat list" where
  "mg_shape m = map length (mg_queues m)"

definition in_queues :: "nat \<Rightarrow> nat \<Rightarrow> RsManager \<Rightarrow> bool" where
  "in_queues node worker m \<longleftrightarrow> node < length (mg_queues m) \<and> worker < length (mg_queues m ! node)"

lemma qsum_simps [simp]: "qsum f [] = 0" "qsum f (x # xs) = f x + qsum f xs" "qsum f (xs @ ys) = qsum f xs + qsum f ys"
  by (simp_all add: qsum_def)

lemma mg_set_queue_simps [simp]:
  "mg_shape (mg_set_queue n w q m) = mg_shape m" "mg_credits (mg_set_queue n w q m) = mg_credits m"
  "mg_sent (mg_set_queue n w q m) = mg_sent m" "mg_issuedThisCycle (mg_set_queue n w q m) = mg_issuedThisCycle m"
  "mg_lastTickCycle (mg_set_queue n w q m) = mg_lastTickCycle m" "mg_issueBudgetCycle (mg_set_queue n w q m) = mg_issueBudgetCycle m"
  by (simp_all add: mg_set_queue_def mg_shape_def map_update_same)

lemma mg_press_simps [simp]:
  "mg_queues (mg_press f m) = mg_queues m" "mg_credits (mg_press f m) = mg_credits m"
  "mg_sent (mg_press f m) = mg_sent m" "mg_issuedThisCycle (mg_press f m) = mg_issuedThisCycle m"
  "mg_lastTickCycle (mg_press f m) = mg_lastTickCycle m" "mg_issueBudgetCycle (mg_press f m) = mg_issueBudgetCycle m"
  "mg_queue n w (mg_press f m) = mg_queue n w m" "mg_shape (mg_press f m) = mg_shape m"
  by (simp_all add: mg_press_def mg_queue_def mg_shape_def)

lemma qtotal_set_queue:
  assumes "in_queues n w m"
  shows "qtotal f (mg_set_queue n w q m) + qsum f (mg_queue n w m) = qtotal f m + (qsum f q :: 'a :: cancel_comm_monoid_add)"
proof -
  let ?row = "mg_queues m ! n"
  let ?g = "\<lambda>row. sum_list (map (qsum f) row)"
  have n: "n < length (mg_queues m)" and w: "w < length ?row" using assms by (simp_all add: in_queues_def)
  have "qtotal f (mg_set_queue n w q m) + ?g ?row = qtotal f m + ?g (?row[w := q])"
    unfolding qtotal_def mg_set_queue_def using sum_list_update_add [OF n, of ?g "?row[w := q]"] by simp
  moreover have "?g (?row[w := q]) + qsum f (?row ! w) = ?g ?row + qsum f q" by (rule sum_list_update_add [OF w])
  ultimately show ?thesis unfolding mg_queue_def by (rule exchange_sum)
qed

lemma erase_at_sum: "i < length xs \<Longrightarrow> qsum f (erase_at i xs) + f (xs ! i) = qsum f xs"
proof -
  assume i: "i < length xs"
  have "qsum f xs = qsum f (take i xs @ xs ! i # drop (Suc i) xs)" using i by (simp add: id_take_nth_drop [symmetric])
  then show ?thesis by (simp add: erase_at_def ac_simps)
qed

lemma erase_finished: "i < length xs \<Longrightarrow> f (xs ! i) = 0 \<Longrightarrow> qsum f (erase_at i xs) = (qsum f xs :: 'a :: cancel_comm_monoid_add)"
  using erase_at_sum [of i xs f] by simp

section \<open>What issuing changes\<close>

text \<open>
  The bytes a panel still has to transfer, each with its request, source and destination address,
  and whether it has yet to spend a credit.
\<close>

definition panel_bytes :: "PendingTransfer \<Rightarrow> (u64 \<times> u64 \<times> u64) multiset" where
  "panel_bytes p = mset (map (\<lambda>k. (pt_requestId p, pt_srcAddr p + of_nat k, pt_dstAddr p + of_nat k))
     [unat (pt_issuedBytes p)..<unat (pt_bytes p)])"

definition unstarted :: "nat \<Rightarrow> PendingTransfer \<Rightarrow> nat" where
  "unstarted w p = (if unat (pt_workerSlot p) = w \<and> pt_issuedBytes p = 0 \<and> pt_bytes p \<noteq> 0 then 1 else 0)"

definition sent_bytes :: "RsPacket list \<Rightarrow> (u64 \<times> u64 \<times> u64) multiset" where
  "sent_bytes ps = sum_list (map (\<lambda>x. panel_bytes (rp_chunk x)) ps)"

definition credit_of :: "nat \<Rightarrow> RsManager \<Rightarrow> nat" where
  "credit_of w m = (if w < length (mg_credits m) then mg_credits m ! w else 0)"

text \<open>Every node has a queue for each of the four workers.\<close>

definition mg_rect :: "RsManager \<Rightarrow> bool" where
  "mg_rect m \<longleftrightarrow> (\<forall>row \<in> set (mg_queues m). length row = 4)"

lemma mg_rect_shape: "mg_rect m \<longleftrightarrow> (\<forall>n \<in> set (mg_shape m). n = 4)"
  by (simp add: mg_rect_def mg_shape_def)

text \<open>
  \<open>moves k m m'\<close>: \<open>k\<close> chunks were issued on the way from \<open>m\<close> to \<open>m'\<close>, the bytes waiting and sent
  are together the same, and a credit was spent for every panel that was started.
\<close>

definition moves :: "nat \<Rightarrow> RsManager \<Rightarrow> RsManager \<Rightarrow> bool" where
  "moves k m m' \<longleftrightarrow>
     mg_issuedThisCycle m' = mg_issuedThisCycle m + k \<and>
     (\<exists>ps. mg_sent m' = mg_sent m @ ps \<and> length ps = k \<and> (\<forall>p \<in> set ps. rp_cycle p = mg_lastTickCycle m)) \<and>
     (mg_rect m \<longrightarrow>
        qtotal panel_bytes m' + sent_bytes (mg_sent m') = qtotal panel_bytes m + sent_bytes (mg_sent m) \<and>
        (\<forall>w. credit_of w m' + qtotal (unstarted w) m = credit_of w m + qtotal (unstarted w) m')) \<and>
     mg_shape m' = mg_shape m \<and> length (mg_credits m') = length (mg_credits m) \<and>
     mg_lastTickCycle m' = mg_lastTickCycle m \<and> mg_issueBudgetCycle m' = mg_issueBudgetCycle m"

lemma moves_refl [simp]: "moves 0 m m"
  by (simp add: moves_def)

lemma moves_trans:
  assumes "moves k a b" "moves l b d"
  shows "moves (k + l) a d"
proof -
  obtain ps qs where "mg_sent b = mg_sent a @ ps" "length ps = k" "\<forall>p \<in> set ps. rp_cycle p = mg_lastTickCycle a"
    "mg_sent d = mg_sent b @ qs" "length qs = l" "\<forall>p \<in> set qs. rp_cycle p = mg_lastTickCycle b"
    using assms by (auto simp: moves_def)
  then have "\<exists>rs. mg_sent d = mg_sent a @ rs \<and> length rs = k + l \<and> (\<forall>p \<in> set rs. rp_cycle p = mg_lastTickCycle a)"
    using assms by (intro exI [of _ "ps @ qs"]) (auto simp: moves_def)
  moreover have rect: "mg_rect b = mg_rect a" using assms(1) by (simp add: moves_def mg_rect_shape)
  have "credit_of w d + qtotal (unstarted w) a = credit_of w a + qtotal (unstarted w) d" if "mg_rect a" for w
  proof -
    have "credit_of w b + qtotal (unstarted w) a = credit_of w a + qtotal (unstarted w) b"
      "credit_of w d + qtotal (unstarted w) b = credit_of w b + qtotal (unstarted w) d"
      using assms that rect by (simp_all add: moves_def)
    then show ?thesis by linarith
  qed
  ultimately show ?thesis using assms rect by (simp add: moves_def)
qed

lemma moves_shape: "moves k m m' \<Longrightarrow> mg_shape m' = mg_shape m"
  by (simp add: moves_def)

lemma in_queues_shape: "mg_shape m' = mg_shape m \<Longrightarrow> in_queues n w m' = in_queues n w m"
  by (metis in_queues_def length_map mg_shape_def nth_map)

lemma moves_frame:
  "mg_queues m' = mg_queues m \<Longrightarrow> mg_credits m' = mg_credits m \<Longrightarrow> mg_sent m' = mg_sent m \<Longrightarrow>
     mg_issuedThisCycle m' = mg_issuedThisCycle m \<Longrightarrow> mg_lastTickCycle m' = mg_lastTickCycle m \<Longrightarrow>
     mg_issueBudgetCycle m' = mg_issueBudgetCycle m \<Longrightarrow> moves 0 m m'"
  by (simp add: moves_def qtotal_def credit_of_def mg_shape_def)

lemma moves_press [simp]: "moves 0 m (mg_press f m)"
  by (rule moves_frame) simp_all

lemma finished_panel:
  "pt_bytes p \<le> pt_issuedBytes p \<Longrightarrow> panel_bytes p = {#}" "pt_bytes p \<le> pt_issuedBytes p \<Longrightarrow> unstarted w p = 0"
  by (simp add: panel_bytes_def word_le_nat_alt) (auto simp: unstarted_def)

text \<open>A queue with the same contents, up to finished panels.\<close>

lemma moves_set_queue:
  assumes "mg_rect m \<Longrightarrow> in_queues n w m" "qsum panel_bytes q = qsum panel_bytes (mg_queue n w m)"
    "\<And>v. qsum (unstarted v) q = qsum (unstarted v) (mg_queue n w m)"
  shows "moves 0 m (mg_set_queue n w q m)"
proof -
  have "qtotal panel_bytes (mg_set_queue n w q m) = qtotal panel_bytes m" if "mg_rect m"
    using qtotal_set_queue [OF assms(1) [OF that], of panel_bytes q] assms(2) by simp
  moreover have "qtotal (unstarted v) (mg_set_queue n w q m) = qtotal (unstarted v) m" if "mg_rect m" for v
    using qtotal_set_queue [OF assms(1) [OF that], of "unstarted v" q] assms(3) by simp
  ultimately show ?thesis by (simp add: moves_def credit_of_def)
qed

lemma scan_sums:
  assumes "scanCandidates c m wanted idx best xs = (ys, b, n)" "\<And>x. pt_bytes x \<le> pt_issuedBytes x \<Longrightarrow> f x = 0"
  shows "qsum f ys = (qsum f xs :: 'a :: comm_monoid_add)"
  using assms(1)
proof (induction xs arbitrary: idx best ys b n)
  case (Cons x xs)
  obtain ys' b' n' where r: "scanCandidates c m wanted (idx + 1)
      (if \<not> wanted x \<or> pt_issuedBytes x = 0 \<and> \<not> hasWorkerCredit m x then best
       else (case best of None \<Rightarrow> Some (requestPriorityKey x, idx)
             | Some (k, i) \<Rightarrow> if requestPriorityKey x < k then Some (requestPriorityKey x, idx) else best)) xs = (ys', b', n')"
    by (rule prod_cases3)
  show ?case
  proof (cases "chunkBytesForTransfer c x = 0")
    case True
    then show ?thesis using Cons assms(2) [of x] by (simp add: chunk_zero_iff)
  next
    case False
    then have "ys = x # ys'" using Cons.prems r by (auto simp: Let_def split: if_splits prod.splits)
    then show ?thesis using Cons.IH [OF r] by simp
  qed
qed simp

lemma moves_chooseCandidate:
  assumes "chooseCandidate c wanted node worker m = (r, m')" "mg_rect m \<Longrightarrow> in_queues node worker m"
  shows "moves 0 m m'"
proof -
  obtain q best n where s: "scanCandidates c m wanted 0 None (mg_queue node worker m) = (q, best, n)" by (rule prod_cases3)
  have "moves 0 m (mg_set_queue node worker q m)"
    using assms(2) scan_sums [OF s, of panel_bytes] scan_sums [OF s, of "unstarted _"] finished_panel
    by (intro moves_set_queue) simp_all
  from moves_trans [OF this moves_press] show ?thesis using assms(1) s by (auto simp: chooseCandidate_def)
qed

lemma panel_split:
  assumes "chunkBytesForTransfer c p \<noteq> 0"
  shows "panel_bytes p = panel_bytes (panel_chunk c p) + panel_bytes (p\<lparr>pt_issuedBytes := pt_issuedBytes p + chunkBytesForTransfer c p\<rparr>)"
proof -
  let ?i = "unat (pt_issuedBytes p)" and ?k = "unat (chunkBytesForTransfer c p)" and ?n = "unat (pt_bytes p)"
  let ?g = "\<lambda>k. (pt_requestId p, pt_srcAddr p + of_nat k, pt_dstAddr p + of_nat k)"
  have "?i + ?k \<le> ?n" using chunk_in_panel [of p c] assms by simp
  then have "[?i..<?n] = [?i..<?i + ?k] @ [?i + ?k..<?n]" by (metis le_add1 le_Suc_ex upt_add_eq_append)
  moreover have "map ?g [?i..<?i + ?k] = map (\<lambda>k. (pt_requestId p, pt_srcAddr p + ucast (pt_issuedBytes p) + of_nat k,
      pt_dstAddr p + ucast (pt_issuedBytes p) + of_nat k)) [0..<?k]"
    by (rule nth_equalityI) (simp_all add: add.assoc)
  ultimately show ?thesis
    by (simp add: panel_bytes_def panel_chunk_def unat_issued_chunk [OF assms])
qed

lemma started_panel:
  assumes "chunkBytesForTransfer c p \<noteq> 0"
  shows "unstarted w (p\<lparr>pt_issuedBytes := pt_issuedBytes p + chunkBytesForTransfer c p\<rparr>) = 0"
proof -
  have "0 < unat (chunkBytesForTransfer c p)" using assms by (simp add: unat_gt_0)
  then have "pt_issuedBytes p + chunkBytesForTransfer c p \<noteq> 0"
    using unat_issued_chunk [OF assms] by (metis add_is_0 less_numeral_extra(3) unsigned_0)
  then show ?thesis by (simp add: unstarted_def)
qed

lemma issueTransfer_cases:
  assumes "issueTransfer net req m = (b, m')"
  shows "mg_queues m' = mg_queues m \<and> mg_credits m' = mg_credits m \<and> mg_issuedThisCycle m' = mg_issuedThisCycle m \<and>
     mg_lastTickCycle m' = mg_lastTickCycle m \<and> mg_issueBudgetCycle m' = mg_issueBudgetCycle m \<and>
     (if b then \<exists>x. mg_sent m' = mg_sent m @ [x] \<and> rp_chunk x = req \<and> rp_cycle x = mg_lastTickCycle m else mg_sent m' = mg_sent m)"
  using assms by (auto simp: issueTransfer_def Let_def mg_press_def split: if_splits)

lemma requeue_sums:
  assumes "in_queues n w m" "i < length (mg_queue n w m)" "\<And>x. pt_bytes x \<le> pt_issuedBytes x \<Longrightarrow> f x = 0"
    "q' = erase_at i (mg_queue n w m) @ (if pt_issuedBytes p' < pt_bytes p' then [p'] else [])"
  shows "qtotal f (mg_set_queue n w q' m) + f (mg_queue n w m ! i) = qtotal f m + (f p' :: 'a :: cancel_comm_monoid_add)"
proof -
  let ?q = "mg_queue n w m"
  have "qsum f q' = qsum f (erase_at i ?q) + f p'" using assms(3) [of p'] by (simp add: assms(4) not_less)
  moreover have "qsum f ?q = qsum f (erase_at i ?q) + f (?q ! i)" using erase_at_sum [OF assms(2), of f] by simp
  ultimately have "qtotal f (mg_set_queue n w q' m) + (qsum f (erase_at i ?q) + f (?q ! i)) =
      qtotal f m + (qsum f (erase_at i ?q) + f p')" using qtotal_set_queue [OF assms(1), of f q'] by simp
  then have "qsum f (erase_at i ?q) + (qtotal f (mg_set_queue n w q' m) + f (?q ! i)) =
      qsum f (erase_at i ?q) + (qtotal f m + f p')" by (simp only: ac_simps)
  then show ?thesis by simp
qed

lemma credit_spend:
  assumes "hasWorkerCredit m p \<or> \<not> consume"
  shows "credit_of v (spendIssued p consume m) + (if consume \<and> unat (pt_workerSlot p) = v then 1 else 0) = credit_of v m"
  using assms by (auto simp: spendIssued_def credit_of_def hasWorkerCredit_def Let_def mg_press_def nth_list_update)

lemma spendIssued_simps [simp]:
  "mg_queues (spendIssued p b m) = mg_queues m" "mg_sent (spendIssued p b m) = mg_sent m"
  "mg_issuedThisCycle (spendIssued p b m) = mg_issuedThisCycle m + 1" "length (mg_credits (spendIssued p b m)) = length (mg_credits m)"
  "mg_lastTickCycle (spendIssued p b m) = mg_lastTickCycle m" "mg_issueBudgetCycle (spendIssued p b m) = mg_issueBudgetCycle m"
  by (simp_all add: spendIssued_def Let_def)

lemma issued_balance:
  assumes "in_queues n w m" "i < length (mg_queue n w m)" and p: "p = mg_queue n w m ! i" and k: "chunkBytesForTransfer c p \<noteq> 0"
    and p': "p' = p\<lparr>pt_issuedBytes := pt_issuedBytes p + chunkBytesForTransfer c p\<rparr>"
    and q': "q' = erase_at i (mg_queue n w m) @ (if pt_issuedBytes p' < pt_bytes p' then [p'] else [])"
  shows "qtotal panel_bytes (mg_set_queue n w q' m) + panel_bytes (panel_chunk c p) = qtotal panel_bytes m"
    and "qtotal (unstarted v) (mg_set_queue n w q' m) + unstarted v p = qtotal (unstarted v) m"
proof -
  let ?m2 = "mg_set_queue n w q' m"
  have rq: "qtotal panel_bytes ?m2 + panel_bytes p = qtotal panel_bytes m + panel_bytes p'"
      "qtotal (unstarted v) ?m2 + unstarted v p = qtotal (unstarted v) m + unstarted v p'" for v
    using requeue_sums [OF assms(1), of i panel_bytes q' p'] requeue_sums [OF assms(1), of i "unstarted v" q' p']
      assms(2) finished_panel by (simp_all add: p q')
  have "qtotal panel_bytes ?m2 + panel_bytes (panel_chunk c p) + panel_bytes p' = qtotal panel_bytes m + panel_bytes p'"
    using rq(1) panel_split [OF k] by (simp add: p' ac_simps)
  then show "qtotal panel_bytes ?m2 + panel_bytes (panel_chunk c p) = qtotal panel_bytes m" by simp
  show "qtotal (unstarted v) ?m2 + unstarted v p = qtotal (unstarted v) m"
    using rq(2) [of v] started_panel [OF k, of v] by (simp add: p')
qed

lemma moves_issued:
  assumes "mg_rect m \<Longrightarrow> in_queues n w m" "i < length (mg_queue n w m)" and p: "p = mg_queue n w m ! i" and k: "chunkBytesForTransfer c p \<noteq> 0"
    and "pt_issuedBytes p \<noteq> 0 \<or> hasWorkerCredit m p" and t: "issueTransfer net (panel_chunk c p) m = (True, m1)"
    and p': "p' = p\<lparr>pt_issuedBytes := pt_issuedBytes p + chunkBytesForTransfer c p\<rparr>"
    and q': "q' = erase_at i (mg_queue n w m) @ (if pt_issuedBytes p' < pt_bytes p' then [p'] else [])"
  shows "moves 1 m (spendIssued p' (pt_issuedBytes p = 0) (mg_set_queue n w q' m1))"
proof -
  let ?m2 = "mg_set_queue n w q' m1" and ?consume = "pt_issuedBytes p = 0"
  let ?m3 = "spendIssued p' ?consume ?m2"
  note tc = issueTransfer_cases [OF t]
  obtain x where x: "mg_sent m1 = mg_sent m @ [x]" "rp_chunk x = panel_chunk c p" "rp_cycle x = mg_lastTickCycle m"
    using tc by auto
  have q3: "qtotal f ?m3 = qtotal f (mg_set_queue n w q' m)" for f :: "PendingTransfer \<Rightarrow> 'b :: comm_monoid_add"
    using tc by (simp add: qtotal_def mg_set_queue_def)
  have shape: "mg_shape ?m3 = mg_shape m" using tc mg_set_queue_simps(1) [of n w q' m1] by (simp add: mg_shape_def)
  have k1: "pt_bytes p \<noteq> 0" using k by (auto simp: chunk_zero_iff)
  have "hasWorkerCredit ?m2 p' \<or> \<not> ?consume" using assms(5) tc by (auto simp: hasWorkerCredit_def p')
  note sp = credit_spend [OF this]
  have cr: "credit_of v ?m3 + unstarted v p = credit_of v m" for v
  proof -
    have "unstarted v p = (if ?consume \<and> unat (pt_workerSlot p') = v then 1 else 0)" using k1 by (auto simp: unstarted_def p')
    moreover have "credit_of v ?m2 = credit_of v m" using tc by (simp add: credit_of_def)
    ultimately show ?thesis using sp [of v] by simp
  qed
  have "qtotal panel_bytes ?m3 + sent_bytes (mg_sent ?m3) = qtotal panel_bytes m + sent_bytes (mg_sent m) \<and>
      (\<forall>v. credit_of v ?m3 + qtotal (unstarted v) m = credit_of v m + qtotal (unstarted v) ?m3)" if r: "mg_rect m"
  proof -
    note ib = issued_balance [OF assms(1) [OF r] assms(2) p k p' q']
    have "credit_of v ?m3 + qtotal (unstarted v) m = credit_of v m + qtotal (unstarted v) ?m3" for v
      using ib(2) [of v] cr [of v] by (simp add: q3)
    moreover have "qtotal panel_bytes ?m3 + sent_bytes (mg_sent ?m3) = qtotal panel_bytes m + sent_bytes (mg_sent m)"
      using ib(1) by (simp add: q3 x sent_bytes_def ac_simps)
    ultimately show ?thesis by simp
  qed
  then show ?thesis using tc x shape by (simp add: moves_def)
qed

lemma moves_issueQueueEntry:
  assumes "issueQueueEntry c net n w i m = (r, m')" "mg_rect m \<Longrightarrow> in_queues n w m"
  shows "moves (if r = None then 0 else 1) m m'"
proof -
  let ?q = "mg_queue n w m" and ?p = "mg_queue n w m ! i"
  let ?k = "chunkBytesForTransfer c ?p" and ?consume = "pt_issuedBytes ?p = 0"
  let ?p' = "?p\<lparr>pt_issuedBytes := pt_issuedBytes ?p + ?k\<rparr>"
  obtain b m1 where t: "issueTransfer net (panel_chunk c ?p) m = (b, m1)" by (cases "issueTransfer net (panel_chunk c ?p) m")
  note tc = issueTransfer_cases [OF t]
  consider (out) "length ?q \<le> i" "r = None" "m' = m" | (fin) "i < length ?q" "?k = 0" "r = None" "m' = mg_set_queue n w (erase_at i ?q) m"
    | (blocked) "r = None" "\<exists>f. m' = mg_press f m"
    | (refused) "\<not> b" "r = None" "m' = m1"
    | (issued) "i < length ?q" "?k \<noteq> 0" "\<not> ?consume \<or> hasWorkerCredit m ?p" "b" "r = Some ?p'"
        "m' = spendIssued ?p' ?consume (mg_set_queue n w (erase_at i ?q @ (if pt_issuedBytes ?p' < pt_bytes ?p' then [?p'] else [])) m1)"
    using assms(1) t by (cases b) (auto simp: issueQueueEntry_def Let_def split: if_splits)
  then show ?thesis
  proof cases
    case fin
    then have "pt_bytes ?p \<le> pt_issuedBytes ?p" by (simp add: chunk_zero_iff)
    from finished_panel [OF this] show ?thesis
      unfolding fin using assms(2) fin(1) by (auto intro!: moves_set_queue erase_finished)
  next
    case blocked
    then show ?thesis by auto
  next
    case refused
    then show ?thesis using tc by (auto intro!: moves_frame)
  next
    case issued
    then have "moves 1 m m'" unfolding issued(6) using t by (intro moves_issued [OF assms(2)]) auto
    then show ?thesis using issued by simp
  qed simp
qed

text \<open>
  The same for the larger steps: what they issue, and that a step entered with budget left stays
  within it.
\<close>

definition within :: "RsConfig \<Rightarrow> RsManager \<Rightarrow> bool" where
  "within c m \<longleftrightarrow> mg_issuedThisCycle m \<le> rc_managerIssueBudgetPerTick c"

lemma within_step: "hasIssueBudget c m \<Longrightarrow> moves k m m' \<Longrightarrow> k \<le> 1 \<Longrightarrow> within c m'"
  by (simp add: within_def hasIssueBudget_def moves_def)

lemma budget_0: "moves 0 m m' \<Longrightarrow> hasIssueBudget c m' = hasIssueBudget c m"
  by (simp add: hasIssueBudget_def moves_def)

lemma budget_within: "hasIssueBudget c m \<Longrightarrow> within c m"
  by (simp add: within_def hasIssueBudget_def)

lemma moves_in_queues: "moves k m m' \<Longrightarrow> in_queues n w m' = in_queues n w m"
  by (rule in_queues_shape) (simp add: moves_def)

lemma moves_rect: "moves k m m' \<Longrightarrow> mg_rect m' = mg_rect m"
  by (simp add: moves_def mg_rect_shape)

lemma moves_sibling:
  assumes "mg_rect m \<Longrightarrow> in_queues n w m" "within c m"
  shows "\<exists>k. moves k m (tryIssuePrioritySibling c net n w p m) \<and> within c (tryIssuePrioritySibling c net n w p m)"
proof (cases "hasIssueBudget c m \<and> (decodeRequestSlot (pt_requestId p) = 0 \<or> decodeRequestSlot (pt_requestId p) = 1)")
  case True
  let ?m1 = "mg_press (\<lambda>p. p\<lparr>pr_priorityPairAttempts := pr_priorityPairAttempts p + 1\<rparr>) m"
  obtain best n' where b: "scanSibling ?m1 (decodeSiblingRequestId (pt_requestId p)) 0 None (mg_queue n w ?m1) = (best, n')"
    by (rule prod.exhaust)
  let ?m2 = "mg_press (\<lambda>p. p\<lparr>pr_workerCreditBlocked := pr_workerCreditBlocked p + n'\<rparr>) ?m1"
  have 2: "moves 0 m ?m2" using moves_trans [OF moves_press moves_press] by fastforce
  show ?thesis
  proof (cases best)
    case None
    then have "tryIssuePrioritySibling c net n w p m = ?m2" using True b by (auto simp: tryIssuePrioritySibling_def Let_def)
    then show ?thesis using 2 assms(2) by (auto simp: within_def moves_def)
  next
    case (Some kb)
    obtain key idx where kb: "kb = (key, idx)" by (cases kb)
    obtain r m3 where r: "issueQueueEntry c net n w idx ?m2 = (r, m3)" by (rule prod.exhaust)
    have 3: "moves (if r = None then 0 else 1) ?m2 m3"
      using moves_issueQueueEntry [OF r] assms(1) moves_in_queues [OF 2] moves_rect [OF 2] by simp
    have t: "\<exists>f. tryIssuePrioritySibling c net n w p m = (if r = None then m3 else mg_press f m3)"
      using True b Some kb r by (auto simp: tryIssuePrioritySibling_def Let_def split: option.splits)
    then have 4: "moves (if r = None then 0 else 1) m (tryIssuePrioritySibling c net n w p m)"
      using moves_trans [OF 2 3] moves_trans [OF moves_trans [OF 2 3] moves_press] by auto
    then show ?thesis using within_step [OF _ 4] True by auto
  qed
qed (use assms in \<open>auto simp: tryIssuePrioritySibling_def intro!: exI [of _ 0]\<close>)

lemma moves_tryIssueFromQueue:
  assumes "tryIssueFromQueue c net n w m = (b, m')" "mg_rect m \<Longrightarrow> in_queues n w m" "hasIssueBudget c m"
  shows "\<exists>k. moves k m m' \<and> (if b then 0 < k else k = 0) \<and> within c m'"
proof (cases "mg_queue n w m = []")
  case True
  then show ?thesis using assms by (auto simp: tryIssueFromQueue_def budget_within)
next
  case False
  obtain r m1 where r: "chooseIssueCandidate c n w m = (r, m1)" by (rule prod.exhaust)
  have 1: "moves 0 m m1" using r assms(2) by (auto simp: chooseIssueCandidate_def moves_chooseCandidate)
  show ?thesis
  proof (cases r)
    case None
    then show ?thesis using assms False r 1 budget_0 [OF 1, of c] by (auto simp: tryIssueFromQueue_def budget_within)
  next
    case (Some idx)
    obtain s m2 where s: "issueQueueEntry c net n w idx m1 = (s, m2)" by (rule prod.exhaust)
    have iq: "in_queues n w m1" if "mg_rect m1" using assms(2) that moves_in_queues [OF 1] moves_rect [OF 1] by simp
    have 2: "moves (if s = None then 0 else 1) m m2" using moves_trans [OF 1 moves_issueQueueEntry [OF s iq]] by simp
    then have w2: "within c m2" using within_step [OF assms(3) 2] by simp
    show ?thesis
    proof (cases s)
      case None
      then show ?thesis using assms False r Some s 2 w2 by (auto simp: tryIssueFromQueue_def)
    next
      case s: (Some p)
      note eq = assms(1) [unfolded tryIssueFromQueue_def]
      have iq2: "in_queues n w m2" if "mg_rect m2" using assms(2) that moves_in_queues [OF 2] moves_rect [OF 2] by simp
      obtain k where k: "moves k m2 (tryIssuePrioritySibling c net n w p m2)" "within c (tryIssuePrioritySibling c net n w p m2)"
        using moves_sibling [OF iq2 w2] by blast
      show ?thesis
        using eq False r Some s \<open>issueQueueEntry c net n w idx m1 = (s, m2)\<close> 2 w2 moves_trans [OF _ k(1), of 1 m] k(2)
        by (auto split: if_splits)
    qed
  qed
qed

end
