(* ===== verification/Request_Sched_Issue.thy ===== *)
theory Request_Sched_Issue
  imports Request_Sched_Manager
begin

text \<open>
  The issue loop of the request manager (\<open>tryIssue\<close> and \<open>tick\<close> of \<open>requestscheduler.cc\<close>) and whole
  runs of the manager. First, that each pass of the loop accounts for what it issues; this also
  bounds the number of passes. Then the loop, the tick, and runs of messages, ticks and network
  wake-ups, with what holds along every run.
\<close>

section \<open>A pass accounts for what it issues\<close>

text \<open>
  \<open>advances c b m m'\<close>: from \<open>m\<close> to \<open>m'\<close> panels were issued exactly when \<open>b\<close>, and the budget was
  not overrun.
\<close>

definition advances :: "RsConfig \<Rightarrow> bool \<Rightarrow> RsManager \<Rightarrow> RsManager \<Rightarrow> bool" where
  "advances c b m m' \<longleftrightarrow> (\<exists>k. moves k m m' \<and> (if b then 0 < k else k = 0) \<and> (within c m \<longrightarrow> within c m'))"

lemma advances_refl [simp]: "advances c False m m"
  by (auto simp: advances_def intro: exI [of _ 0])

lemma advances_trans:
  assumes "advances c a m1 m2" "advances c b m2 m3"
  shows "advances c (a \<or> b) m1 m3"
proof -
  obtain j k where j: "moves j m1 m2" "if a then 0 < j else j = 0" "within c m1 \<longrightarrow> within c m2"
    and k: "moves k m2 m3" "if b then 0 < k else k = 0" "within c m2 \<longrightarrow> within c m3"
    using assms by (auto simp: advances_def)
  have "if a \<or> b then 0 < j + k else j + k = 0" using j(2) k(2) by (auto split: if_splits)
  then show ?thesis using moves_trans [OF j(1) k(1)] j(3) k(3) unfolding advances_def by blast
qed

lemma advances_moves_0: "moves 0 m m' \<Longrightarrow> advances c False m m'"
  by (auto simp: advances_def within_def moves_def)

lemma advances_frame:
  assumes "advances c b m m1" "mg_queues m2 = mg_queues m1" "mg_credits m2 = mg_credits m1" "mg_sent m2 = mg_sent m1"
    "mg_issuedThisCycle m2 = mg_issuedThisCycle m1" "mg_lastTickCycle m2 = mg_lastTickCycle m1"
    "mg_issueBudgetCycle m2 = mg_issueBudgetCycle m1"
  shows "advances c b m m2"
proof -
  have "moves 0 m1 m2" using assms(2-) by (simp add: moves_frame)
  then show ?thesis using advances_trans [OF assms(1) advances_moves_0] by simp
qed

lemma advances_shape: "advances c b m m' \<Longrightarrow> mg_shape m' = mg_shape m"
  by (auto simp: advances_def moves_def)

lemma advances_rect: "advances c b m m' \<Longrightarrow> mg_rect m' = mg_rect m"
  by (simp add: mg_rect_shape advances_shape)

lemma shape_length: "mg_shape m' = mg_shape m \<Longrightarrow> length (mg_queues m') = length (mg_queues m)"
  by (metis length_map mg_shape_def)

lemma in_queues_rect: "mg_rect m \<Longrightarrow> n < length (mg_queues m) \<Longrightarrow> w < 4 \<Longrightarrow> in_queues n w m"
  by (simp add: in_queues_def mg_rect_def)

lemma turn_order_less: "x \<in> set (turn_order s n) \<Longrightarrow> x < n"
  by (auto simp: turn_order_def)

lemma moves_slotFromNodes:
  assumes "slotFromNodes c net w wanted nodes m = (r, m')" "\<And>n. n \<in> set nodes \<Longrightarrow> mg_rect m \<Longrightarrow> in_queues n w m"
  shows "moves (if r = None then 0 else 1) m m'"
  using assms
proof (induction nodes arbitrary: m)
  case (Cons node nodes)
  obtain s m1 where s: "chooseCandidate c wanted node w m = (s, m1)" by (rule prod.exhaust)
  have 1: "moves 0 m m1" by (rule moves_chooseCandidate [OF s]) (use Cons.prems in simp)
  have iq: "in_queues n w m1" if "n \<in> set (node # nodes)" "mg_rect m1" for n
    using Cons.prems(2) that moves_in_queues [OF 1] moves_rect [OF 1] by simp
  show ?case
  proof (cases s)
    case None
    then have "slotFromNodes c net w wanted nodes m1 = (r, m')" using Cons.prems(1) s by simp
    from Cons.IH [OF this] iq have "moves (if r = None then 0 else 1) m1 m'" by simp
    from moves_trans [OF 1 this] show ?thesis by simp
  next
    case (Some idx)
    obtain t m2 where t: "issueQueueEntry c net node w idx m1 = (t, m2)" by (rule prod.exhaust)
    have "moves (if t = None then 0 else 1) m1 m2" by (rule moves_issueQueueEntry [OF t]) (use iq in simp)
    from moves_trans [OF 1 this] have 2: "moves (if t = None then 0 else 1) m m2" by simp
    show ?thesis
    proof (cases t)
      case None
      then have "slotFromNodes c net w wanted nodes m2 = (r, m')" using Cons.prems(1) s Some t by simp
      from Cons.IH [OF this] have "moves (if r = None then 0 else 1) m2 m'"
        using Cons.prems(2) moves_in_queues [OF 2] moves_rect [OF 2] by simp
      from moves_trans [OF 2 this] None show ?thesis by simp
    next
      case (Some p)
      have "moves 0 m2 m'" "r = Some p" using Cons.prems(1) s \<open>s = Some idx\<close> t Some by (auto simp: moves_frame)
      then show ?thesis using moves_trans [OF 2, of 0 m'] Some by simp
    qed
  qed
qed simp

lemma slot_moves:
  assumes "tryIssueSlotFromWorker c net w slot bundle m = (r, m')" "mg_rect m \<Longrightarrow> w < 4"
  shows "moves (if r = None then 0 else 1) m m'"
proof (cases "(if mg_queues m = [] then 0 else length (mg_queues m ! 0)) \<le> w")
  case False
  then have "\<exists>start. slotFromNodes c net w (slot_wanted slot bundle) (turn_order start (length (mg_queues m))) m = (r, m')"
    using assms(1) by (auto simp: tryIssueSlotFromWorker_def Let_def)
  then obtain start where "slotFromNodes c net w (slot_wanted slot bundle) (turn_order start (length (mg_queues m))) m = (r, m')" ..
  then show ?thesis by (rule moves_slotFromNodes) (use assms(2) in \<open>auto dest: turn_order_less intro: in_queues_rect\<close>)
qed (use assms in \<open>auto simp: tryIssueSlotFromWorker_def\<close>)

lemma slot_advances:
  assumes "tryIssueSlotFromWorker c net w slot bundle m = (r, m')" "mg_rect m \<Longrightarrow> w < 4" "hasIssueBudget c m"
  shows "advances c (r \<noteq> None) m m'"
  using slot_moves [OF assms(1,2)] within_step [OF assms(3)] by (auto simp: advances_def split: if_splits)

lemma advances_bundleRounds:
  "(mg_rect m \<Longrightarrow> w < 4) \<Longrightarrow> \<exists>b. advances c b m (bundleRounds c net w seq n m)"
proof (induction n arbitrary: m)
  case 0
  show ?case by (simp add: exI [of _ False])
next
  case (Suc n)
  obtain p0 m1 where 1: "tryIssueSlotFromWorker c net w 0 (Some seq) m = (p0, m1)" by (rule prod.exhaust)
  obtain p1 m2 where 2: "tryIssueSlotFromWorker c net w 1 (Some seq) m1 = (p1, m2)" by (rule prod.exhaust)
  show ?case
  proof (cases "hasIssueBudget c m")
    case True
    have a1: "advances c (p0 \<noteq> None) m m1" by (rule slot_advances [OF 1 Suc.prems True])
    have w1: "w < 4" if "mg_rect m1" using Suc.prems that advances_rect [OF a1] by simp
    have n1: "\<exists>b. advances c b m (bundleRounds c net w seq n m1)"
      using Suc.IH [of m1, OF w1] advances_trans [OF a1] by blast
    show ?thesis
    proof (cases "hasIssueBudget c m1")
      case b1: True
      have a2: "advances c (p0 \<noteq> None \<or> p1 \<noteq> None) m m2"
        by (rule advances_trans [OF a1 slot_advances [OF 2 w1 b1]])
      have w2: "w < 4" if "mg_rect m2" using Suc.prems that advances_rect [OF a2] by simp
      have n2: "\<exists>b. advances c b m (bundleRounds c net w seq n m2)"
        using Suc.IH [of m2, OF w2] advances_trans [OF a2] by blast
      show ?thesis using True b1 1 2 a2 n2 by auto
    qed (use True 1 a1 n1 in auto)
  qed (auto intro: exI [of _ False])
qed

lemma advances_groupTurn:
  assumes "groupTurn c net w m = (b, m')" "mg_rect m \<Longrightarrow> w < 4"
  shows "advances c b m m'"
proof -
  have slot: "advances c (fst r \<noteq> None) n (snd r)"
    if "r = (if hasIssueBudget c n then tryIssueSlotFromWorker c net w s bd n else (None, n))" "mg_rect n \<Longrightarrow> w < 4" for r n s bd
    using that slot_advances [of c net w s bd n "fst r" "snd r"] by auto
  have rounds: "advances c True m (bundleRounds c net w seq k n)" if "advances c True m n" for seq k n
  proof -
    have "\<exists>b. advances c b n (bundleRounds c net w seq k n)"
      by (rule advances_bundleRounds) (use assms(2) advances_rect [OF that] in simp)
    then show ?thesis using advances_trans [OF that] by force
  qed
  obtain r m1 where r: "(if hasIssueBudget c m then tryIssueSlotFromWorker c net w 0 None m else (None, m)) = (r, m1)"
    by (rule prod.exhaust)
  have 1: "advances c (r \<noteq> None) m m1" using slot [OF r [symmetric] assms(2)] by simp
  have w1: "w < 4" if "mg_rect m1" using assms(2) that advances_rect [OF 1] by simp
  show ?thesis
  proof (cases r)
    case (Some p)
    let ?m2 = "if hasIssueBudget c m1 then snd (tryIssueSlotFromWorker c net w 1 (Some (ucast (pt_requestId p))) m1) else m1"
    have "\<exists>b. advances c b m1 ?m2"
      using slot [where n = m1 and s = 1 and bd = "Some (ucast (pt_requestId p))", OF refl w1] by (cases "hasIssueBudget c m1") (auto intro: exI [of _ False])
    then have "advances c True m ?m2" using advances_trans [OF 1] Some by force
    from rounds [OF this] show ?thesis using assms(1) r Some by (auto simp: groupTurn_def Let_def)
  next
    case None
    obtain s m2 where s: "(if hasIssueBudget c m1 then tryIssueSlotFromWorker c net w 1 None m1 else (None, m1)) = (s, m2)"
      by (rule prod.exhaust)
    have 2: "advances c (s \<noteq> None) m m2" using advances_trans [OF 1 slot [OF s [symmetric] w1]] None by simp
    show ?thesis
    proof (cases s)
      case None
      then show ?thesis using assms(1) r \<open>r = None\<close> s 2 by (auto simp: groupTurn_def)
    next
      case (Some p)
      then show ?thesis using assms(1) r \<open>r = None\<close> s 2 rounds by (auto simp: groupTurn_def)
    qed
  qed
qed

lemma advances_groupTurns:
  "groupTurns c net n ws m = (b, m') \<Longrightarrow> (\<And>w. w \<in> set ws \<Longrightarrow> mg_rect m \<Longrightarrow> w < 4) \<Longrightarrow> advances c b m m'"
proof (induction ws arbitrary: m)
  case (Cons w ws)
  obtain r m1 where r: "groupTurn c net w m = (r, m1)" by (rule prod.exhaust)
  have 1: "advances c r m m1" by (rule advances_groupTurn [OF r]) (use Cons.prems(2) in simp)
  show ?case
  proof (cases r)
    case True
    then have "b" "m' = m1\<lparr>mg_groupWorkerIssueCursor := (w + 1) mod n\<rparr>" using Cons.prems(1) r by auto
    then show ?thesis using advances_frame [OF 1, of m'] True by simp
  next
    case False
    then have "groupTurns c net n ws m1 = (b, m')" using Cons.prems(1) r by simp
    from Cons.IH [OF this] have "advances c b m1 m'" using Cons.prems(2) advances_rect [OF 1] by simp
    from advances_trans [OF 1 this] False show ?thesis by simp
  qed
qed simp

lemma advances_workersOfNode:
  "workersOfNode c net node ws m = (b, m') \<Longrightarrow> hasIssueBudget c m \<Longrightarrow>
   (\<And>w. w \<in> set ws \<Longrightarrow> mg_rect m \<Longrightarrow> in_queues node w m) \<Longrightarrow> advances c b m m'"
proof (induction ws arbitrary: m)
  case (Cons w ws)
  show ?case
  proof (cases "mg_queue node w m = []")
    case True
    then show ?thesis using Cons.prems Cons.IH by simp
  next
    case False
    obtain r m1 where r: "tryIssueFromQueue c net node w m = (r, m1)" by (rule prod.exhaust)
    obtain k where k: "moves k m m1" "if r then 0 < k else k = 0" "within c m1"
      using moves_tryIssueFromQueue [OF r _ Cons.prems(2)] Cons.prems(3) by auto
    then have 1: "advances c r m m1" by (auto simp: advances_def)
    show ?thesis
    proof (cases r)
      case True
      then have "b" using Cons.prems(1) False r by simp
      then show ?thesis using advances_frame [OF 1, of m'] True Cons.prems(1) False r by (auto split: if_splits)
    next
      case f: False
      then have w: "workersOfNode c net node ws m1 = (b, m')" using Cons.prems(1) False r by simp
      have "advances c b m1 m'"
        by (rule Cons.IH [OF w])
           (use Cons.prems f k budget_0 [of m m1 c] moves_in_queues [OF k(1)] moves_rect [OF k(1)] in simp_all)
      from advances_trans [OF 1 this] f show ?thesis by simp
    qed
  qed
qed simp

lemma advances_False_budget: "advances c False m m' \<Longrightarrow> hasIssueBudget c m' = hasIssueBudget c m"
  by (auto simp: advances_def budget_0)

lemma advances_nodeTurns:
  "nodeTurns c net nodes m = (b, m') \<Longrightarrow> hasIssueBudget c m \<Longrightarrow>
   (\<And>n. n \<in> set nodes \<Longrightarrow> n < length (mg_queues m)) \<Longrightarrow> advances c b m m'"
proof (induction nodes arbitrary: m)
  case (Cons node nodes)
  show ?case
  proof (cases "mg_queues m ! node = []")
    case True
    then show ?thesis using Cons.prems Cons.IH by simp
  next
    case False
    let ?s = "if node < length (mg_nodeWorkerIssueCursor m) then mg_nodeWorkerIssueCursor m ! node mod length (mg_queues m ! node) else 0"
    obtain r m1 where r: "workersOfNode c net node (turn_order ?s (length (mg_queues m ! node))) m = (r, m1)"
      by (rule prod.exhaust)
    have 1: "advances c r m m1"
      by (rule advances_workersOfNode [OF r Cons.prems(2)])
         (use Cons.prems(3) in \<open>auto simp: in_queues_def dest: turn_order_less\<close>)
    show ?thesis
    proof (cases r)
      case True
      then show ?thesis using Cons.prems(1) False r 1 by (simp add: Let_def)
    next
      case f: False
      then have n: "nodeTurns c net nodes m1 = (b, m')" using Cons.prems(1) False r by (simp add: Let_def)
      have "advances c b m1 m'"
        by (rule Cons.IH [OF n])
           (use Cons.prems f 1 advances_False_budget [of c m m1] shape_length [OF advances_shape [OF 1]] in simp_all)
      from advances_trans [OF 1 this] f show ?thesis by simp
    qed
  qed
qed simp

lemma advances_issuePass:
  assumes "issuePass c net m = (b, m')" "hasIssueBudget c m"
  shows "advances c b m m'"
proof (cases "rc_groupRoundRobin c")
  case True
  show ?thesis
  proof (cases "mg_queues m = [] \<or> mg_queues m ! 0 = []")
    case t: True
    then show ?thesis using assms True by (auto simp: issuePass_def Let_def split: if_splits)
  next
    case False
    let ?n = "length (mg_queues m ! 0)"
    have g: "groupTurns c net ?n (turn_order (mg_groupWorkerIssueCursor m mod ?n) ?n) m = (b, m')"
      using assms True False by (simp add: issuePass_def Let_def)
    show ?thesis by (rule advances_groupTurns [OF g]) (use False in \<open>auto simp: mg_rect_def dest!: turn_order_less\<close>)
  qed
next
  case False
  then have n: "nodeTurns c net (turn_order (mg_nodeIssueCursor m) (length (mg_queues m))) m = (b, m')"
    using assms by (simp add: issuePass_def)
  show ?thesis by (rule advances_nodeTurns [OF n assms(2)]) (auto dest: turn_order_less)
qed

lemma issuePass_issues:
  assumes "(True, m') = issuePass c net m" "mg_issuedThisCycle m < rc_managerIssueBudgetPerTick c"
  shows "mg_issuedThisCycle m < mg_issuedThisCycle m'"
  using advances_issuePass [OF assms(1) [symmetric]] assms(2) by (auto simp: hasIssueBudget_def advances_def moves_def)

section \<open>The issue loop and the tick\<close>

text \<open>
  The loop of \<open>tryIssue\<close> runs while a pass made progress, panels wait and budget is left. A pass
  with progress issues, so the budget bounds the number of passes.
\<close>

function issueLoop :: "RsConfig \<Rightarrow> RsNet \<Rightarrow> RsManager \<Rightarrow> RsManager" where
  "issueLoop c net m =
     (if managerPendingCount m \<noteq> 0 \<and> hasIssueBudget c m
      then (case issuePass c net m of (progress, m') \<Rightarrow> if progress then issueLoop c net m' else m')
      else m)"
  by pat_completeness auto

termination
  by (relation "measure (\<lambda>(c, net, m). rc_managerIssueBudgetPerTick c - mg_issuedThisCycle m)")
     (auto simp: hasIssueBudget_def dest!: issuePass_issues)

text \<open>\<open>tryIssue\<close>: the budget starts anew when the cycle has changed.\<close>

definition fresh_budget :: "RsManager \<Rightarrow> RsManager" where
  "fresh_budget m =
     (if mg_issueBudgetCycle m \<noteq> mg_lastTickCycle m then m\<lparr>mg_issueBudgetCycle := mg_lastTickCycle m, mg_issuedThisCycle := 0\<rparr> else m)"

definition tryIssue :: "RsConfig \<Rightarrow> RsNet \<Rightarrow> RsManager \<Rightarrow> RsManager" where
  "tryIssue c net m =
     (if mg_queues m = [] \<or> managerPendingCount m = 0 then m
      else
        (let m1 = fresh_budget m in
         if \<not> hasIssueBudget c m1 then mg_press (\<lambda>p. p\<lparr>pr_issuePaceBlocked := pr_issuePaceBlocked p + 1\<rparr>) m1
         else
           (let m2 = issueLoop c net m1;
                issuedThisCall = mg_issuedThisCycle m2 - mg_issuedThisCycle m1;
                m3 = (if managerPendingCount m2 \<noteq> 0 \<and> \<not> hasIssueBudget c m2
                      then mg_press (\<lambda>p. p\<lparr>pr_issuePaceBlocked := pr_issuePaceBlocked p + 1\<rparr>) m2 else m2)
            in if issuedThisCall = 0 \<and> managerPendingCount m3 \<noteq> 0 \<and> hasIssueBudget c m3
               then mg_press (\<lambda>p. p\<lparr>pr_noIssueTicks := pr_noIssueTicks p + 1\<rparr>) m3 else m3)))"

definition sampleManagerPressure :: "RsConfig \<Rightarrow> RsManager \<Rightarrow> RsManager" where
  "sampleManagerPressure c m =
     (let pendingCount = managerPendingCount m;
          cap = unat (rc_workerCreditCap c);
          maxWorkerUsed = fold (\<lambda>credit used. if credit < cap then max used (cap - credit) else used) (mg_credits m) 0
      in mg_press (\<lambda>p. p\<lparr>pr_ticks := pr_ticks p + 1, pr_pendingQSamples := pr_pendingQSamples p @ [pendingCount],
             pr_pendingNonEmptyTicks := pr_pendingNonEmptyTicks p + (if pendingCount \<noteq> 0 then 1 else 0),
             pr_workerUsedMaxSamples := pr_workerUsedMaxSamples p @ [maxWorkerUsed],
             pr_nodeUsedMaxSamples := pr_nodeUsedMaxSamples p @ [0]\<rparr>) m)"

definition rs_managerTick :: "RsConfig \<Rightarrow> RsNet \<Rightarrow> nat \<Rightarrow> RsManager \<Rightarrow> RsManager" where
  "rs_managerTick c net cyc m = tryIssue c net (sampleManagerPressure c (m\<lparr>mg_lastTickCycle := cyc\<rparr>))"

definition rs_handleSendAvailable :: "RsConfig \<Rightarrow> RsNet \<Rightarrow> RsManager \<Rightarrow> RsManager" where
  "rs_handleSendAvailable c net m = tryIssue c net m"

text \<open>
  A run: messages of the workers on their links, clock ticks, and wake-ups of the network
  interface, in any order.
\<close>

datatype RsEvent = EvReq RequestSchedulerMsg nat | EvTick nat | EvSendAvailable

fun rs_step :: "RsConfig \<Rightarrow> RsNet \<Rightarrow> RsEvent \<Rightarrow> RsManager \<Rightarrow> RsManager" where
  "rs_step c net (EvReq msg slot) m = rs_handleReq c msg slot m"
| "rs_step c net (EvTick cyc) m = rs_managerTick c net cyc m"
| "rs_step c net EvSendAvailable m = rs_handleSendAvailable c net m"

definition rs_run :: "RsConfig \<Rightarrow> RsNet \<Rightarrow> RsEvent list \<Rightarrow> RsManager \<Rightarrow> RsManager" where
  "rs_run c net evs m = fold (rs_step c net) evs m"

text \<open>The panels a run puts into the queues, and the reports of finished panels per worker.\<close>

definition submit_taken :: "RsConfig \<Rightarrow> nat \<Rightarrow> PendingTransfer \<Rightarrow> RsManager \<Rightarrow> bool" where
  "submit_taken c slot p m \<longleftrightarrow> unat (pt_targetNode p) < length (mg_queues m) \<and>
     slot < length (mg_queues m ! unat (pt_targetNode p)) \<and> managerPendingCount m < rc_queueDepth c"

fun taken_panels :: "RsConfig \<Rightarrow> nat \<Rightarrow> PendingTransfer list \<Rightarrow> RsManager \<Rightarrow> PendingTransfer list" where
  "taken_panels c slot [] m = []"
| "taken_panels c slot (p # ps) m =
     (if submit_taken c slot p m then [p] else []) @ taken_panels c slot ps (enqueue_submit c slot p m)"

fun ev_taken :: "RsConfig \<Rightarrow> RsEvent \<Rightarrow> RsManager \<Rightarrow> PendingTransfer list" where
  "ev_taken c (EvReq msg slot) m = (if rm_type msg = RS_SUBMIT then taken_panels c slot (submit_panels slot msg) m else [])"
| "ev_taken c _ m = []"

fun run_taken :: "RsConfig \<Rightarrow> RsNet \<Rightarrow> RsEvent list \<Rightarrow> RsManager \<Rightarrow> PendingTransfer list" where
  "run_taken c net [] m = []"
| "run_taken c net (ev # evs) m = ev_taken c ev m @ run_taken c net evs (rs_step c net ev m)"

fun ev_dones :: "nat \<Rightarrow> RsEvent \<Rightarrow> nat" where
  "ev_dones w (EvReq msg slot) = (if rm_type msg = RS_DONE \<and> slot = w then length (done_entries msg) else 0)"
| "ev_dones w _ = 0"

fun ev_cycle :: "RsEvent \<Rightarrow> nat list" where
  "ev_cycle (EvTick cyc) = [cyc]"
| "ev_cycle _ = []"

definition tick_cycles :: "RsEvent list \<Rightarrow> nat list" where
  "tick_cycles evs = concat (map ev_cycle evs)"

section \<open>What a step changes\<close>

declare issueLoop.simps [simp del]

lemma advances_issueLoop: "\<exists>b. advances c b m (issueLoop c net m)"
proof (induction c net m rule: issueLoop.induct)
  case (1 c net m)
  show ?case
  proof (cases "managerPendingCount m \<noteq> 0 \<and> hasIssueBudget c m")
    case True
    obtain b m' where p: "issuePass c net m = (b, m')" by (rule prod.exhaust)
    have a: "advances c b m m'" by (rule advances_issuePass [OF p]) (use True in simp)
    have eq: "issueLoop c net m = (if b then issueLoop c net m' else m')" using True p by (simp add: issueLoop.simps [of c net m])
    show ?thesis
    proof (cases b)
      case True
      have "\<exists>b. advances c b m' (issueLoop c net m')"
        using "1.IH" \<open>managerPendingCount m \<noteq> 0 \<and> hasIssueBudget c m\<close> p True by metis
      then show ?thesis using eq True advances_trans [OF a] by auto
    qed (use a eq in auto)
  qed (auto simp: issueLoop.simps [of c net m] intro: exI [of _ False])
qed

text \<open>After the budget was made current, \<open>tryIssue\<close> only issues.\<close>

lemma advances_tryIssue:
  "tryIssue c net m = m \<or> (\<exists>b. advances c b (fresh_budget m) (tryIssue c net m))"
proof (cases "mg_queues m = [] \<or> managerPendingCount m = 0")
  case False
  let ?m1 = "fresh_budget m" and ?m2 = "issueLoop c net (fresh_budget m)"
  have press: "\<exists>b. advances c b ?m1 (mg_press f n)" if "\<exists>b. advances c b ?m1 n" for f n
    using that advances_frame [where ?m2.0 = "mg_press f n"] by (metis mg_press_simps(1-6))
  have 0: "\<exists>b. advances c b ?m1 ?m1" by (rule exI [of _ False]) simp
  have "\<exists>b. advances c b ?m1 ?m2" by (rule advances_issueLoop)
  then show ?thesis
    using press [OF 0] press False by (auto simp: tryIssue_def Let_def)
qed (auto simp: tryIssue_def)

end
