(* ===== verification/Request_Sched_Runs.thy ===== *)
theory Request_Sched_Runs
  imports Request_Sched_Issue
begin

text \<open>
  What holds along every run of the request manager: each requested byte waits or has been sent,
  exactly once; no cycle issues more than its budget; and a worker has no more panels in flight
  than its credits allow.
\<close>

text \<open>A small configuration with a given number of credits and a network that takes everything, for examples.\<close>

definition sample_config :: "u32 \<Rightarrow> RsConfig" where
  "sample_config cap = rs_configure cap \<lparr>rc_role = RS_MANAGER, rc_coreId = 0, rc_groupId = 0, rc_workerSlot = 0, rc_queueDepth = 8,
     rc_panelChunkBytes = 2, rc_workerCreditCap = 0, rc_workerSoftIssueCap = 0, rc_managerIssueBudgetPerTick = 2,
     rc_tileChunkQuantum = 1, rc_submitBatchSize = 1, rc_doneBatchSize = 1, rc_prefetchWindowDepth = 1,
     rc_localSlotCount = 1, rc_aReuseNTiles = 1, rc_bReuseMTiles = 1, rc_numMemoryNodes = 1, rc_inferSubmitBytes = False,
     rc_eventDrivenWorker = False, rc_groupRoundRobin = False, rc_slot0Bytes = 0, rc_slot1Bytes = 0, rc_gmBaseAddr = 0,
     rc_gmSize = 0, rc_windowKtiles = 1, rc_reqOut = False\<rparr>"

definition sample_net :: RsNet where
  "sample_net = \<lparr>nw_ready = True, nw_resolve = (\<lambda>_. 1), nw_memNic = (\<lambda>_. 2), nw_targetRouter = (\<lambda>_. 3), nw_accepts = (\<lambda>_. True)\<rparr>"

section \<open>Messages\<close>

lemma enqueue_frame [simp]:
  "mg_credits (enqueue_submit c slot p m) = mg_credits m" "mg_sent (enqueue_submit c slot p m) = mg_sent m"
  "mg_issuedThisCycle (enqueue_submit c slot p m) = mg_issuedThisCycle m"
  "mg_lastTickCycle (enqueue_submit c slot p m) = mg_lastTickCycle m"
  "mg_issueBudgetCycle (enqueue_submit c slot p m) = mg_issueBudgetCycle m"
  "mg_shape (enqueue_submit c slot p m) = mg_shape m"
  by (simp_all add: enqueue_submit_def Let_def) (simp_all add: mg_shape_def)

lemma qtotal_enqueue:
  fixes f :: "PendingTransfer \<Rightarrow> 'a :: cancel_comm_monoid_add"
  shows "qtotal f (enqueue_submit c slot p m) = qtotal f m + (if submit_taken c slot p m then f p else 0)"
proof -
  let ?m = "m\<lparr>mg_trace := traceSubmitAtManager (mg_lastTickCycle m) (pt_requestId p) (of_nat slot) (pt_targetNode p) (mg_trace m)\<rparr>"
  let ?n = "unat (pt_targetNode p)"
  have q: "qtotal f ?m = qtotal f m" "managerPendingCount ?m = managerPendingCount m"
    by (simp_all add: qtotal_def managerPendingCount_def)
  show ?thesis
  proof (cases "submit_taken c slot p m")
    case True
    then have iq: "in_queues ?n slot ?m" by (simp add: in_queues_def submit_taken_def)
    have "enqueue_submit c slot p m = mg_set_queue ?n slot (mg_queue ?n slot ?m @ [p]) ?m"
      using True q by (simp add: enqueue_submit_def Let_def submit_taken_def)
    then have "qtotal f (enqueue_submit c slot p m) + qsum f (mg_queue ?n slot ?m) = qtotal f m + f p + qsum f (mg_queue ?n slot ?m)"
      using qtotal_set_queue [OF iq, of f "mg_queue ?n slot ?m @ [p]"] q by (simp add: ac_simps)
    then show ?thesis using True by simp
  next
    case False
    then have "enqueue_submit c slot p m = ?m" using q by (auto simp: enqueue_submit_def Let_def submit_taken_def)
    then show ?thesis using False q by simp
  qed
qed

lemma submit_frame:
  "mg_credits (fold (enqueue_submit c slot) ps m) = mg_credits m" "mg_sent (fold (enqueue_submit c slot) ps m) = mg_sent m"
  "mg_issuedThisCycle (fold (enqueue_submit c slot) ps m) = mg_issuedThisCycle m"
  "mg_lastTickCycle (fold (enqueue_submit c slot) ps m) = mg_lastTickCycle m"
  "mg_issueBudgetCycle (fold (enqueue_submit c slot) ps m) = mg_issueBudgetCycle m"
  "mg_shape (fold (enqueue_submit c slot) ps m) = mg_shape m"
  by (induction ps arbitrary: m) simp_all

lemma qtotal_submit:
  fixes f :: "PendingTransfer \<Rightarrow> 'a :: cancel_comm_monoid_add"
  shows "qtotal f (fold (enqueue_submit c slot) ps m) = qtotal f m + qsum f (taken_panels c slot ps m)"
  by (induction ps arbitrary: m) (simp_all add: qtotal_enqueue ac_simps)

lemma recycle_frame [simp]:
  "mg_queues (recycle_done c slot d m) = mg_queues m" "mg_sent (recycle_done c slot d m) = mg_sent m"
  "mg_issuedThisCycle (recycle_done c slot d m) = mg_issuedThisCycle m"
  "mg_lastTickCycle (recycle_done c slot d m) = mg_lastTickCycle m"
  "mg_issueBudgetCycle (recycle_done c slot d m) = mg_issueBudgetCycle m"
  by (simp_all add: recycle_done_def Let_def)

lemma dones_frame:
  "mg_queues (fold (recycle_done c slot) ds m) = mg_queues m" "mg_sent (fold (recycle_done c slot) ds m) = mg_sent m"
  "mg_issuedThisCycle (fold (recycle_done c slot) ds m) = mg_issuedThisCycle m"
  "mg_lastTickCycle (fold (recycle_done c slot) ds m) = mg_lastTickCycle m"
  "mg_issueBudgetCycle (fold (recycle_done c slot) ds m) = mg_issueBudgetCycle m"
  by (induction ds arbitrary: m) simp_all

lemma credit_recycle: "credit_of w (recycle_done c slot d m) \<le> credit_of w m + (if slot = w then 1 else 0)"
  by (auto simp: recycle_done_def credit_of_def Let_def nth_list_update)

lemma credit_dones: "credit_of w (fold (recycle_done c slot) ds m) \<le> credit_of w m + (if slot = w then length ds else 0)"
proof (induction ds arbitrary: m)
  case (Cons d ds)
  show ?case using Cons.IH [of "recycle_done c slot d m"] credit_recycle [of w c slot d m] by (auto split: if_splits)
qed simp

section \<open>Steps\<close>

lemma qtotal_queues: "mg_queues m' = mg_queues m \<Longrightarrow> qtotal f m' = qtotal f m"
  by (simp add: qtotal_def)

lemma mg_rect_queues: "mg_queues m' = mg_queues m \<Longrightarrow> mg_rect m' = mg_rect m"
  by (simp add: mg_rect_def)

lemma fresh_frame [simp]:
  "mg_queues (fresh_budget m) = mg_queues m" "mg_credits (fresh_budget m) = mg_credits m"
  "mg_sent (fresh_budget m) = mg_sent m" "mg_lastTickCycle (fresh_budget m) = mg_lastTickCycle m"
  by (simp_all add: fresh_budget_def)

lemma sample_frame [simp]:
  "mg_queues (sampleManagerPressure c m) = mg_queues m" "mg_credits (sampleManagerPressure c m) = mg_credits m"
  "mg_sent (sampleManagerPressure c m) = mg_sent m" "mg_lastTickCycle (sampleManagerPressure c m) = mg_lastTickCycle m"
  "mg_issuedThisCycle (sampleManagerPressure c m) = mg_issuedThisCycle m"
  "mg_issueBudgetCycle (sampleManagerPressure c m) = mg_issueBudgetCycle m"
  by (simp_all add: sampleManagerPressure_def Let_def)

text \<open>What \<open>tryIssue\<close> keeps.\<close>

lemma tryIssue_keeps:
  assumes "mg_rect m"
  shows "mg_rect (tryIssue c net m)"
    "qtotal panel_bytes (tryIssue c net m) + sent_bytes (mg_sent (tryIssue c net m)) = qtotal panel_bytes m + sent_bytes (mg_sent m)"
    "credit_of w (tryIssue c net m) + qtotal (unstarted w) m = credit_of w m + qtotal (unstarted w) (tryIssue c net m)"
proof -
  have r: "mg_rect (fresh_budget m)" using assms by (simp add: mg_rect_def)
  have f: "qtotal panel_bytes (fresh_budget m) = qtotal panel_bytes m" "qtotal (unstarted w) (fresh_budget m) = qtotal (unstarted w) m"
    by (simp_all only: qtotal_def fresh_frame)
  have cr: "credit_of w (fresh_budget m) = credit_of w m" by (simp add: credit_of_def)
  consider "tryIssue c net m = m" | k where "moves k (fresh_budget m) (tryIssue c net m)"
    using advances_tryIssue [of c net m] by (auto simp: advances_def)
  then have "mg_rect (tryIssue c net m) \<and>
    qtotal panel_bytes (tryIssue c net m) + sent_bytes (mg_sent (tryIssue c net m)) = qtotal panel_bytes m + sent_bytes (mg_sent m) \<and>
    credit_of w (tryIssue c net m) + qtotal (unstarted w) m = credit_of w m + qtotal (unstarted w) (tryIssue c net m)"
  proof cases
    case 2
    then have "\<forall>w. credit_of w (tryIssue c net m) + qtotal (unstarted w) (fresh_budget m) =
      credit_of w (fresh_budget m) + qtotal (unstarted w) (tryIssue c net m)" using r by (simp add: moves_def)
    from this [rule_format, of w] show ?thesis using 2 r moves_rect [OF 2] f cr by (simp add: moves_def)
  qed (use assms in simp)
  then show "mg_rect (tryIssue c net m)"
    "qtotal panel_bytes (tryIssue c net m) + sent_bytes (mg_sent (tryIssue c net m)) = qtotal panel_bytes m + sent_bytes (mg_sent m)"
    "credit_of w (tryIssue c net m) + qtotal (unstarted w) m = credit_of w m + qtotal (unstarted w) (tryIssue c net m)" by simp_all
qed

lemma step_issues:
  assumes "ev = EvTick cyc \<or> ev = EvSendAvailable"
  obtains n where "rs_step c net ev m = tryIssue c net n" "mg_queues n = mg_queues m" "mg_credits n = mg_credits m"
    "mg_sent n = mg_sent m" "mg_lastTickCycle n = (if ev = EvSendAvailable then mg_lastTickCycle m else cyc)"
    "mg_issuedThisCycle n = mg_issuedThisCycle m" "mg_issueBudgetCycle n = mg_issueBudgetCycle m"
  using assms
proof
  assume "ev = EvTick cyc"
  then show ?thesis
    by (intro that [of "sampleManagerPressure c (m\<lparr>mg_lastTickCycle := cyc\<rparr>)"]) (simp_all add: rs_managerTick_def)
qed (use that [of m] in \<open>simp add: rs_handleSendAvailable_def\<close>)

lemma step_conserves:
  assumes "mg_rect m"
  shows "mg_rect (rs_step c net ev m) \<and>
    qtotal panel_bytes (rs_step c net ev m) + sent_bytes (mg_sent (rs_step c net ev m)) =
      qtotal panel_bytes m + sent_bytes (mg_sent m) + qsum panel_bytes (ev_taken c ev m) \<and>
    credit_of w (rs_step c net ev m) + qtotal (unstarted w) m + qsum (unstarted w) (ev_taken c ev m) \<le>
      credit_of w m + qtotal (unstarted w) (rs_step c net ev m) + ev_dones w ev"
proof (cases ev)
  case (EvReq msg slot)
  show ?thesis
  proof (cases "rm_type msg")
    case RS_SUBMIT
    then show ?thesis
      using EvReq assms by (simp add: rs_handleReq_def submit_frame qtotal_submit mg_rect_shape credit_of_def ac_simps)
  next
    case RS_DONE
    then show ?thesis
      using EvReq assms credit_dones [of w c slot "done_entries msg" m]
      by (auto simp: rs_handleReq_def dones_frame qtotal_queues [OF dones_frame(1)] mg_rect_def)
  qed
next
  case (EvTick cyc)
  then obtain n where n: "rs_step c net ev m = tryIssue c net n" "mg_queues n = mg_queues m" "mg_credits n = mg_credits m"
    "mg_sent n = mg_sent m" using step_issues by blast
  have cr: "credit_of w n = credit_of w m" using n(3) by (simp add: credit_of_def)
  have r: "mg_rect n" using assms n mg_rect_queues by metis
  show ?thesis
    unfolding n(1) using tryIssue_keeps(1,2) [OF r, where c = c and net = net] tryIssue_keeps(3) [OF r, where c = c and net = net and w = w] EvTick qtotal_queues [OF n(2), of panel_bytes]
      qtotal_queues [OF n(2), of "unstarted w"] n(4) cr by simp
next
  case EvSendAvailable
  then show ?thesis using tryIssue_keeps(1,2) [OF assms, where c = c and net = net] tryIssue_keeps(3) [OF assms, where c = c and net = net and w = w] by (simp add: rs_handleSendAvailable_def)
qed

lemma run_conserves:
  assumes "mg_rect m"
  shows "qtotal panel_bytes (rs_run c net evs m) + sent_bytes (mg_sent (rs_run c net evs m)) =
      qtotal panel_bytes m + sent_bytes (mg_sent m) + qsum panel_bytes (run_taken c net evs m) \<and>
    credit_of w (rs_run c net evs m) + qtotal (unstarted w) m + qsum (unstarted w) (run_taken c net evs m) \<le>
      credit_of w m + qtotal (unstarted w) (rs_run c net evs m) + sum_list (map (ev_dones w) evs)"
  using assms
proof (induction evs arbitrary: m)
  case (Cons ev evs)
  have 1: "mg_rect (rs_step c net ev m)" using step_conserves [OF Cons.prems] by simp
  show ?case using Cons.IH [OF 1] step_conserves [OF Cons.prems, of c net ev w] by (simp add: rs_run_def ac_simps)
qed (simp add: rs_run_def)

section \<open>The budget of a cycle\<close>

definition sent_in :: "nat \<Rightarrow> RsManager \<Rightarrow> nat" where
  "sent_in cyc m = length (filter (\<lambda>x. rp_cycle x = cyc) (mg_sent m))"

text \<open>
  Nothing is sent ahead of the current cycle, and what the current cycle has sent is in the count
  of issues, unless that count is still the one of an earlier cycle.
\<close>

definition budget_inv :: "RsConfig \<Rightarrow> RsManager \<Rightarrow> bool" where
  "budget_inv c m \<longleftrightarrow>
     (\<forall>cyc. sent_in cyc m \<le> rc_managerIssueBudgetPerTick c) \<and> (\<forall>x \<in> set (mg_sent m). rp_cycle x \<le> mg_lastTickCycle m) \<and>
     mg_issueBudgetCycle m \<le> mg_lastTickCycle m \<and>
     sent_in (mg_lastTickCycle m) m \<le> (if mg_issueBudgetCycle m = mg_lastTickCycle m then mg_issuedThisCycle m else 0) \<and>
     within c m"

lemma sent_in_later: "\<forall>x \<in> set (mg_sent m). rp_cycle x \<le> l \<Longrightarrow> l < cyc \<Longrightarrow> sent_in cyc m = 0"
  by (auto simp: sent_in_def filter_empty_conv)

lemma budget_inv_later:
  assumes "budget_inv c m" "mg_lastTickCycle m \<le> mg_lastTickCycle n" "mg_sent n = mg_sent m"
    "mg_issuedThisCycle n = mg_issuedThisCycle m" "mg_issueBudgetCycle n = mg_issueBudgetCycle m"
  shows "budget_inv c n"
proof (cases "mg_lastTickCycle m = mg_lastTickCycle n")
  case True
  then show ?thesis using assms by (auto simp: budget_inv_def sent_in_def within_def split: if_splits)
next
  case False
  then have "sent_in (mg_lastTickCycle n) m = 0"
    using assms sent_in_later [of m "mg_lastTickCycle m" "mg_lastTickCycle n"] by (simp add: budget_inv_def)
  then have "sent_in (mg_lastTickCycle n) n = 0" "\<forall>cyc. sent_in cyc n = sent_in cyc m" using assms(3) by (simp_all add: sent_in_def)
  then show ?thesis using assms False by (auto simp: budget_inv_def within_def intro: order_trans)
qed

lemma budget_inv_fresh: "budget_inv c m \<Longrightarrow> budget_inv c (fresh_budget m)"
  by (auto simp: fresh_budget_def budget_inv_def sent_in_def within_def)

lemma fresh_current: "mg_issueBudgetCycle (fresh_budget m) = mg_lastTickCycle m"
  by (simp add: fresh_budget_def)

lemma budget_inv_advances:
  assumes "budget_inv c m" "mg_issueBudgetCycle m = mg_lastTickCycle m" "advances c b m m'"
  shows "budget_inv c m'"
proof -
  obtain k ps where k: "mg_issuedThisCycle m' = mg_issuedThisCycle m + k" "mg_sent m' = mg_sent m @ ps" "length ps = k"
      "\<forall>p \<in> set ps. rp_cycle p = mg_lastTickCycle m" "mg_lastTickCycle m' = mg_lastTickCycle m"
      "mg_issueBudgetCycle m' = mg_issueBudgetCycle m" and w: "within c m'"
    using assms by (auto simp: advances_def moves_def budget_inv_def)
  have "filter (\<lambda>x. rp_cycle x = cyc) ps = (if cyc = mg_lastTickCycle m then ps else [])" for cyc
    using k(4) by (auto simp: filter_id_conv filter_empty_conv)
  then have n: "sent_in cyc m' = sent_in cyc m + (if cyc = mg_lastTickCycle m then k else 0)" for cyc
    using k(2,3) by (simp add: sent_in_def)
  have "sent_in (mg_lastTickCycle m) m' \<le> mg_issuedThisCycle m'" using n k assms by (simp add: budget_inv_def)
  moreover have "sent_in cyc m' \<le> rc_managerIssueBudgetPerTick c" for cyc
  proof (cases "cyc = mg_lastTickCycle m")
    case True
    then show ?thesis using calculation w by (simp add: within_def)
  qed (use n assms in \<open>simp add: budget_inv_def\<close>)
  ultimately show ?thesis using assms k w by (auto simp: budget_inv_def)
qed

lemma budget_inv_tryIssue: "budget_inv c m \<Longrightarrow> budget_inv c (tryIssue c net m)"
  using advances_tryIssue [of c net m] budget_inv_advances [OF budget_inv_fresh] fresh_current by fastforce

lemma tryIssue_cycle: "mg_lastTickCycle (tryIssue c net m) = mg_lastTickCycle m"
  using advances_tryIssue [of c net m] by (auto simp: advances_def moves_def)

lemma budget_inv_step:
  assumes "budget_inv c m" "\<forall>cyc \<in> set (ev_cycle ev). mg_lastTickCycle m \<le> cyc"
  shows "budget_inv c (rs_step c net ev m) \<and> mg_lastTickCycle (rs_step c net ev m) = last (mg_lastTickCycle m # ev_cycle ev)"
proof (cases ev)
  case (EvReq msg slot)
  then show ?thesis
    using assms by (cases "rm_type msg")
      (simp_all add: rs_handleReq_def submit_frame dones_frame budget_inv_later [OF assms(1)])
next
  case (EvTick cyc)
  have "budget_inv c (sampleManagerPressure c (m\<lparr>mg_lastTickCycle := cyc\<rparr>))"
    by (rule budget_inv_later [OF assms(1)]) (use assms(2) EvTick in simp_all)
  from budget_inv_tryIssue [OF this] show ?thesis using EvTick by (simp add: rs_managerTick_def tryIssue_cycle)
next
  case EvSendAvailable
  then show ?thesis using budget_inv_tryIssue [OF assms(1)] by (simp add: rs_handleSendAvailable_def tryIssue_cycle)
qed

lemma budget_inv_run:
  "budget_inv c m \<Longrightarrow> sorted (mg_lastTickCycle m # tick_cycles evs) \<Longrightarrow> budget_inv c (rs_run c net evs m)"
proof (induction evs arbitrary: m)
  case (Cons ev evs)
  have le: "\<forall>cyc \<in> set (ev_cycle ev). mg_lastTickCycle m \<le> cyc" using Cons.prems(2) by (auto simp: tick_cycles_def)
  note st = budget_inv_step [OF Cons.prems(1) le, of net]
  have "sorted (mg_lastTickCycle (rs_step c net ev m) # tick_cycles evs)"
    using st Cons.prems(2) by (cases ev) (auto simp: tick_cycles_def)
  then show ?case using Cons.IH [OF conjunct1 [OF st]] by (simp add: rs_run_def)
qed (simp add: rs_run_def)

lemma sum_list_zeros: "sum_list (replicate n (0 :: 'a :: comm_monoid_add)) = 0"
  by (induction n) simp_all

lemma mg_init_facts:
  "mg_rect (mg_init c)" "qtotal f (mg_init c) = 0" "credit_of w (mg_init c) \<le> unat (rc_workerCreditCap c)"
  "mg_sent (mg_init c) = []" "budget_inv c (mg_init c)" "mg_lastTickCycle (mg_init c) = 0"
  by (auto simp: mg_init_def mg_rect_def qtotal_def credit_of_def budget_inv_def sent_in_def within_def sum_list_zeros
      map_replicate_const)

section \<open>Properties of every run\<close>

text \<open>(C6)
  The manager transfers exactly what it was asked for: along every run of worker messages, clock
  ticks and network wake-ups, under both policies and whatever the network accepts,
  the bytes sent in chunks and the bytes still waiting are together exactly the bytes of
  the panels taken into the queues, each with its own request, source and destination address.
\<close>

theorem manager_bytes_conserved:
  "sent_bytes (mg_sent (rs_run c net evs (mg_init c))) + qtotal panel_bytes (rs_run c net evs (mg_init c)) =
   qsum panel_bytes (run_taken c net evs (mg_init c))"
  using run_conserves [OF mg_init_facts(1) [of c], where c = c and net = net and evs = evs] by (simp add: mg_init_facts sent_bytes_def ac_simps)

text \<open>(C12)
  Flow control per worker: the panels of a worker that were taken and of which a first chunk
  was sent never exceed its credits and the panels it has since reported as done.
\<close>

theorem worker_panels_within_credits:
  "qsum (unstarted w) (run_taken c net evs (mg_init c)) - qtotal (unstarted w) (rs_run c net evs (mg_init c)) \<le>
   unat (rc_workerCreditCap c) + sum_list (map (ev_dones w) evs)"
  using run_conserves [OF mg_init_facts(1) [of c], where c = c and net = net and evs = evs and w = w] mg_init_facts(3) [where w = w and c = c]
    mg_init_facts(2) [where f = "unstarted w" and c = c] by linarith

text \<open>(C11)
  Pacing: in a run whose clock does not go back, no cycle sends more packets than the issue budget
  per tick, over all calls of the issue loop in that cycle.
\<close>

theorem issue_budget_per_cycle:
  assumes "sorted (tick_cycles evs)"
  shows "length (filter (\<lambda>x. rp_cycle x = cyc) (mg_sent (rs_run c net evs (mg_init c)))) \<le> rc_managerIssueBudgetPerTick c"
proof -
  have "budget_inv c (rs_run c net evs (mg_init c))"
    by (rule budget_inv_run) (use assms in \<open>simp_all add: mg_init_facts\<close>)
  then show ?thesis by (simp add: budget_inv_def sent_in_def)
qed

theorem issue_budget_per_cycle_witness:
  "let evs = [EvReq ((RequestSchedulerMsg_of RS_SUBMIT)\<lparr>rm_bytes := 5\<rparr>) 0, EvTick 3, EvSendAvailable, EvTick 4];
       m = rs_run (sample_config 4) sample_net evs (mg_init (sample_config 4))
   in sorted (tick_cycles evs) \<and>
      length (filter (\<lambda>x. rp_cycle x = 3) (mg_sent m)) \<le> rc_managerIssueBudgetPerTick (sample_config 4) \<and>
      map (\<lambda>x. (rp_cycle x, pt_srcAddr (rp_chunk x), pt_bytes (rp_chunk x))) (mg_sent m) = [(3, 0, 2), (3, 2, 2), (4, 4, 1)]"
  unfolding Let_def
  by (intro conjI issue_budget_per_cycle) code_simp+

end
