(* ===== verification/Request_Sched_Progress.thy ===== *)
theory Request_Sched_Progress
  imports Request_Sched_Runs
begin

text \<open>
  The node-first policy is work conserving: when the network takes every packet, a tick of the
  manager stops only when the budget of the cycle is used up or every waiting panel lacks a credit.
\<close>

section \<open>Panels that can be issued\<close>

definition blocked :: "RsManager \<Rightarrow> PendingTransfer \<Rightarrow> bool" where
  "blocked m p \<longleftrightarrow> pt_issuedBytes p = 0 \<and> \<not> hasWorkerCredit m p"

definition open_net :: "RsNet \<Rightarrow> bool" where
  "open_net net \<longleftrightarrow> nw_ready net \<and> (\<forall>a. 0 \<le> nw_resolve net a) \<and> (\<forall>n. nw_accepts net n)"

definition queue_blocked :: "RsManager \<Rightarrow> nat \<Rightarrow> nat \<Rightarrow> bool" where
  "queue_blocked m n w \<longleftrightarrow> (\<forall>p \<in> set (mg_queue n w m). blocked m p)"

lemma blocked_credits: "mg_credits m' = mg_credits m \<Longrightarrow> blocked m' = blocked m"
  by (simp add: blocked_def hasWorkerCredit_def fun_eq_iff)

text \<open>A scan that finds nothing leaves blocked panels; one that finds a panel finds one that can be issued.\<close>

lemma scan_none:
  "scanCandidates c m (\<lambda>_. True) idx best q = (ys, None, n) \<Longrightarrow> best = None \<and> (\<forall>p \<in> set ys. blocked m p)"
proof (induction q arbitrary: idx best ys n)
  case (Cons x xs)
  then show ?case
    by (auto simp: Let_def blocked_def split: if_splits prod.splits option.splits)
qed simp

lemma scan_some:
  "scanCandidates c m wanted idx best q = (ys, Some (k, i), n) \<Longrightarrow>
   best = Some (k, i) \<or> idx \<le> i \<and> i < idx + length ys \<and> chunkBytesForTransfer c (ys ! (i - idx)) \<noteq> 0 \<and> \<not> blocked m (ys ! (i - idx))"
proof (induction q arbitrary: idx best ys n)
  case (Cons x xs)
  show ?case
  proof (cases "chunkBytesForTransfer c x = 0")
    case True
    then show ?thesis using Cons by simp
  next
    case ch: False
    obtain b zs j where r: "scanCandidates c m wanted (idx + 1) b xs = (zs, Some (k, i), j)" and ys: "ys = x # zs"
      and b: "b = best \<or> wanted x \<and> \<not> blocked m x \<and> (\<exists>k. b = Some (k, idx))"
      using Cons.prems ch by (auto simp: Let_def blocked_def split: if_splits prod.splits option.splits)
    from Cons.IH [OF r] show ?thesis
    proof
      assume "b = Some (k, i)"
      then show ?thesis using b ch by (auto simp: ys)
    next
      assume *: "idx + 1 \<le> i \<and> i < idx + 1 + length zs \<and> chunkBytesForTransfer c (zs ! (i - (idx + 1))) \<noteq> 0 \<and>
        \<not> blocked m (zs ! (i - (idx + 1)))"
      then have "(x # zs) ! (i - idx) = zs ! (i - (idx + 1))" by (simp add: nth_Cons')
      then show ?thesis using * by (simp add: ys)
    qed
  qed
qed simp

lemma issueTransfer_open: "open_net net \<Longrightarrow> fst (issueTransfer net req m)"
  by (auto simp: issueTransfer_def open_net_def Let_def not_less)

lemma issueQueueEntry_open:
  assumes "open_net net" "idx < length (mg_queue n w m)" "chunkBytesForTransfer c (mg_queue n w m ! idx) \<noteq> 0"
    "\<not> blocked m (mg_queue n w m ! idx)"
  shows "fst (issueQueueEntry c net n w idx m) \<noteq> None"
  using assms issueTransfer_open [OF assms(1), of "panel_chunk c (mg_queue n w m ! idx)" m]
  by (auto simp: issueQueueEntry_def blocked_def Let_def split: prod.splits bool.splits)

lemma mg_queue_set: "in_queues n w m \<Longrightarrow> in_queues n' w' m \<Longrightarrow>
   mg_queue n' w' (mg_set_queue n w q m) = (if n' = n \<and> w' = w then q else mg_queue n' w' m)"
  by (auto simp: mg_queue_def mg_set_queue_def in_queues_def nth_list_update)

text \<open>\<open>settles P m m'\<close>: the queues in \<open>P\<close> are blocked now, and the rest is as it was.\<close>

definition settles :: "(nat \<times> nat) set \<Rightarrow> RsManager \<Rightarrow> RsManager \<Rightarrow> bool" where
  "settles P m m' \<longleftrightarrow> mg_credits m' = mg_credits m \<and> mg_shape m' = mg_shape m \<and>
     (\<forall>n w. in_queues n w m \<longrightarrow>
        (if (n, w) \<in> P then queue_blocked m' n w else mg_queue n w m' = mg_queue n w m))"

lemma settles_trans:
  assumes "settles P m m1" "settles Q m1 m2"
  shows "settles (P \<union> Q) m m2"
proof -
  have iq: "in_queues n w m1 = in_queues n w m" for n w using assms(1) by (intro in_queues_shape) (simp add: settles_def)
  have cr: "blocked m2 = blocked m1" using assms(2) by (intro blocked_credits) (simp add: settles_def)
  have "if (n, w) \<in> P \<union> Q then queue_blocked m2 n w else mg_queue n w m2 = mg_queue n w m" if "in_queues n w m" for n w
  proof -
    have 1: "if (n, w) \<in> P then queue_blocked m1 n w else mg_queue n w m1 = mg_queue n w m"
      and 2: "if (n, w) \<in> Q then queue_blocked m2 n w else mg_queue n w m2 = mg_queue n w m1"
      using assms that iq by (simp_all add: settles_def)
    show ?thesis using 1 2 cr by (cases "(n, w) \<in> P"; cases "(n, w) \<in> Q") (simp_all add: queue_blocked_def)
  qed
  then show ?thesis using assms by (simp add: settles_def)
qed

lemma settles_refl: "\<forall>(n, w) \<in> P. queue_blocked m n w \<Longrightarrow> settles P m m"
  by (auto simp: settles_def)

lemma tryIssueFromQueue_settles:
  assumes "tryIssueFromQueue c net n w m = (False, m')" "open_net net" "in_queues n w m"
  shows "settles {(n, w)} m m'"
proof (cases "mg_queue n w m = []")
  case True
  then show ?thesis using assms by (auto simp: tryIssueFromQueue_def settles_def queue_blocked_def)
next
  case False
  obtain q best k where s: "scanCandidates c m (\<lambda>_. True) 0 None (mg_queue n w m) = (q, best, k)" by (metis prod_cases3)
  let ?m1 = "mg_press (\<lambda>p. p\<lparr>pr_workerCreditBlocked := pr_workerCreditBlocked p + k\<rparr>) (mg_set_queue n w q m)"
  have r: "chooseIssueCandidate c n w m = (map_option snd best, ?m1)"
    using s by (simp add: chooseIssueCandidate_def chooseCandidate_def)
  have q: "mg_queue n w (mg_set_queue n w q m) = q" using mg_queue_set [OF assms(3) assms(3)] by simp
  have bl: "blocked ?m1 = blocked m" by (rule blocked_credits) simp
  have "best = None"
  proof (rule ccontr)
    assume "best \<noteq> None"
    then obtain key i where b: "best = Some (key, i)" by auto
    from scan_some [OF s [unfolded b]] have "fst (issueQueueEntry c net n w i ?m1) \<noteq> None"
      by (intro issueQueueEntry_open [OF assms(2)]) (simp_all add: q bl)
    then show False using assms(1) False r b by (auto simp: tryIssueFromQueue_def split: prod.splits option.splits)
  qed
  then have m': "m' = ?m1" and "\<forall>p \<in> set q. blocked m p"
    using assms(1) False r scan_none [of c m 0 None "mg_queue n w m" q k] s by (auto simp: tryIssueFromQueue_def)
  then show ?thesis using mg_queue_set [OF assms(3)] q bl unfolding settles_def queue_blocked_def by auto
qed

section \<open>A pass without progress\<close>

lemma workersOfNode_settles:
  "workersOfNode c net n ws m = (False, m') \<Longrightarrow> open_net net \<Longrightarrow> \<forall>w \<in> set ws. in_queues n w m \<Longrightarrow>
   settles ({n} \<times> set ws) m m'"
proof (induction ws arbitrary: m)
  case (Cons w ws)
  have "\<exists>m1. settles {(n, w)} m m1 \<and> workersOfNode c net n ws m1 = (False, m')"
  proof (cases "mg_queue n w m = []")
    case True
    then have "settles {(n, w)} m m" by (simp add: settles_refl queue_blocked_def)
    then show ?thesis using Cons.prems(1) True by auto
  next
    case False
    then obtain m1 where "tryIssueFromQueue c net n w m = (False, m1)" "workersOfNode c net n ws m1 = (False, m')"
      using Cons.prems(1) by (auto split: prod.splits bool.splits)
    then show ?thesis using tryIssueFromQueue_settles [of c net n w m m1] Cons.prems(2,3) by auto
  qed
  then obtain m1 where 1: "settles {(n, w)} m m1" and 2: "workersOfNode c net n ws m1 = (False, m')" by blast
  have "\<forall>w \<in> set ws. in_queues n w m1" using Cons.prems(3) 1 in_queues_shape [of m1 m] by (auto simp: settles_def)
  from settles_trans [OF 1 Cons.IH [OF 2 Cons.prems(2) this]] show ?case by (simp add: insert_commute Un_commute)
qed (simp add: settles_refl)

lemma turn_order_set: "set (turn_order s n) = {..<n}"
proof (intro set_eqI iffI)
  fix x
  assume "x \<in> {..<n}"
  then have x: "x < n" by simp
  let ?i = "(x + (n - s mod n)) mod n"
  have "(s + ?i) mod n = (s mod n + (x + (n - s mod n))) mod n" by (simp add: mod_add_left_eq mod_add_right_eq)
  also have "s mod n + (x + (n - s mod n)) = x + n" using mod_less_divisor [of n s] x by linarith
  finally have "(s + ?i) mod n = x" using x by simp
  moreover have "?i < n" using x by simp
  ultimately show "x \<in> set (turn_order s n)" by (force simp: turn_order_def)
qed (simp add: turn_order_less)

lemma nodeTurns_settles:
  "nodeTurns c net nodes m = (False, m') \<Longrightarrow> open_net net \<Longrightarrow> \<forall>n \<in> set nodes. n < length (mg_queues m) \<Longrightarrow>
   settles (set nodes \<times> UNIV) m m'"
proof (induction nodes arbitrary: m)
  case (Cons n nodes)
  let ?k = "length (mg_queues m ! n)"
  have "\<exists>m1. settles ({n} \<times> {..<?k}) m m1 \<and> nodeTurns c net nodes m1 = (False, m')"
  proof (cases "mg_queues m ! n = []")
    case True
    then have "settles ({n} \<times> {..<?k}) m m" by (simp add: settles_refl)
    then show ?thesis using Cons.prems(1) True by auto
  next
    case False
    let ?s = "if n < length (mg_nodeWorkerIssueCursor m) then mg_nodeWorkerIssueCursor m ! n mod ?k else 0"
    from False obtain m1 where 1: "workersOfNode c net n (turn_order ?s ?k) m = (False, m1)" and 2: "nodeTurns c net nodes m1 = (False, m')"
      using Cons.prems(1) by (auto simp: Let_def split: prod.splits bool.splits)
    have "settles ({n} \<times> set (turn_order ?s ?k)) m m1"
      by (rule workersOfNode_settles [OF 1 Cons.prems(2)]) (use Cons.prems(3) in \<open>auto simp: in_queues_def turn_order_set\<close>)
    then show ?thesis using 2 by (auto simp: turn_order_set)
  qed
  then obtain m1 where 1: "settles ({n} \<times> {..<?k}) m m1" and 2: "nodeTurns c net nodes m1 = (False, m')" by blast
  have "\<forall>n \<in> set nodes. n < length (mg_queues m1)" using Cons.prems(3) 1 shape_length [of m1 m] by (auto simp: settles_def)
  from settles_trans [OF 1 Cons.IH [OF 2 Cons.prems(2) this]]
  have st: "settles ({n} \<times> {..<?k} \<union> set nodes \<times> UNIV) m m'" .
  have "(a, b) \<in> {n} \<times> {..<?k} \<union> set nodes \<times> UNIV \<longleftrightarrow> (a, b) \<in> set (n # nodes) \<times> UNIV" if "in_queues a b m" for a b
    using that by (auto simp: in_queues_def)
  then show ?case using st unfolding settles_def by metis
qed (simp add: settles_refl)

definition all_blocked :: "RsManager \<Rightarrow> bool" where
  "all_blocked m \<longleftrightarrow> (\<forall>row \<in> set (mg_queues m). \<forall>q \<in> set row. \<forall>p \<in> set q. blocked m p)"

lemma all_blocked_queues: "(\<And>n w. in_queues n w m \<Longrightarrow> queue_blocked m n w) \<Longrightarrow> all_blocked m"
  by (auto simp: all_blocked_def queue_blocked_def in_queues_def mg_queue_def in_set_conv_nth [where x = "_ :: _ list"])

lemma issuePass_blocked:
  assumes "issuePass c net m = (False, m')" "open_net net" "\<not> rc_groupRoundRobin c"
  shows "all_blocked m'"
proof (rule all_blocked_queues)
  fix n w
  assume "in_queues n w m'"
  let ?nodes = "turn_order (mg_nodeIssueCursor m) (length (mg_queues m))"
  have st: "settles (set ?nodes \<times> UNIV) m m'"
    by (rule nodeTurns_settles) (use assms in \<open>auto simp: issuePass_def turn_order_set\<close>)
  then have "in_queues n w m" using \<open>in_queues n w m'\<close> in_queues_shape [of m' m] by (simp add: settles_def)
  then show "queue_blocked m' n w" using st by (auto simp: settles_def turn_order_set in_queues_def)
qed

lemma issueLoop_ends:
  "open_net net \<Longrightarrow> \<not> rc_groupRoundRobin c \<Longrightarrow>
   managerPendingCount (issueLoop c net m) = 0 \<or> \<not> hasIssueBudget c (issueLoop c net m) \<or> all_blocked (issueLoop c net m)"
proof (induction c net m rule: issueLoop.induct)
  case (1 c net m)
  obtain b m' where p: "issuePass c net m = (b, m')" by (rule prod.exhaust)
  show ?case
  proof (cases "(managerPendingCount m \<noteq> 0 \<and> hasIssueBudget c m) \<and> b")
    case True
    then have "issueLoop c net m = issueLoop c net m'" using p by (simp add: issueLoop.simps [of c net m])
    moreover have "managerPendingCount (issueLoop c net m') = 0 \<or> \<not> hasIssueBudget c (issueLoop c net m') \<or> all_blocked (issueLoop c net m')"
      by (rule "1.IH") (use True p "1.prems" in auto)
    ultimately show ?thesis by simp
  next
    case False
    then show ?thesis using issuePass_blocked [of c net m m'] "1.prems" p by (auto simp: issueLoop.simps [of c net m])
  qed
qed

lemma none_pending: "managerPendingCount m = 0 \<Longrightarrow> all_blocked m"
  by (fastforce simp: managerPendingCount_def all_blocked_def)

lemma press_blocked [simp]:
  "all_blocked (mg_press f m) = all_blocked m" "hasIssueBudget c (mg_press f m) = hasIssueBudget c m"
  by (simp_all add: all_blocked_def hasIssueBudget_def blocked_def hasWorkerCredit_def)

lemma tryIssue_ends:
  assumes "open_net net" "\<not> rc_groupRoundRobin c"
  shows "\<not> hasIssueBudget c (tryIssue c net m) \<or> all_blocked (tryIssue c net m)"
proof (cases "mg_queues m = [] \<or> managerPendingCount m = 0")
  case True
  then have "all_blocked m" using none_pending by (auto simp: all_blocked_def)
  then show ?thesis using True by (auto simp: tryIssue_def)
next
  case False
  have "\<not> hasIssueBudget c (issueLoop c net (fresh_budget m)) \<or> all_blocked (issueLoop c net (fresh_budget m))"
    using issueLoop_ends [OF assms, of "fresh_budget m"] none_pending by blast
  then show ?thesis using False by (auto simp: tryIssue_def Let_def)
qed

text \<open>(C7)
  Work conservation under the node-first policy: when every address resolves and the network
  takes every packet, then after a tick the issue budget of the cycle is used up, or every panel
  that still waits, in any queue, is one no chunk of was sent and whose worker has no credit left.
  A panel whose transfer has begun never waits while budget is left.
\<close>

theorem tick_work_conserving:
  assumes "open_net net" "\<not> rc_groupRoundRobin c" "hasIssueBudget c (rs_managerTick c net cyc m)"
    "row \<in> set (mg_queues (rs_managerTick c net cyc m))" "q \<in> set row" "p \<in> set q"
  shows "pt_issuedBytes p = 0 \<and> \<not> hasWorkerCredit (rs_managerTick c net cyc m) p"
  using tryIssue_ends [OF assms(1,2)] assms(3-) by (auto simp: rs_managerTick_def all_blocked_def blocked_def)

theorem tick_work_conserving_witness:
  "let c = sample_config 1;
       m = rs_managerTick c sample_net 3 (rs_run c sample_net
         [EvReq ((RequestSchedulerMsg_of RS_SUBMIT)\<lparr>rm_bytes := 2\<rparr>) 0, EvTick 2,
          EvReq ((RequestSchedulerMsg_of RS_SUBMIT)\<lparr>rm_bytes := 5, rm_requestId := 1\<rparr>) 0] (mg_init c));
       p = mg_queues m ! 0 ! 0 ! 0
   in hasIssueBudget c m \<and> map (map length) (mg_queues m) = [[1, 0, 0, 0]] \<and> pt_issuedBytes p = 0 \<and> \<not> hasWorkerCredit m p"
proof -
  define m0 where "m0 = rs_run (sample_config 1) sample_net
    [EvReq ((RequestSchedulerMsg_of RS_SUBMIT)\<lparr>rm_bytes := 2\<rparr>) 0, EvTick 2,
     EvReq ((RequestSchedulerMsg_of RS_SUBMIT)\<lparr>rm_bytes := 5, rm_requestId := 1\<rparr>) 0] (mg_init (sample_config 1))"
  define m where "m = rs_managerTick (sample_config 1) sample_net 3 m0"
  have e: "hasIssueBudget (sample_config 1) m \<and> map (map length) (mg_queues m) = [[1, 0, 0, 0]]"
    unfolding m_def m0_def by code_simp
  then have q: "mg_queues m ! 0 \<in> set (mg_queues m)" "mg_queues m ! 0 ! 0 \<in> set (mg_queues m ! 0)"
    "mg_queues m ! 0 ! 0 ! 0 \<in> set (mg_queues m ! 0 ! 0)" by (auto simp: map_eq_Cons_conv)
  have n: "open_net sample_net" by (simp add: open_net_def sample_net_def)
  have r: "\<not> rc_groupRoundRobin (sample_config 1)" by code_simp
  have "pt_issuedBytes (mg_queues m ! 0 ! 0 ! 0) = 0 \<and> \<not> hasWorkerCredit m (mg_queues m ! 0 ! 0 ! 0)"
    using tick_work_conserving [OF n r, of 3 m0, folded m_def, OF _ q] e by blast
  then show ?thesis using e unfolding Let_def m0_def [symmetric] m_def [symmetric] by blast
qed

end
