(* ===== verification/Spec2Isabelle.thy ===== *)
theory Spec2Isabelle
  imports Fp16 Score_Fifo O_Accumulator_Pool Cluster_State Gm_Local_Runs Gm_Requests Group_Ctrl_Worker_Runs Request_Sched_Progress
begin

text \<open>
  This development verifies parts of the \<^emph>\<open>golem\<close> element (\<open>src/src/sst/elements/golem\<close>), the
  model of a RISC-V many-core accelerator with compute-in-memory arrays in the Structural Simulation
  Toolkit.  Cores of a group share a manager.  A worker core has a window of global memory, asks the
  manager for permission and for data, and computes attention tiles in a cluster of score slots,
  accumulators and banks.  The parts verified here are the ones that carry this coordination and the
  numeric conversion at its border.

  \<^bold>\<open>The parts and their theories.\<close>

  \<^item> \<open>attention/attentionCluster.h\<close>: \<open>Busy_Trackers\<close> (\<open>BusyIntervalUnion\<close>, \<open>BusyActivityTracker\<close>),
    \<open>Cluster_Config\<close> (configuration, tags, cancel registry, generation fence), \<open>Score_Fifo\<close>
    (\<open>AttentionScoreFifo\<close>), \<open>O_Accumulator\<close>, \<open>O_Accumulator_Correct\<close> and \<open>O_Accumulator_Pool\<close>
    (\<open>AttentionOAccumulator\<close>) and \<open>Cluster_State\<close> (\<open>AttentionClusterState\<close>).  Each class is a record
    and each method a function on it.
  \<^item> \<open>fp16.h\<close>: \<open>Ieee_Formats\<close> (rounding to nearest even, independent of the source) and \<open>Fp16\<close> (both
    conversions on bit patterns).  The conversions are total; the normalisation loop is a
    \<open>partial_function\<close> with a proof that it returns.
  \<^item> \<open>globalmemory/globalmemory.cc\<close>: \<open>Gm_Storage\<close> (bytes, 64-bit cells, DMA flag words),
    \<open>Gm_Local_Access\<close> and \<open>Gm_Local_Runs\<close> (the local-access ports and their runs as a step
    relation) and \<open>Gm_Requests\<close> (requested reads that arrive in chunks).
  \<^item> \<open>groupctrl/groupctrl.cc\<close>: \<open>Group_Ctrl_Msg\<close> (messages, parameters, constructor), \<open>Group_Ctrl_Sched\<close>
    (grants of the manager), \<open>Group_Ctrl_Kv\<close> and \<open>Group_Ctrl_Kv_Correct\<close> (the manager's K/V tile
    distribution), \<open>Group_Ctrl_Worker\<close> and \<open>Group_Ctrl_Worker_Runs\<close> (the worker endpoint, which
    writes delivered tiles through the local-access ports and talks to its core through mailbox
    words of the storage).
  \<^item> \<open>requestscheduler/requestscheduler.cc\<close>: \<open>Request_Sched_Core\<close> (messages, parameters, request
    numbers), \<open>Request_Sched_Manager\<close> (queues, credits, both issue policies), \<open>Request_Sched_Issue\<close>
    (the issue loop and the tick), \<open>Request_Sched_Runs\<close> and \<open>Request_Sched_Progress\<close>.
  \<^item> \<open>Golem_Prelude\<close> holds the machine types and the lemmas on lists, ranges and sums they share.

  \<^bold>\<open>How the source is represented.\<close>  Addresses, request numbers, masks and bit patterns are words of
  the source's width and wrap as there.  Cycle numbers, statistics counters and container sizes are
  natural numbers; a subtraction the source does not guard is \<open>sub64\<close> or \<open>sub32\<close>, which wrap.  A call of
  \<open>fatal\<close> or an access outside a container is the value \<open>None\<close>.  Callbacks are data handed back to the
  caller, and messages and packets are appended to an output list.  The links, the routers and the
  address resolution are parameters (\<open>RsNet\<close>) or inputs of a run; nothing is assumed of them except
  where a property says so (\<open>open_net\<close>).  Unordered maps are lists or functions.

  \<^bold>\<open>What is shown.\<close>

  \<^item> Data: the accumulator drains exactly the fold of the contributions it accepted, the score FIFO
    refines slots of cells, a local read returns what completed writes left, a requested read
    completes with its last byte, and narrowing to 16 bits is correctly rounded outside one interval.
  \<^item> Accounting: local accesses and K/V callbacks are answered exactly once, K/V deliveries answer
    requests, and the request manager's sent and waiting bytes are those of the panels it took.
  \<^item> Limits: ports, banks, grants per node, packets per cycle and panels per worker stay within
    their configuration; scratch tiles do not overlap.
  \<^item> Progress: local accesses drain, a scheduling pass and a tick of the node-first policy are
    maximal, and the splitting, issue and scheduling loops terminate.
  \<^item> Contracts: three locales, interpreted on the model.  \<open>interval_recorder\<close> is what the port
    statistics need of an interval union, \<open>tagged_pool\<close> what a pool of leased slots promises to the
    holder of a lease (score slots, accumulator contexts and cluster contexts), and \<open>u64_store\<close> what
    the mailbox and flag protocols need of the storage.

  \<^bold>\<open>Bounds and loops.\<close>  No definition uses fuel.  The issue loop of the request manager ends because a
  pass with progress uses up budget, the grant loop because the queue gets shorter, and the loop that
  splits a K/V tile because every piece has a row.  The theorem on K/V callbacks is for fewer than
  \<open>2^64\<close> inputs, so that request numbers do not wrap around.

  \<^bold>\<open>Not modelled.\<close>
  \<^item> The worker role of the request scheduler (windows of tiles, mailbox rings, batches): it sits
    between the worker command processor and the requested reads; its request numbers are modelled.
  \<^item> The DMA engine of the global memory, its retries, and the network events other than chunks of
    requested reads: they depend on the event queue and the link of the simulator core.
  \<^item> The special function unit (\<open>sfu\<close>), the worker command processor (\<open>workercmdproc\<close>) and the RoCC
    interface (\<open>rocc\<close>): their behaviour is interleaved with the clocked interfaces of other
    elements and with floating-point library functions.
  \<^item> The compute arrays (\<open>array\<close>): floating-point matrix products and an embedded Python simulator.
  \<^item> Printing of statistics, serialization of events, and registration with the simulator.
  \<^item> The other elements (memHierarchy, merlin, vanadis and so on), which are third-party code of the
    toolkit, and the build, test and run scripts.
\<close>

section \<open>Configuration fingerprints\<close>

text \<open>
  The fingerprint separates the accepted configurations: the FNV hashes of the eight are
  pairwise different, so two ends that agree on the fingerprint agree on the configuration.
\<close>

theorem config_fingerprint_distinct: "distinct (map cfg_fingerprint cfg_accepted)"
  by code_simp

end
